theory Spec2Isabelle
  imports Complex_Main "HOL-Library.Log_Nat"
begin

section \<open>JavaScript numbers\<close>

text \<open>
  A JavaScript number is an IEEE 754 double. A finite double is modelled as the real number
  it denotes, and an arithmetic operation of the source as the exact operation followed by
  \<open>dbl\<close>, the rounding to the nearest number with 53 significant bits, a tie going to the even
  significand. The exponent range is not modelled: \<open>dbl\<close> neither underflows nor overflows.
  Integers up to \<open>2 ^ 53\<close> in magnitude are doubles, and so are their products with powers
  of two. A decimal literal of the source denotes the double nearest to it.
\<close>

text \<open>Powers of two with an integer exponent.\<close>

definition pow2 :: "int \<Rightarrow> real" where
  "pow2 e = (if 0 \<le> e then 2 ^ nat e else 1 / 2 ^ nat (- e))"

text \<open>Rounding to the nearest integer, a tie going to the even one.\<close>

definition rhe :: "real \<Rightarrow> int" where
  "rhe x =
     (let f = \<lfloor>x\<rfloor>; d = x - real_of_int f
      in if d < 1 / 2 then f
         else if 1 / 2 < d then f + 1
         else if even f then f else f + 1)"

text \<open>The binary exponent \<open>e\<close> of a number that is not zero: \<open>2 ^ e \<le> \<bar>x\<bar> < 2 ^ (e + 1)\<close>.\<close>

definition expo :: "real \<Rightarrow> int" where
  "expo x = (if 1 \<le> \<bar>x\<bar> then bitlen \<lfloor>\<bar>x\<bar>\<rfloor> - 1 else - bitlen (\<lceil>1 / \<bar>x\<bar>\<rceil> - 1))"

definition dbl :: "real \<Rightarrow> real" where
  "dbl x = (if x = 0 then 0
           else (let u = pow2 (expo x - 52) in real_of_int (rhe (x / u)) * u))"

text \<open>
  The expression \<open>Math.round((n / t) * 100)\<close> on two integers: \<open>/\<close> and \<open>*\<close> round to a
  double, \<open>Math.round\<close> is exact and rounds a half upwards, like \<open>round\<close> of HOL.
\<close>

definition percent :: "int \<Rightarrow> int \<Rightarrow> int" where
  "percent n t = round (dbl (dbl (real_of_int n / real_of_int t) * 100))"

section \<open>Tile coordinate calculator (src/core/TileCalculator.js)\<close>

text \<open>
  Geographic coordinates are doubles, modelled as the \<open>real\<close> numbers they denote; tile
  indices and zoom levels are \<open>int\<close>. Every arithmetic operation of \<open>latLngToTile\<close> is
  the exact operation followed by \<open>dbl\<close>. \<open>Math.floor\<close> is \<open>\<lfloor>_\<rfloor>\<close>, which is exact, and
  \<open>Math.pow(2, zoom)\<close> is the power of two \<open>pow2 zoom\<close>, a double. ECMAScript leaves the
  accuracy of \<open>Math.tan\<close>, \<open>Math.cos\<close> and \<open>Math.log\<close> to the implementation; they are
  taken to return the double nearest to the exact value. \<open>Math.log\<close> is modelled where its
  argument is positive, which is the case for every latitude that \<open>isValidBounds\<close> accepts.
\<close>

record geo_bounds =
  north :: real
  south :: real
  east :: real
  west :: real

record tile =
  tile_x :: int
  tile_y :: int
  tile_z :: int

record tile_bounds =
  minX :: int
  maxX :: int
  minY :: int
  maxY :: int
  bounds_z :: int

text \<open>\<open>Math.PI\<close>, the double nearest to \<open>\<pi>\<close>.\<close>

definition Math_PI :: real where
  "Math_PI = 884279719003555 / 281474976710656"

definition Math_tan :: "real \<Rightarrow> real" where
  "Math_tan x = dbl (tan x)"

definition Math_cos :: "real \<Rightarrow> real" where
  "Math_cos x = dbl (cos x)"

definition Math_log :: "real \<Rightarrow> real" where
  "Math_log x = dbl (ln x)"

definition latLngToTile :: "real \<Rightarrow> real \<Rightarrow> int \<Rightarrow> tile" where
  "latLngToTile lat lng zoom =
     (let n = pow2 zoom;
          x = \<lfloor>dbl (dbl (dbl (lng + 180) / 360) * n)\<rfloor>;
          latRad = dbl (dbl (lat * Math_PI) / 180);
          y = \<lfloor>dbl (dbl (dbl (1 - dbl (Math_log (dbl (Math_tan latRad + dbl (1 / Math_cos latRad)))
                                       / Math_PI)) / 2) * n)\<rfloor>
      in \<lparr>tile_x = x, tile_y = y, tile_z = zoom\<rparr>)"

definition getTileBounds :: "geo_bounds \<Rightarrow> int \<Rightarrow> tile_bounds" where
  "getTileBounds bounds zoom =
     (let nwTile = latLngToTile (north bounds) (west bounds) zoom;
          seTile = latLngToTile (south bounds) (east bounds) zoom
      in \<lparr>minX = min (tile_x nwTile) (tile_x seTile),
          maxX = max (tile_x nwTile) (tile_x seTile),
          minY = min (tile_y nwTile) (tile_y seTile),
          maxY = max (tile_y nwTile) (tile_y seTile),
          bounds_z = zoom\<rparr>)"

text \<open>The innermost loop of \<open>getTileList\<close>: \<open>for (let y = minY; y <= maxY; y++) tiles.push({x, y, z})\<close>.\<close>

function getTileList_y :: "int \<Rightarrow> int \<Rightarrow> int \<Rightarrow> int \<Rightarrow> tile list \<Rightarrow> tile list" where
  "getTileList_y z x y yMax tiles =
     (if y \<le> yMax
      then getTileList_y z x (y + 1) yMax (tiles @ [\<lparr>tile_x = x, tile_y = y, tile_z = z\<rparr>])
      else tiles)"
  by pat_completeness auto
termination
  by (relation "measure (\<lambda>(z, x, y, yMax, tiles). nat (yMax + 1 - y))") auto

declare getTileList_y.simps [simp del]

text \<open>The middle loop: \<open>for (let x = minX; x <= maxX; x++)\<close>.\<close>

function getTileList_x :: "int \<Rightarrow> tile_bounds \<Rightarrow> int \<Rightarrow> tile list \<Rightarrow> tile list" where
  "getTileList_x z tb x tiles =
     (if x \<le> maxX tb
      then getTileList_x z tb (x + 1) (getTileList_y z x (minY tb) (maxY tb) tiles)
      else tiles)"
  by pat_completeness auto
termination
  by (relation "measure (\<lambda>(z, tb, x, tiles). nat (maxX tb + 1 - x))") auto

declare getTileList_x.simps [simp del]

text \<open>The outer loop: \<open>for (let z = minZoom; z <= maxZoom; z++)\<close>.\<close>

function getTileList_z :: "geo_bounds \<Rightarrow> int \<Rightarrow> int \<Rightarrow> tile list \<Rightarrow> tile list" where
  "getTileList_z bounds z maxZoom tiles =
     (if z \<le> maxZoom
      then getTileList_z bounds (z + 1) maxZoom
             (let tileBounds = getTileBounds bounds z
              in getTileList_x z tileBounds (minX tileBounds) tiles)
      else tiles)"
  by pat_completeness auto
termination
  by (relation "measure (\<lambda>(bounds, z, maxZoom, tiles). nat (maxZoom + 1 - z))") auto

declare getTileList_z.simps [simp del]

definition getTileList :: "geo_bounds \<Rightarrow> int \<Rightarrow> int \<Rightarrow> tile list" where
  "getTileList bounds minZoom maxZoom = getTileList_z bounds minZoom maxZoom []"

function calculateTileCount_z :: "geo_bounds \<Rightarrow> int \<Rightarrow> int \<Rightarrow> int \<Rightarrow> int" where
  "calculateTileCount_z bounds z maxZoom count =
     (if z \<le> maxZoom
      then calculateTileCount_z bounds (z + 1) maxZoom
             (let tileBounds = getTileBounds bounds z;
                  width = maxX tileBounds - minX tileBounds + 1;
                  height = maxY tileBounds - minY tileBounds + 1
              in count + width * height)
      else count)"
  by pat_completeness auto
termination
  by (relation "measure (\<lambda>(bounds, z, maxZoom, count). nat (maxZoom + 1 - z))") auto

declare calculateTileCount_z.simps [simp del]

definition calculateTileCount :: "geo_bounds \<Rightarrow> int \<Rightarrow> int \<Rightarrow> int" where
  "calculateTileCount bounds minZoom maxZoom = calculateTileCount_z bounds minZoom maxZoom 0"

definition isValidTile :: "int \<Rightarrow> int \<Rightarrow> int \<Rightarrow> bool" where
  "isValidTile x y z =
     (if z < 0 \<or> z > 22 then False
      else (let maxTile = 2 ^ nat z - 1
            in x \<ge> 0 \<and> x \<le> maxTile \<and> y \<ge> 0 \<and> y \<le> maxTile))"

text \<open>The literal \<open>85.051129\<close> of \<open>isValidBounds\<close>: the double nearest to it, a little above it.\<close>

definition latitude_limit :: real where
  "latitude_limit = dbl 85.051129"

text \<open>
  \<open>isValidBounds\<close> on a box of four numbers other than \<open>NaN\<close>: the \<open>typeof\<close> tests hold, the
  remaining tests are kept in the order of the source.
\<close>

definition isValidBounds :: "geo_bounds \<Rightarrow> bool" where
  "isValidBounds bounds =
     (if north bounds < - latitude_limit \<or> north bounds > latitude_limit then False
      else if south bounds < - latitude_limit \<or> south bounds > latitude_limit then False
      else if east bounds < - 180 \<or> east bounds > 180 then False
      else if west bounds < - 180 \<or> west bounds > 180 then False
      else if north bounds \<le> south bounds then False
      else True)"

text \<open>
  The same function on the argument as a caller passes it: a coordinate may be \<open>NaN\<close>, whose
  \<open>typeof\<close> is \<open>'number'\<close> too. Every comparison with \<open>NaN\<close> is false, so none of the tests
  rejects a \<open>NaN\<close> coordinate.
\<close>

datatype number = NaN | Number real

fun less_number :: "number \<Rightarrow> number \<Rightarrow> bool" where
  "less_number (Number a) (Number b) = (a < b)"
| "less_number _ _ = False"

fun greater_number :: "number \<Rightarrow> number \<Rightarrow> bool" where
  "greater_number (Number a) (Number b) = (a > b)"
| "greater_number _ _ = False"

fun less_eq_number :: "number \<Rightarrow> number \<Rightarrow> bool" where
  "less_eq_number (Number a) (Number b) = (a \<le> b)"
| "less_eq_number _ _ = False"

record bounds_object =
  object_north :: number
  object_south :: number
  object_east :: number
  object_west :: number

definition isValidBounds_object :: "bounds_object \<Rightarrow> bool" where
  "isValidBounds_object bounds =
     (if less_number (object_north bounds) (Number (- latitude_limit))
         \<or> greater_number (object_north bounds) (Number (latitude_limit)) then False
      else if less_number (object_south bounds) (Number (- latitude_limit))
         \<or> greater_number (object_south bounds) (Number (latitude_limit)) then False
      else if less_number (object_east bounds) (Number (- 180))
         \<or> greater_number (object_east bounds) (Number 180) then False
      else if less_number (object_west bounds) (Number (- 180))
         \<or> greater_number (object_west bounds) (Number 180) then False
      else if less_eq_number (object_north bounds) (object_south bounds) then False
      else True)"

text \<open>The box of an object without \<open>NaN\<close>.\<close>

definition numbers :: "bounds_object \<Rightarrow> geo_bounds option" where
  "numbers bounds =
     (case (object_north bounds, object_south bounds, object_east bounds, object_west bounds) of
        (Number n, Number s, Number e, Number w) \<Rightarrow> Some \<lparr>north = n, south = s, east = e, west = w\<rparr>
      | _ \<Rightarrow> None)"


definition isValidZoomRange :: "int \<Rightarrow> int \<Rightarrow> bool" where
  "isValidZoomRange minZoom maxZoom =
     (if minZoom < 0 \<or> minZoom > 22 then False
      else if maxZoom < 0 \<or> maxZoom > 22 then False
      else if minZoom > maxZoom then False
      else True)"

section \<open>Tile store and job registry (src/core/TileDatabase.js)\<close>

subsection \<open>JavaScript \<open>Map\<close>\<close>

text \<open>
  A JavaScript \<open>Map\<close> iterates in insertion order, and \<open>set\<close> on a key that is present
  replaces the value without moving the entry. It is modelled as an association list with
  distinct keys, oldest entry first.
\<close>

definition Map_has :: "('k \<times> 'v) list \<Rightarrow> 'k \<Rightarrow> bool" where
  "Map_has m k = (map_of m k \<noteq> None)"

definition Map_get :: "('k \<times> 'v) list \<Rightarrow> 'k \<Rightarrow> 'v option" where
  "Map_get m k = map_of m k"

fun Map_set :: "('k \<times> 'v) list \<Rightarrow> 'k \<Rightarrow> 'v \<Rightarrow> ('k \<times> 'v) list" where
  "Map_set [] k v = [(k, v)]"
| "Map_set (p # ps) k v = (if fst p = k then (k, v) # ps else p # Map_set ps k v)"

definition Map_delete :: "('k \<times> 'v) list \<Rightarrow> 'k \<Rightarrow> ('k \<times> 'v) list" where
  "Map_delete m k = filter (\<lambda>p. fst p \<noteq> k) m"

subsection \<open>Tables\<close>

text \<open>
  Tile image data (a \<open>Buffer\<close>) is a list of bytes. A row of table \<open>tiles\<close> (field
  \<open>tiles_table\<close>) is keyed by the primary key \<open>(z, x, y, source)\<close>. Table \<open>download_jobs\<close> is keyed by \<open>id\<close>.
  \<open>Date.now()\<close> is passed to every operation that reads the clock.
\<close>

type_synonym buffer = string

type_synonym tile_key = "int \<times> int \<times> int \<times> string"

record tile_row =
  row_timestamp :: int
  row_data :: buffer

record job_row =
  row_name :: string
  row_source :: string
  row_bounds :: geo_bounds
  row_minZoom :: int
  row_maxZoom :: int
  row_totalTiles :: int
  row_downloadedTiles :: int
  row_status :: string
  row_country :: "string option"
  row_city :: "string option"
  row_createdAt :: int
  row_updatedAt :: int

record tile_database =
  tiles_table :: "(tile_key \<times> tile_row) list"
  download_jobs :: "string \<rightharpoonup> job_row"
  cache :: "(string \<times> buffer) list"
  maxCacheSize :: int

datatype error =
    InvalidTileSource
  | InvalidBounds
  | InvalidZoomRange
  | JobNotFound
  | ConstraintFailed
  | ReferenceError

subsection \<open>Prepared statements\<close>

definition stmt_getTile :: "'a tile_database_scheme \<Rightarrow> int \<Rightarrow> int \<Rightarrow> int \<Rightarrow> string \<Rightarrow> tile_row option" where
  "stmt_getTile db z x y source = map_of (tiles_table db) (z, x, y, source)"

definition stmt_hasTile :: "'a tile_database_scheme \<Rightarrow> int \<Rightarrow> int \<Rightarrow> int \<Rightarrow> string \<Rightarrow> bool" where
  "stmt_hasTile db z x y source = (map_of (tiles_table db) (z, x, y, source) \<noteq> None)"

text \<open>\<open>INSERT OR REPLACE\<close>: a row with the same primary key is removed first.\<close>

definition stmt_insertTile ::
  "int \<Rightarrow> int \<Rightarrow> int \<Rightarrow> string \<Rightarrow> int \<Rightarrow> buffer \<Rightarrow> 'a tile_database_scheme \<Rightarrow> 'a tile_database_scheme" where
  "stmt_insertTile z x y source timestamp data db =
     db\<lparr>tiles_table := filter (\<lambda>r. fst r \<noteq> (z, x, y, source)) (tiles_table db)
                   @ [((z, x, y, source), \<lparr>row_timestamp = timestamp, row_data = data\<rparr>)]\<rparr>"

definition stmt_deleteTile ::
  "int \<Rightarrow> int \<Rightarrow> int \<Rightarrow> string \<Rightarrow> 'a tile_database_scheme \<Rightarrow> 'a tile_database_scheme" where
  "stmt_deleteTile z x y source db =
     db\<lparr>tiles_table := filter (\<lambda>r. fst r \<noteq> (z, x, y, source)) (tiles_table db)\<rparr>"

text \<open>
  The \<open>WHERE\<close> clause of \<open>deleteTilesByJob\<close>:
  \<open>source = ? AND z >= ? AND z <= ? AND x >= ? AND x <= ? AND y >= ? AND y <= ?\<close>.
\<close>

definition deleteTilesByJob_where ::
  "string \<Rightarrow> int \<Rightarrow> int \<Rightarrow> int \<Rightarrow> int \<Rightarrow> int \<Rightarrow> int \<Rightarrow> tile_key \<Rightarrow> bool" where
  "deleteTilesByJob_where source zLo zHi xLo xHi yLo yHi k =
     (case k of (z, x, y, s) \<Rightarrow>
        s = source \<and> z \<ge> zLo \<and> z \<le> zHi \<and> x \<ge> xLo \<and> x \<le> xHi \<and> y \<ge> yLo \<and> y \<le> yHi)"

text \<open>The statement returns \<open>changes\<close>, the number of rows it deleted.\<close>

definition stmt_deleteTilesByJob ::
  "string \<Rightarrow> int \<Rightarrow> int \<Rightarrow> int \<Rightarrow> int \<Rightarrow> int \<Rightarrow> int \<Rightarrow> 'a tile_database_scheme
     \<Rightarrow> int \<times> 'a tile_database_scheme" where
  "stmt_deleteTilesByJob source zLo zHi xLo xHi yLo yHi db =
     (int (length (filter (\<lambda>r. deleteTilesByJob_where source zLo zHi xLo xHi yLo yHi (fst r)) (tiles_table db))),
      db\<lparr>tiles_table := filter (\<lambda>r. \<not> deleteTilesByJob_where source zLo zHi xLo xHi yLo yHi (fst r)) (tiles_table db)\<rparr>)"

definition stmt_updateJobProgress ::
  "int \<Rightarrow> int \<Rightarrow> string \<Rightarrow> 'a tile_database_scheme \<Rightarrow> 'a tile_database_scheme" where
  "stmt_updateJobProgress downloadedTiles now ident db =
     (case download_jobs db ident of
        None \<Rightarrow> db
      | Some row \<Rightarrow>
          db\<lparr>download_jobs := (download_jobs db)
                (ident \<mapsto> row\<lparr>row_downloadedTiles := downloadedTiles, row_updatedAt := now\<rparr>)\<rparr>)"

definition stmt_updateJobStatus ::
  "string \<Rightarrow> int \<Rightarrow> string \<Rightarrow> 'a tile_database_scheme \<Rightarrow> 'a tile_database_scheme" where
  "stmt_updateJobStatus status now ident db =
     (case download_jobs db ident of
        None \<Rightarrow> db
      | Some row \<Rightarrow>
          db\<lparr>download_jobs := (download_jobs db)
                (ident \<mapsto> row\<lparr>row_status := status, row_updatedAt := now\<rparr>)\<rparr>)"

subsection \<open>Cache\<close>

text \<open>
  The cache key is the template string \<open>`${source}/${z}/${x}/${y}`\<close>; the tile coordinates
  are integers and print in decimal.
\<close>

definition digit_char :: "nat \<Rightarrow> char" where
  "digit_char d = ''0123456789'' ! d"

text \<open>
  \<open>Number.prototype.toString\<close> on an integer below \<open>10^21\<close> in magnitude: the decimal digits,
  with a sign when negative. From \<open>10^21\<close> on JavaScript prints exponent notation, which is
  not modelled; zoom levels and tile indices of a zoom up to 22 are far below.
\<close>

function nat_toString :: "nat \<Rightarrow> string" where
  "nat_toString n =
     (if n div 10 = 0 then [digit_char n]
      else nat_toString (n div 10) @ [digit_char (n mod 10)])"
  by pat_completeness auto
termination
  by (relation "measure id") auto

declare nat_toString.simps [simp del]

definition number_toString :: "int \<Rightarrow> string" where
  "number_toString i =
     (if 0 \<le> i then nat_toString (nat i) else CHR ''-'' # nat_toString (nat (- i)))"

definition getCacheKey :: "int \<Rightarrow> int \<Rightarrow> int \<Rightarrow> string \<Rightarrow> string" where
  "getCacheKey z x y source =
     source @ ''/'' @ number_toString z @ ''/'' @ number_toString x @ ''/'' @ number_toString y"

definition startsWith :: "string \<Rightarrow> string \<Rightarrow> bool" where
  "startsWith s p = (take (length p) s = p)"

text \<open>
  \<open>manageCacheSize\<close>: when the cache is full the first key of the map is deleted; on an
  empty map that key is \<open>undefined\<close> and \<open>delete\<close> does nothing.
\<close>

definition manageCacheSize :: "'a tile_database_scheme \<Rightarrow> 'a tile_database_scheme" where
  "manageCacheSize db =
     (if int (length (cache db)) \<ge> maxCacheSize db
      then (case cache db of
              [] \<Rightarrow> db
            | p # _ \<Rightarrow> db\<lparr>cache := Map_delete (cache db) (fst p)\<rparr>)
      else db)"

subsection \<open>Tile operations\<close>

definition getTile ::
  "int \<Rightarrow> int \<Rightarrow> int \<Rightarrow> string \<Rightarrow> 'a tile_database_scheme \<Rightarrow> buffer option \<times> 'a tile_database_scheme" where
  "getTile z x y source db =
     (let cacheKey = getCacheKey z x y source
      in case Map_get (cache db) cacheKey of
           Some data \<Rightarrow>
             (Some data, db\<lparr>cache := Map_set (Map_delete (cache db) cacheKey) cacheKey data\<rparr>)
         | None \<Rightarrow>
             (case stmt_getTile db z x y source of
                Some row \<Rightarrow>
                  (let db1 = manageCacheSize db
                   in (Some (row_data row),
                       db1\<lparr>cache := Map_set (cache db1) cacheKey (row_data row)\<rparr>))
              | None \<Rightarrow> (None, db)))"

definition hasTile :: "int \<Rightarrow> int \<Rightarrow> int \<Rightarrow> string \<Rightarrow> 'a tile_database_scheme \<Rightarrow> bool \<times> 'a tile_database_scheme" where
  "hasTile z x y source db =
     (let cacheKey = getCacheKey z x y source
      in if Map_has (cache db) cacheKey then (True, db)
         else (stmt_hasTile db z x y source, db))"

definition saveTile ::
  "int \<Rightarrow> int \<Rightarrow> int \<Rightarrow> string \<Rightarrow> buffer \<Rightarrow> int \<Rightarrow> 'a tile_database_scheme \<Rightarrow> 'a tile_database_scheme" where
  "saveTile z x y source data now db =
     (let timestamp = now;
          db1 = stmt_insertTile z x y source timestamp data db;
          cacheKey = getCacheKey z x y source;
          db2 = manageCacheSize db1
      in db2\<lparr>cache := Map_set (cache db2) cacheKey data\<rparr>)"

definition deleteTile ::
  "int \<Rightarrow> int \<Rightarrow> int \<Rightarrow> string \<Rightarrow> 'a tile_database_scheme \<Rightarrow> 'a tile_database_scheme" where
  "deleteTile z x y source db =
     (let db1 = stmt_deleteTile z x y source db;
          cacheKey = getCacheKey z x y source
      in db1\<lparr>cache := Map_delete (cache db1) cacheKey\<rparr>)"

text \<open>
  \<open>deleteTilesForJob\<close> opens with
  \<open>const { getTileBounds } = require('./TileCalculator.js')\<close>.
  \<open>TileDatabase.js\<close> is an ES module: it begins with \<open>import\<close> declarations and
  exports its class, and the package is loaded with \<open>import\<close>. The scope of an ES module
  has no binding of the CommonJS name \<open>require\<close>, and the file declares none; it is the only
  use of \<open>require\<close> in the repository, the other modules reach the calculator with
  \<open>import ... from './core/TileCalculator.js'\<close>. Evaluating the name raises a
  \<open>ReferenceError\<close>, whatever the path.
\<close>

definition require :: "string \<Rightarrow> error + unit" where
  "require path = Inl ReferenceError"

text \<open>
  The statements after that line, with \<open>getTileBounds\<close> standing for the function of the
  calculator that the line means to bind. The first loop: one range delete per zoom level.
\<close>

function deleteTilesForJob_z ::
  "string \<Rightarrow> geo_bounds \<Rightarrow> int \<Rightarrow> int \<Rightarrow> int \<Rightarrow> 'a tile_database_scheme
     \<Rightarrow> int \<times> 'a tile_database_scheme" where
  "deleteTilesForJob_z source bounds z maxZoom totalDeleted db =
     (if z \<le> maxZoom
      then (let tileBounds = getTileBounds bounds z;
                (changes, db1) = stmt_deleteTilesByJob source z z
                    (minX tileBounds) (maxX tileBounds) (minY tileBounds) (maxY tileBounds) db
            in deleteTilesForJob_z source bounds (z + 1) maxZoom (totalDeleted + changes) db1)
      else (totalDeleted, db))"
  by pat_completeness auto
termination
  by (relation "measure (\<lambda>(source, bounds, z, maxZoom, totalDeleted, db). nat (maxZoom + 1 - z))") auto

declare deleteTilesForJob_z.simps [simp del]

text \<open>
  The second loop: \<open>for (const key of this.cache.keys()) if (key.startsWith(source + '/'))
  this.cache.delete(key)\<close>.
\<close>

definition clearCacheForSource :: "string \<Rightarrow> 'a tile_database_scheme \<Rightarrow> 'a tile_database_scheme" where
  "clearCacheForSource source db =
     fold (\<lambda>key d. if startsWith key (source @ ''/'')
                    then d\<lparr>cache := Map_delete (cache d) key\<rparr> else d)
          (map fst (cache db)) db"

definition deleteTilesForJob_loops ::
  "string \<Rightarrow> geo_bounds \<Rightarrow> int \<Rightarrow> int \<Rightarrow> 'a tile_database_scheme \<Rightarrow> int \<times> 'a tile_database_scheme" where
  "deleteTilesForJob_loops source bounds minZoom maxZoom db =
     (let (totalDeleted, db1) = deleteTilesForJob_z source bounds minZoom maxZoom 0 db
      in (totalDeleted, clearCacheForSource source db1))"

text \<open>The whole method: the exception of its first line leaves before either loop.\<close>

definition deleteTilesForJob ::
  "string \<Rightarrow> geo_bounds \<Rightarrow> int \<Rightarrow> int \<Rightarrow> 'a tile_database_scheme
     \<Rightarrow> (error + int) \<times> 'a tile_database_scheme" where
  "deleteTilesForJob source bounds minZoom maxZoom db =
     (case require ''./TileCalculator.js'' of
        Inl e \<Rightarrow> (Inl e, db)
      | Inr _ \<Rightarrow>
          (let (totalDeleted, db1) = deleteTilesForJob_loops source bounds minZoom maxZoom db
           in (Inr totalDeleted, db1)))"

text \<open>
  The tiles a job covers: source, zoom range, and at each zoom the inclusive rectangle that
  \<open>getTileBounds\<close> computes from the bounds.
\<close>

definition inJobRectangle :: "string \<Rightarrow> geo_bounds \<Rightarrow> int \<Rightarrow> int \<Rightarrow> tile_key \<Rightarrow> bool" where
  "inJobRectangle source bounds minZoom maxZoom k =
     (case k of (z, x, y, s) \<Rightarrow>
        s = source \<and> minZoom \<le> z \<and> z \<le> maxZoom \<and>
        minX (getTileBounds bounds z) \<le> x \<and> x \<le> maxX (getTileBounds bounds z) \<and>
        minY (getTileBounds bounds z) \<le> y \<and> y \<le> maxY (getTileBounds bounds z))"

text \<open>A store with three rows, one of them cached.\<close>

definition example_store :: tile_database where
  "example_store =
     \<lparr>tiles_table = [((0, 0, 0, ''arcgis''), \<lparr>row_timestamp = 1, row_data = ''a''\<rparr>),
                     ((0, 0, 0, ''google''), \<lparr>row_timestamp = 2, row_data = ''b''\<rparr>),
                     ((1, 0, 0, ''arcgis''), \<lparr>row_timestamp = 3, row_data = ''c''\<rparr>)],
      download_jobs = Map.empty, cache = [(getCacheKey 0 0 0 ''arcgis'', ''a'')],
      maxCacheSize = 1000\<rparr>"

subsection \<open>Job registry operations\<close>

text \<open>\<open>createDownloadJob\<close>: the \<open>INSERT\<close> fails on an id that is already present.\<close>

definition createDownloadJob ::
  "string \<Rightarrow> string \<Rightarrow> string \<Rightarrow> geo_bounds \<Rightarrow> int \<Rightarrow> int \<Rightarrow> int \<Rightarrow> int
     \<Rightarrow> 'a tile_database_scheme \<Rightarrow> error + 'a tile_database_scheme" where
  "createDownloadJob ident name source bounds minZoom maxZoom totalTiles now db =
     (case download_jobs db ident of
        Some _ \<Rightarrow> Inl ConstraintFailed
      | None \<Rightarrow>
          Inr (db\<lparr>download_jobs := (download_jobs db)(ident \<mapsto>
                 \<lparr>row_name = name, row_source = source, row_bounds = bounds,
                  row_minZoom = minZoom, row_maxZoom = maxZoom, row_totalTiles = totalTiles,
                  row_downloadedTiles = 0, row_status = ''pending'',
                  row_country = None, row_city = None,
                  row_createdAt = now, row_updatedAt = now\<rparr>)\<rparr>))"

definition updateJobProgress :: "string \<Rightarrow> int \<Rightarrow> int \<Rightarrow> 'a tile_database_scheme \<Rightarrow> 'a tile_database_scheme" where
  "updateJobProgress ident downloadedTiles now db = stmt_updateJobProgress downloadedTiles now ident db"

definition updateJobStatus :: "string \<Rightarrow> string \<Rightarrow> int \<Rightarrow> 'a tile_database_scheme \<Rightarrow> 'a tile_database_scheme" where
  "updateJobStatus ident status now db = stmt_updateJobStatus status now ident db"

definition getJob :: "'a tile_database_scheme \<Rightarrow> string \<Rightarrow> job_row option" where
  "getJob db ident = download_jobs db ident"


section \<open>Download scheduler (src/core/TileDownloader.js)\<close>

text \<open>
  The scheduler holds a reference to the tile database; its state extends the database
  record, so every database operation applies to it. Besides the fields of the class the
  record has two fields that make effects of the source observable:
  \<^item> \<open>inflight\<close>: the pending promises of \<open>downloadTile\<close>, each with the task it works on.
    A promise is \<open>Fetching\<close> until the body of \<open>downloadTile\<close> has finished (the tile was
    saved or the failure was caught) and \<open>Settled\<close> until its \<open>then\<close> callback has run;
  \<^item> \<open>logged\<close>: the counters that \<open>completeJob\<close> writes with \<open>logger.info\<close>.
\<close>

record task =
  task_jobId :: string
  task_source :: string
  task_z :: int
  task_x :: int
  task_y :: int

record active_job =
  job_id :: string
  job_source :: string
  job_tiles :: "tile list"
  job_totalTiles :: int
  job_downloadedTiles :: int
  job_failedTiles :: int
  job_status :: string

record download_stats =
  startTime :: int
  downloadedCount :: int
  failedCount :: int
  skippedCount :: int

datatype fetch_phase = Fetching | Settled

record completion_log =
  log_jobId :: string
  log_downloaded :: int
  log_skipped :: int
  log_failed :: int

record tile_downloader = tile_database +
  maxConcurrent :: int
  minRequestInterval :: int
  queue :: "task list"
  activeDownloads :: int
  activeJobs :: "(string \<times> active_job) list"
  downloadStats :: "(string \<times> download_stats) list"
  lastRequestTime :: int
  inflight :: "(task \<times> fetch_phase) list"
  logged :: "completion_log list"

subsection \<open>Counters\<close>

definition handleTileDownloaded ::
  "string \<Rightarrow> int \<Rightarrow> 'a tile_downloader_scheme \<Rightarrow> 'a tile_downloader_scheme" where
  "handleTileDownloaded jobId now st =
     (case (Map_get (activeJobs st) jobId, Map_get (downloadStats st) jobId) of
        (Some job, Some stats) \<Rightarrow>
          (let st1 = st\<lparr>activeJobs := Map_set (activeJobs st) jobId
                          (job\<lparr>job_downloadedTiles := job_downloadedTiles job + 1\<rparr>),
                        downloadStats := Map_set (downloadStats st) jobId
                          (stats\<lparr>downloadedCount := downloadedCount stats + 1\<rparr>)\<rparr>
           in if (downloadedCount stats + 1) mod 10 = 0
              then updateJobProgress jobId (downloadedCount stats + 1) now st1
              else st1)
      | _ \<Rightarrow> st)"

definition handleTileFailed :: "string \<Rightarrow> 'a tile_downloader_scheme \<Rightarrow> 'a tile_downloader_scheme" where
  "handleTileFailed jobId st =
     (case (Map_get (activeJobs st) jobId, Map_get (downloadStats st) jobId) of
        (Some job, Some stats) \<Rightarrow>
          st\<lparr>activeJobs := Map_set (activeJobs st) jobId
                 (job\<lparr>job_failedTiles := job_failedTiles job + 1\<rparr>),
             downloadStats := Map_set (downloadStats st) jobId
                 (stats\<lparr>failedCount := failedCount stats + 1\<rparr>)\<rparr>
      | _ \<Rightarrow> st)"

definition handleTileSkipped :: "string \<Rightarrow> 'a tile_downloader_scheme \<Rightarrow> 'a tile_downloader_scheme" where
  "handleTileSkipped jobId st =
     (case Map_get (downloadStats st) jobId of
        Some stats \<Rightarrow>
          st\<lparr>downloadStats := Map_set (downloadStats st) jobId
                 (stats\<lparr>skippedCount := skippedCount stats + 1\<rparr>)\<rparr>
      | None \<Rightarrow> st)"

subsection \<open>Queueing and completion\<close>

definition queueTile ::
  "string \<Rightarrow> string \<Rightarrow> int \<Rightarrow> int \<Rightarrow> int \<Rightarrow> 'a tile_downloader_scheme \<Rightarrow> 'a tile_downloader_scheme" where
  "queueTile jobId source z x y st =
     (let (present, st1) = hasTile z x y source st
      in if present then handleTileSkipped jobId st1
         else st1\<lparr>queue := queue st1 @
                [\<lparr>task_jobId = jobId, task_source = source, task_z = z, task_x = x, task_y = y\<rparr>]\<rparr>)"

definition completeJob :: "string \<Rightarrow> int \<Rightarrow> 'a tile_downloader_scheme \<Rightarrow> 'a tile_downloader_scheme" where
  "completeJob jobId now st =
     (case (Map_get (activeJobs st) jobId, Map_get (downloadStats st) jobId) of
        (Some job, Some stats) \<Rightarrow>
          (let st1 = st\<lparr>logged := logged st @
                        [\<lparr>log_jobId = jobId, log_downloaded = downloadedCount stats,
                          log_skipped = skippedCount stats, log_failed = failedCount stats\<rparr>]\<rparr>;
               st2 = updateJobProgress jobId (downloadedCount stats) now st1;
               st3 = updateJobStatus jobId
                       (if failedCount stats > 0 then ''completed_with_errors'' else ''completed'')
                       now st2
           in st3\<lparr>activeJobs := Map_delete (activeJobs st3) jobId,
                  downloadStats := Map_delete (downloadStats st3) jobId\<rparr>)
      | _ \<Rightarrow> st)"

text \<open>
  The \<open>while\<close> loop of \<open>processQueue\<close>: each iteration takes the first task of the queue and
  calls \<open>downloadTile\<close>, whose promise stays pending.
\<close>

function processQueue_loop :: "'a tile_downloader_scheme \<Rightarrow> 'a tile_downloader_scheme" where
  "processQueue_loop st =
     (if activeDownloads st < maxConcurrent st \<and> length (queue st) > 0
      then processQueue_loop
             (st\<lparr>queue := tl (queue st),
                 activeDownloads := activeDownloads st + 1,
                 inflight := inflight st @ [(hd (queue st), Fetching)]\<rparr>)
      else st)"
  by pat_completeness auto
termination
  by (relation "measure (\<lambda>st. length (queue st))") auto

declare processQueue_loop.simps [simp del]

text \<open>
  The body of the \<open>for\<close> loop over \<open>this.activeJobs\<close> in \<open>processQueue\<close>. The two maps
  \<open>activeJobs\<close> and \<open>downloadStats\<close> always hold the same keys (they are set and deleted
  together), so the statistics of an active job are present.
\<close>

definition checkJobComplete :: "string \<Rightarrow> int \<Rightarrow> 'a tile_downloader_scheme \<Rightarrow> 'a tile_downloader_scheme" where
  "checkJobComplete jobId now st =
     (case (Map_get (activeJobs st) jobId, Map_get (downloadStats st) jobId) of
        (Some job, Some stats) \<Rightarrow>
          (let total = downloadedCount stats + failedCount stats + skippedCount stats
           in if total \<ge> job_totalTiles job \<and> activeDownloads st = 0
              then completeJob jobId now st
              else st)
      | _ \<Rightarrow> st)"

definition processQueue :: "int \<Rightarrow> 'a tile_downloader_scheme \<Rightarrow> 'a tile_downloader_scheme" where
  "processQueue now st =
     (let st1 = processQueue_loop st
      in fold (\<lambda>jobId. checkJobComplete jobId now) (map fst (activeJobs st1)) st1)"

definition startJob ::
  "string \<Rightarrow> string \<Rightarrow> tile list \<Rightarrow> int \<Rightarrow> 'a tile_downloader_scheme \<Rightarrow> 'a tile_downloader_scheme" where
  "startJob jobId source tiles now st =
     (let st1 = st\<lparr>activeJobs := Map_set (activeJobs st) jobId
                     \<lparr>job_id = jobId, job_source = source, job_tiles = tiles,
                      job_totalTiles = int (length tiles), job_downloadedTiles = 0,
                      job_failedTiles = 0, job_status = ''running''\<rparr>\<rparr>;
          st2 = st1\<lparr>downloadStats := Map_set (downloadStats st1) jobId
                     \<lparr>startTime = now, downloadedCount = 0, failedCount = 0, skippedCount = 0\<rparr>\<rparr>;
          st3 = updateJobStatus jobId ''running'' now st2;
          st4 = fold (\<lambda>tile. queueTile jobId source (tile_z tile) (tile_x tile) (tile_y tile)) tiles st3
      in processQueue now st4)"

definition cancelJob :: "string \<Rightarrow> int \<Rightarrow> 'a tile_downloader_scheme \<Rightarrow> bool \<times> 'a tile_downloader_scheme" where
  "cancelJob jobId now st =
     (case Map_get (activeJobs st) jobId of
        None \<Rightarrow> (False, st)
      | Some job \<Rightarrow>
          (let st1 = st\<lparr>queue := filter (\<lambda>task. task_jobId task \<noteq> jobId) (queue st)\<rparr>;
               st2 = updateJobStatus jobId ''cancelled'' now st1
           in (True, st2\<lparr>activeJobs := Map_delete (activeJobs st2) jobId,
                         downloadStats := Map_delete (downloadStats st2) jobId\<rparr>)))"

subsection \<open>Fetches\<close>

text \<open>
  The network decides how a pending \<open>downloadTile\<close> ends: with a response of status 200
  that carries data, or with a failure (transport error, timeout, another status).
\<close>

datatype fetch_outcome = Response buffer | Failure

fun settleFirst :: "task \<Rightarrow> (task \<times> fetch_phase) list \<Rightarrow> (task \<times> fetch_phase) list option" where
  "settleFirst t [] = None"
| "settleFirst t (p # ps) =
     (if p = (t, Fetching) then Some ((t, Settled) # ps)
      else map_option (\<lambda>ps'. p # ps') (settleFirst t ps))"

text \<open>
  The rest of \<open>downloadTile\<close> after the response: on success \<open>saveTile\<close> and
  \<open>handleTileDownloaded\<close>, in the \<open>catch\<close> branch \<open>handleTileFailed\<close>.
\<close>

definition downloadTile_settle ::
  "task \<Rightarrow> fetch_outcome \<Rightarrow> int \<Rightarrow> 'a tile_downloader_scheme \<Rightarrow> 'a tile_downloader_scheme option" where
  "downloadTile_settle t outcome now st =
     (case settleFirst t (inflight st) of
        None \<Rightarrow> None
      | Some fl \<Rightarrow>
          (let st1 = st\<lparr>inflight := fl\<rparr>
           in case outcome of
                Response data \<Rightarrow>
                  Some (handleTileDownloaded (task_jobId t) now
                         (saveTile (task_z t) (task_x t) (task_y t) (task_source t) data now st1))
              | Failure \<Rightarrow> Some (handleTileFailed (task_jobId t) st1)))"

text \<open>The \<open>then\<close> (or \<open>catch\<close>) callback in \<open>processQueue\<close>: release the slot, process the queue.\<close>

definition downloadTile_then ::
  "task \<Rightarrow> int \<Rightarrow> 'a tile_downloader_scheme \<Rightarrow> 'a tile_downloader_scheme option" where
  "downloadTile_then t now st =
     (if (t, Settled) \<in> set (inflight st)
      then Some (processQueue now
                  (st\<lparr>inflight := remove1 (t, Settled) (inflight st),
                      activeDownloads := activeDownloads st - 1\<rparr>))
      else None)"

subsection \<open>Status of an active job\<close>

record active_status =
  as_jobId :: string
  as_source :: string
  as_totalTiles :: int
  as_downloadedTiles :: int
  as_skippedTiles :: int
  as_failedTiles :: int
  as_progress :: int
  as_status :: string
  as_queuedTiles :: int

text \<open>
  \<open>(total / job.totalTiles) * 100\<close> rounds twice, after the division and after the
  multiplication; \<open>Math.round\<close> rounds to the nearest integer, halves upwards: \<open>round\<close> of
  HOL.
\<close>

definition downloader_getJobStatus :: "string \<Rightarrow> 'a tile_downloader_scheme \<Rightarrow> active_status option" where
  "downloader_getJobStatus jobId st =
     (case (Map_get (activeJobs st) jobId, Map_get (downloadStats st) jobId) of
        (Some job, Some stats) \<Rightarrow>
          (let total = downloadedCount stats + failedCount stats + skippedCount stats;
               progress = (if job_totalTiles job > 0
                           then dbl (dbl (real_of_int total / real_of_int (job_totalTiles job)) * 100)
                           else 0)
           in Some \<lparr>as_jobId = jobId,
                    as_source = job_source job,
                    as_totalTiles = job_totalTiles job,
                    as_downloadedTiles = downloadedCount stats,
                    as_skippedTiles = skippedCount stats,
                    as_failedTiles = failedCount stats,
                    as_progress = round progress,
                    as_status = job_status job,
                    as_queuedTiles = int (length (filter (\<lambda>t. task_jobId t = jobId) (queue st)))\<rparr>)
      | _ \<Rightarrow> None)"

subsection \<open>Rate limiting\<close>

text \<open>
  \<open>rateLimit\<close> is an \<open>async\<close> function with one \<open>await\<close>. The part before it reads the
  clock and decides whether to sleep and for how long; the part after it (run at once when
  there is no sleep) stamps \<open>lastRequestTime\<close> with the clock of that moment, and the caller
  \<open>downloadTile\<close> then issues the request.
\<close>

definition rateLimit_delay :: "int \<Rightarrow> 'a tile_downloader_scheme \<Rightarrow> int option" where
  "rateLimit_delay now st =
     (let timeSinceLastRequest = now - lastRequestTime st
      in if timeSinceLastRequest < minRequestInterval st
         then Some (minRequestInterval st - timeSinceLastRequest)
         else None)"

definition rateLimit_stamp :: "int \<Rightarrow> 'a tile_downloader_scheme \<Rightarrow> 'a tile_downloader_scheme" where
  "rateLimit_stamp now st = st\<lparr>lastRequestTime := now\<rparr>"

text \<open>
  A trace of fetches through the gate. \<open>sleeping\<close> holds the fetches waiting in
  \<open>setTimeout\<close> with the time their timer is due, \<open>issued\<close> the fetches that passed the
  gate with the time their request was issued. \<open>Call f\<close> is \<open>downloadTile\<close> entering
  \<open>rateLimit\<close> for fetch \<open>f\<close>; \<open>Wake f\<close> is the timer of \<open>f\<close> firing, not before it is due.
  The clock never runs backwards.
\<close>

record fetch_trace = tile_downloader +
  clock :: int
  sleeping :: "(nat \<times> int) list"
  issued :: "(nat \<times> int) list"

datatype gate_event = Call nat | Wake nat

definition gate_step :: "int \<Rightarrow> gate_event \<Rightarrow> 'a fetch_trace_scheme \<Rightarrow> 'a fetch_trace_scheme option" where
  "gate_step now ev st =
     (if now < clock st then None
      else (case ev of
              Call f \<Rightarrow>
                (case rateLimit_delay now st of
                   Some delay \<Rightarrow>
                     Some (st\<lparr>clock := now, sleeping := sleeping st @ [(f, now + delay)]\<rparr>)
                 | None \<Rightarrow>
                     Some ((rateLimit_stamp now st)\<lparr>clock := now, issued := issued st @ [(f, now)]\<rparr>))
            | Wake f \<Rightarrow>
                (case map_of (sleeping st) f of
                   None \<Rightarrow> None
                 | Some due \<Rightarrow>
                     if now < due then None
                     else Some ((rateLimit_stamp now st)
                                 \<lparr>clock := now,
                                  sleeping := filter (\<lambda>p. fst p \<noteq> f) (sleeping st),
                                  issued := issued st @ [(f, now)]\<rparr>))))"

fun gate_run :: "(int \<times> gate_event) list \<Rightarrow> 'a fetch_trace_scheme \<Rightarrow> 'a fetch_trace_scheme option" where
  "gate_run [] st = Some st"
| "gate_run ((now, ev) # evs) st =
     (case gate_step now ev st of None \<Rightarrow> None | Some st' \<Rightarrow> gate_run evs st')"

subsection \<open>Executions of the scheduler\<close>

text \<open>
  What happens to a scheduler, each event with the clock at that moment: a pending fetch
  gets its outcome, the callback of a settled fetch runs, a job is started, a job is
  cancelled. An event that is not possible in a state (no such fetch is pending) gives
  \<open>None\<close>.
\<close>

datatype event =
    FetchSettled task fetch_outcome
  | SlotReleased task
  | StartJob string string "tile list"
  | CancelJob string

fun step :: "int \<Rightarrow> event \<Rightarrow> 'a tile_downloader_scheme \<Rightarrow> 'a tile_downloader_scheme option" where
  "step now (FetchSettled t outcome) st = downloadTile_settle t outcome now st"
| "step now (SlotReleased t) st = downloadTile_then t now st"
| "step now (StartJob jobId source tiles) st = Some (startJob jobId source tiles now st)"
| "step now (CancelJob jobId) st = Some (snd (cancelJob jobId now st))"

fun run :: "(int \<times> event) list \<Rightarrow> 'a tile_downloader_scheme \<Rightarrow> 'a tile_downloader_scheme option" where
  "run [] st = Some st"
| "run ((now, ev) # evs) st =
     (case step now ev st of None \<Rightarrow> None | Some st' \<Rightarrow> run evs st')"

subsection \<open>What an execution shows of one job\<close>

text \<open>Whether a tile of a tile list is already in the store, as \<open>queueTile\<close> tests it.\<close>

definition present_in :: "string \<Rightarrow> 'a tile_downloader_scheme \<Rightarrow> tile \<Rightarrow> bool" where
  "present_in source st t = fst (hasTile (tile_z t) (tile_x t) (tile_y t) source st)"

text \<open>Whether a tile is in the store: table \<open>tiles\<close> has a row for it.\<close>

definition stored :: "string \<Rightarrow> 'a tile_database_scheme \<Rightarrow> tile \<Rightarrow> bool" where
  "stored source st t = stmt_hasTile st (tile_z t) (tile_x t) (tile_y t) source"

text \<open>
  The tasks of a job that wait in the queue, and its fetches that have not got their
  outcome yet.
\<close>

definition queuedFor :: "string \<Rightarrow> 'a tile_downloader_scheme \<Rightarrow> nat" where
  "queuedFor jobId st = length (filter (\<lambda>t. task_jobId t = jobId) (queue st))"

definition fetchingFor :: "string \<Rightarrow> 'a tile_downloader_scheme \<Rightarrow> nat" where
  "fetchingFor jobId st =
     length (filter (\<lambda>p. task_jobId (fst p) = jobId \<and> snd p = Fetching) (inflight st))"

text \<open>The lines that \<open>completeJob\<close> has logged for a job.\<close>

definition loggedFor :: "string \<Rightarrow> 'a tile_downloader_scheme \<Rightarrow> completion_log list" where
  "loggedFor jobId st = filter (\<lambda>e. log_jobId e = jobId) (logged st)"

text \<open>The fetches of a job that fail in a list of events, and the events that start or cancel it.\<close>

fun failureOf :: "string \<Rightarrow> event \<Rightarrow> bool" where
  "failureOf jobId (FetchSettled t Failure) = (task_jobId t = jobId)"
| "failureOf jobId _ = False"

definition failuresOf :: "string \<Rightarrow> (int \<times> event) list \<Rightarrow> int" where
  "failuresOf jobId evs = int (length (filter (\<lambda>e. failureOf jobId (snd e)) evs))"

fun restarts :: "string \<Rightarrow> event \<Rightarrow> bool" where
  "restarts jobId (StartJob j source tiles) = (j = jobId)"
| "restarts jobId (CancelJob j) = (j = jobId)"
| "restarts jobId _ = False"

text \<open>
  The slot counter agrees with the pending promises, and the loop of \<open>processQueue\<close> has
  left no task waiting while a slot is free.
\<close>

definition slots_ok :: "'a tile_downloader_scheme \<Rightarrow> bool" where
  "slots_ok st = (activeDownloads st = int (length (inflight st)))"

definition queue_drained :: "'a tile_downloader_scheme \<Rightarrow> bool" where
  "queue_drained st = (queue st = [] \<or> maxConcurrent st \<le> activeDownloads st)"

text \<open>
  The work a scheduler still has: three steps for a queued task (taken from the queue, its
  fetch settled, its slot released), two for a fetch without outcome, one for a settled one.
\<close>

definition pending :: "'a tile_downloader_scheme \<Rightarrow> nat" where
  "pending st = 3 * length (queue st) + length (inflight st)
                  + length (filter (\<lambda>p. snd p = Fetching) (inflight st))"

text \<open>
  A job of \<open>T\<close> tiles, \<open>K\<close> of them skipped at its start and \<open>F\<close> failed so far, while it
  is active: every other tile is downloaded, queued or being fetched; the registry holds
  the value \<open>r0\<close> it had at the start until the tenth success, and the last multiple of ten
  afterwards.
\<close>

definition job_running ::
  "string \<Rightarrow> int \<Rightarrow> int \<Rightarrow> int \<Rightarrow> completion_log list \<Rightarrow> int \<Rightarrow> 'a tile_downloader_scheme \<Rightarrow> bool" where
  "job_running jobId T K F L0 r0 st =
     (case (Map_get (activeJobs st) jobId, Map_get (downloadStats st) jobId, download_jobs st jobId) of
        (Some job, Some stats, Some row) \<Rightarrow>
          job_totalTiles job = T \<and> skippedCount stats = K \<and> failedCount stats = F \<and>
          0 \<le> downloadedCount stats \<and>
          downloadedCount stats + F + int (queuedFor jobId st) + int (fetchingFor jobId st) = T - K \<and>
          row_downloadedTiles row =
            (if downloadedCount stats < 10 then r0 else 10 * (downloadedCount stats div 10)) \<and>
          loggedFor jobId st = L0
      | _ \<Rightarrow> False)"

text \<open>The same job after \<open>completeJob\<close>.\<close>

definition job_completed ::
  "string \<Rightarrow> int \<Rightarrow> int \<Rightarrow> int \<Rightarrow> completion_log list \<Rightarrow> 'a tile_downloader_scheme \<Rightarrow> bool" where
  "job_completed jobId T K F L0 st =
     (Map_get (activeJobs st) jobId = None \<and> Map_get (downloadStats st) jobId = None \<and>
      queuedFor jobId st = 0 \<and> fetchingFor jobId st = 0 \<and>
      loggedFor jobId st =
        L0 @ [\<lparr>log_jobId = jobId, log_downloaded = T - K - F, log_skipped = K, log_failed = F\<rparr>] \<and>
      (case download_jobs st jobId of
         Some row \<Rightarrow>
           row_downloadedTiles row = T - K - F \<and>
           row_status row = (if F > 0 then ''completed_with_errors'' else ''completed'')
       | None \<Rightarrow> False))"

text \<open>What every state of an execution satisfies, from the start of the job on.\<close>

definition job_inv ::
  "string \<Rightarrow> int \<Rightarrow> int \<Rightarrow> int \<Rightarrow> completion_log list \<Rightarrow> int \<Rightarrow> 'a tile_downloader_scheme \<Rightarrow> bool" where
  "job_inv jobId T K F L0 r0 st =
     (slots_ok st \<and> queue_drained st \<and> 0 < maxConcurrent st \<and>
      (job_running jobId T K F L0 r0 st \<or> job_completed jobId T K F L0 st) \<and>
      (inflight st = [] \<longrightarrow> job_completed jobId T K F L0 st))"

section \<open>Facade (src/TileForge.js, src/config/sources.js)\<close>













record stored_status =
  ss_jobId :: string
  ss_name :: string
  ss_source :: string
  ss_bounds :: geo_bounds
  ss_minZoom :: int
  ss_maxZoom :: int
  ss_totalTiles :: int
  ss_downloadedTiles :: int
  ss_progress :: int
  ss_status :: string
  ss_country :: "string option"
  ss_city :: "string option"
  ss_createdAt :: int
  ss_updatedAt :: int

datatype job_status = ActiveStatus active_status | StoredStatus stored_status

definition getJobStatus :: "string \<Rightarrow> 'a tile_downloader_scheme \<Rightarrow> job_status option" where
  "getJobStatus jobId st =
     (case downloader_getJobStatus jobId st of
        Some activeStatus \<Rightarrow> Some (ActiveStatus activeStatus)
      | None \<Rightarrow>
          (case getJob st jobId of
             Some job \<Rightarrow>
               Some (StoredStatus
                 \<lparr>ss_jobId = jobId,
                  ss_name = row_name job,
                  ss_source = row_source job,
                  ss_bounds = row_bounds job,
                  ss_minZoom = row_minZoom job,
                  ss_maxZoom = row_maxZoom job,
                  ss_totalTiles = row_totalTiles job,
                  ss_downloadedTiles = row_downloadedTiles job,
                  ss_progress = (if row_totalTiles job > 0
                     then round (dbl (dbl (real_of_int (row_downloadedTiles job)
                                           / real_of_int (row_totalTiles job)) * 100))
                     else 0),
                  ss_status = row_status job,
                  ss_country = row_country job,
                  ss_city = row_city job,
                  ss_createdAt = row_createdAt job,
                  ss_updatedAt = row_updatedAt job\<rparr>)
           | None \<Rightarrow> None))"

text \<open>Fields that both shapes of a status object have.\<close>

fun status_progress :: "job_status \<Rightarrow> int" where
  "status_progress (ActiveStatus a) = as_progress a"
| "status_progress (StoredStatus s) = ss_progress s"

fun status_downloadedTiles :: "job_status \<Rightarrow> int" where
  "status_downloadedTiles (ActiveStatus a) = as_downloadedTiles a"
| "status_downloadedTiles (StoredStatus s) = ss_downloadedTiles s"

fun status_totalTiles :: "job_status \<Rightarrow> int" where
  "status_totalTiles (ActiveStatus a) = as_totalTiles a"
| "status_totalTiles (StoredStatus s) = ss_totalTiles s"

subsection \<open>Construction\<close>

text \<open>
  The constructors, on a database file that does not exist yet. An option that is
  \<open>0\<close> is falsy and replaced by its default (\<open>options.x || defaults.x\<close>).
\<close>

record forge_options =
  maxConcurrentDownloads :: int
  cacheSize :: int
  rateLimit :: int

definition TileForge_new :: "forge_options \<Rightarrow> tile_downloader" where
  "TileForge_new options =
     \<lparr>tiles_table = [],
      download_jobs = Map.empty,
      cache = [],
      maxCacheSize = (if cacheSize options = 0 then 1000 else cacheSize options),
      maxConcurrent = (if maxConcurrentDownloads options = 0 then 4
                       else maxConcurrentDownloads options),
      minRequestInterval = (if rateLimit options = 0 then 500 else rateLimit options),
      queue = [],
      activeDownloads = 0,
      activeJobs = [],
      downloadStats = [],
      lastRequestTime = 0,
      inflight = [],
      logged = []\<rparr>"

definition fetch_trace_new :: "forge_options \<Rightarrow> int \<Rightarrow> fetch_trace" where
  "fetch_trace_new options now =
     tile_downloader.extend (TileForge_new options) \<lparr>clock = now, sleeping = [], issued = []\<rparr>"

subsection \<open>An example\<close>

text \<open>
  A forge with default options that has stored the tile \<open>arcgis/1/0/0\<close> and registered
  the job \<open>job1\<close>; a list of two tiles, the stored one and its neighbour; the task of
  fetching the neighbour.
\<close>

definition example_forge :: tile_downloader where
  "example_forge =
     projr (createDownloadJob ''job1'' ''Example'' ''arcgis''
              \<lparr>north = 45, south = - 45, east = 10, west = - 10\<rparr> 1 1 2 60
              (saveTile 1 0 0 ''arcgis'' ''a'' 50
                 (TileForge_new \<lparr>maxConcurrentDownloads = 4, cacheSize = 1000, rateLimit = 500\<rparr>)))"

definition example_tiles :: "tile list" where
  "example_tiles = [\<lparr>tile_x = 0, tile_y = 0, tile_z = 1\<rparr>, \<lparr>tile_x = 1, tile_y = 0, tile_z = 1\<rparr>]"

definition example_task :: task where
  "example_task =
     \<lparr>task_jobId = ''job1'', task_source = ''arcgis'', task_z = 1, task_x = 1, task_y = 0\<rparr>"

text \<open>
  The same forge without the stored tile; the task of fetching the first tile; the forge
  after \<open>job1\<close> has been started on the two tiles, both fetches pending; and the events in
  which four fetches of \<open>job1\<close> succeed, each followed by the release of its slot.
\<close>

definition fresh_forge :: tile_downloader where
  "fresh_forge =
     projr (createDownloadJob ''job1'' ''Example'' ''arcgis''
              \<lparr>north = 45, south = - 45, east = 10, west = - 10\<rparr> 1 1 2 60
              (TileForge_new \<lparr>maxConcurrentDownloads = 4, cacheSize = 1000, rateLimit = 500\<rparr>))"

definition example_task0 :: task where
  "example_task0 =
     \<lparr>task_jobId = ''job1'', task_source = ''arcgis'', task_z = 1, task_x = 0, task_y = 0\<rparr>"

definition running_forge :: tile_downloader where
  "running_forge = startJob ''job1'' ''arcgis'' example_tiles 100 fresh_forge"

definition four_fetches :: "(int \<times> event) list" where
  "four_fetches =
     [(200, FetchSettled example_task0 (Response ''a'')), (201, SlotReleased example_task0),
      (210, FetchSettled example_task (Response ''b'')), (211, SlotReleased example_task),
      (220, FetchSettled example_task0 (Response ''a'')), (221, SlotReleased example_task0),
      (230, FetchSettled example_task (Response ''b'')), (231, SlotReleased example_task)]"

section \<open>Properties of double arithmetic\<close>

subsection \<open>Powers of two, rounding, exponent\<close>

lemma pow2_powr: "pow2 e = 2 powr (real_of_int e)"
  by (simp add: pow2_def powr_real_of_int inverse_eq_divide)

lemma pow2_pos [simp]: "0 < pow2 e"
  by (simp add: pow2_powr)

lemma pow2_nonneg [simp]: "0 \<le> pow2 e"
  by (simp add: pow2_powr)

lemma pow2_neq0 [simp]: "pow2 e \<noteq> 0"
  by (simp add: pow2_powr)

lemma pow2_add: "pow2 (a + b) = pow2 a * pow2 b"
  by (simp add: pow2_powr powr_add)

lemma pow2_diff: "pow2 (a - b) = pow2 a / pow2 b"
  by (simp add: pow2_powr powr_diff)

lemma pow2_le_iff [simp]: "pow2 a \<le> pow2 b \<longleftrightarrow> a \<le> b"
  by (simp add: pow2_powr)

lemma pow2_less_iff [simp]: "pow2 a < pow2 b \<longleftrightarrow> a < b"
  by (simp add: pow2_powr)

lemma pow2_nat: "0 \<le> e \<Longrightarrow> pow2 e = real_of_int (2 ^ nat e)"
  by (simp add: pow2_def)

lemma pow2_0 [simp]: "pow2 0 = 1"
  by (simp add: pow2_def)

lemma pow2_1 [simp]: "pow2 1 = 2"
  by (simp add: pow2_def)

lemma pow2_Suc: "pow2 (k + 1) = 2 * pow2 k" "pow2 (1 + k) = 2 * pow2 k"
  by (simp_all add: pow2_add)

lemma rhe_of_int [simp]: "rhe (real_of_int k) = k"
  by (simp add: rhe_def)

lemma rhe_cases:
  obtains f where "real_of_int f \<le> x" "x < real_of_int f + 1" "f = \<lfloor>x\<rfloor>"
    "rhe x = (if x - real_of_int f < 1 / 2 then f
              else if 1 / 2 < x - real_of_int f then f + 1
              else if even f then f else f + 1)"
proof -
  define f where "f = \<lfloor>x\<rfloor>"
  have "real_of_int f \<le> x" "x < real_of_int f + 1"
    unfolding f_def by linarith+
  moreover have "rhe x = (if x - real_of_int f < 1 / 2 then f
              else if 1 / 2 < x - real_of_int f then f + 1
              else if even f then f else f + 1)"
    by (simp add: rhe_def Let_def f_def)
  ultimately show ?thesis using that f_def by blast
qed

lemma rhe_error: "\<bar>real_of_int (rhe x) - x\<bar> \<le> 1 / 2"
proof -
  obtain f where "real_of_int f \<le> x" "x < real_of_int f + 1"
    "rhe x = (if x - real_of_int f < 1 / 2 then f
              else if 1 / 2 < x - real_of_int f then f + 1
              else if even f then f else f + 1)"
    by (rule rhe_cases)
  then show ?thesis
    by (auto simp: abs_if split: if_splits)
qed

lemma rhe_floor: "\<lfloor>x\<rfloor> \<le> rhe x" and rhe_floor1: "rhe x \<le> \<lfloor>x\<rfloor> + 1"
  by (auto simp: rhe_def Let_def)

lemma rhe_mono:
  assumes "x \<le> y"
  shows "rhe x \<le> rhe y"
proof (cases "\<lfloor>x\<rfloor> = \<lfloor>y\<rfloor>")
  case True
  then show ?thesis
    using assms by (auto simp: rhe_def Let_def)
next
  case False
  with assms have "\<lfloor>x\<rfloor> + 1 \<le> \<lfloor>y\<rfloor>"
    using floor_mono[OF assms] by linarith
  then show ?thesis
    using rhe_floor1[of x] rhe_floor[of y] by linarith
qed

lemma rhe_minus: "rhe (- x) = - rhe x"
proof (cases "x = real_of_int \<lfloor>x\<rfloor>")
  case True
  then obtain k where "x = real_of_int k" ..
  then show ?thesis
    by (simp flip: of_int_minus)
next
  case False
  define f where "f = \<lfloor>x\<rfloor>"
  have b: "real_of_int f < x" "x < real_of_int f + 1"
    using False unfolding f_def by linarith+
  have "\<lfloor>- x\<rfloor> = - f - 1"
    using b by (intro floor_unique) simp_all
  then have m: "rhe (- x) = (if - x - real_of_int (- f - 1) < 1 / 2 then - f - 1
              else if 1 / 2 < - x - real_of_int (- f - 1) then - f - 1 + 1
              else if even (- f - 1) then - f - 1 else - f - 1 + 1)"
    by (simp add: rhe_def Let_def)
  have p: "rhe x = (if x - real_of_int f < 1 / 2 then f
              else if 1 / 2 < x - real_of_int f then f + 1
              else if even f then f else f + 1)"
    by (simp add: rhe_def Let_def f_def)
  show ?thesis
    unfolding m p using b by (auto split: if_splits)
qed

lemma expo_bounds:
  assumes "x \<noteq> 0"
  shows "pow2 (expo x) \<le> \<bar>x\<bar>" and "\<bar>x\<bar> < pow2 (expo x + 1)"
proof -
  have "pow2 (expo x) \<le> \<bar>x\<bar> \<and> \<bar>x\<bar> < pow2 (expo x + 1)"
  proof (cases "1 \<le> \<bar>x\<bar>")
    case True
    define m where "m = \<lfloor>\<bar>x\<bar>\<rfloor>"
    have m1: "1 \<le> m" using True unfolding m_def by linarith
    have mx: "real_of_int m \<le> \<bar>x\<bar>" "\<bar>x\<bar> < real_of_int m + 1"
      unfolding m_def by linarith+
    have e: "expo x = bitlen m - 1"
      using True by (simp add: expo_def m_def)
    have bl: "1 \<le> bitlen m"
      using m1 by (simp add: bitlen_alt_def)
    from bitlen_bounds[of m] m1 have b: "2 ^ nat (bitlen m - 1) \<le> m" "m < 2 ^ nat (bitlen m)"
      by auto
    have "pow2 (bitlen m - 1) = real_of_int (2 ^ nat (bitlen m - 1))"
      using bl by (intro pow2_nat) simp
    also have "\<dots> \<le> real_of_int m" using b(1) by (simp only: of_int_le_iff)
    finally have lo: "pow2 (expo x) \<le> \<bar>x\<bar>" using mx(1) e by simp
    have "m + 1 \<le> 2 ^ nat (bitlen m)" using b(2) by simp
    then have "real_of_int (m + 1) \<le> real_of_int (2 ^ nat (bitlen m))"
      by (simp only: of_int_le_iff)
    moreover have "pow2 (bitlen m - 1 + 1) = real_of_int (2 ^ nat (bitlen m))"
      using bl by (simp add: pow2_nat)
    ultimately have hi: "\<bar>x\<bar> < pow2 (expo x + 1)"
      using mx(2) e by simp
    show ?thesis using lo hi ..
  next
    case False
    have x0: "0 < \<bar>x\<bar>" using assms by simp
    define y where "y = 1 / \<bar>x\<bar>"
    have y1: "1 < y" using False x0 by (simp add: y_def)
    define k where "k = \<lceil>y\<rceil> - 1"
    have ky: "real_of_int k < y" "y \<le> real_of_int k + 1"
      unfolding k_def by linarith+
    have k1: "1 \<le> k" using y1 ky(2) by linarith
    have e: "expo x = - bitlen k"
      using False by (simp add: expo_def k_def y_def)
    have bl: "1 \<le> bitlen k"
      using k1 by (simp add: bitlen_alt_def)
    from bitlen_bounds[of k] k1 have b: "2 ^ nat (bitlen k - 1) \<le> k" "k < 2 ^ nat (bitlen k)"
      by auto
    have p1: "pow2 (bitlen k) = real_of_int (2 ^ nat (bitlen k))"
      using bl by (intro pow2_nat) simp
    have p2: "pow2 (bitlen k - 1) = real_of_int (2 ^ nat (bitlen k - 1))"
      using bl by (intro pow2_nat) simp
    have "k + 1 \<le> 2 ^ nat (bitlen k)" using b(2) by simp
    then have "real_of_int (k + 1) \<le> pow2 (bitlen k)"
      unfolding p1 by (simp only: of_int_le_iff)
    then have yle: "y \<le> pow2 (bitlen k)" using ky(2) by simp
    have "pow2 (bitlen k - 1) \<le> real_of_int k"
      unfolding p2 using b(1) by (simp only: of_int_le_iff)
    then have ygt: "pow2 (bitlen k - 1) < y" using ky(1) by simp
    have xy: "\<bar>x\<bar> = 1 / y" by (simp add: y_def)
    have lo: "pow2 (- bitlen k) \<le> \<bar>x\<bar>"
    proof -
      have "1 / pow2 (bitlen k) \<le> 1 / y"
        using yle y1 by (intro divide_left_mono) simp_all
      moreover have "pow2 (- bitlen k) = 1 / pow2 (bitlen k)"
        using pow2_diff[of 0 "bitlen k"] by simp
      ultimately show ?thesis by (simp add: xy)
    qed
    have hi: "\<bar>x\<bar> < pow2 (- bitlen k + 1)"
    proof -
      have "1 / y < 1 / pow2 (bitlen k - 1)"
        using ygt y1 by (intro divide_strict_left_mono mult_pos_pos) simp_all
      moreover have "pow2 (- bitlen k + 1) = 1 / pow2 (bitlen k - 1)"
        using pow2_diff[of 0 "bitlen k - 1"] by simp
      ultimately show ?thesis by (simp add: xy)
    qed
    show ?thesis using lo hi e by simp
  qed
  then show "pow2 (expo x) \<le> \<bar>x\<bar>" and "\<bar>x\<bar> < pow2 (expo x + 1)" by simp_all
qed

lemma expo_unique:
  assumes "pow2 e \<le> \<bar>x\<bar>" and "\<bar>x\<bar> < pow2 (e + 1)"
  shows "expo x = e"
proof -
  have "0 < \<bar>x\<bar>" using assms(1) pow2_pos[of e] by linarith
  then have x: "x \<noteq> 0" by simp
  note b = expo_bounds[OF x]
  have "pow2 e < pow2 (expo x + 1)" using assms(1) b(2) by linarith
  moreover have "pow2 (expo x) < pow2 (e + 1)" using assms(2) b(1) by linarith
  ultimately show ?thesis by simp
qed

lemma dbl_0 [simp]: "dbl 0 = 0"
  by (simp add: dbl_def)

lemma dbl_eval:
  assumes "pow2 e \<le> \<bar>x\<bar>" and "\<bar>x\<bar> < pow2 (e + 1)"
  shows "dbl x = real_of_int (rhe (x / pow2 (e - 52))) * pow2 (e - 52)"
proof -
  have "0 < \<bar>x\<bar>" using assms(1) pow2_pos[of e] by linarith
  then have "x \<noteq> 0" by simp
  then show ?thesis
    by (simp add: dbl_def Let_def expo_unique[OF assms])
qed

lemma expo_minus [simp]: "expo (- x) = expo x"
  by (simp add: expo_def)

lemma dbl_minus: "dbl (- x) = - dbl x"
  by (simp add: dbl_def Let_def rhe_minus)

lemma dbl_nonneg:
  assumes "0 \<le> x"
  shows "0 \<le> dbl x"
proof (cases "x = 0")
  case True
  then show ?thesis by simp
next
  case False
  have "0 \<le> x / pow2 (expo x - 52)" using assms by simp
  then have "rhe 0 \<le> rhe (x / pow2 (expo x - 52))" by (rule rhe_mono)
  then have "0 \<le> rhe (x / pow2 (expo x - 52))"
    using rhe_of_int[of 0] by simp
  then show ?thesis
    using False by (simp add: dbl_def Let_def)
qed

lemma dbl_nonpos: "x \<le> 0 \<Longrightarrow> dbl x \<le> 0"
  using dbl_nonneg[of "- x"] by (simp add: dbl_minus)

text \<open>A number with at most 53 significant bits is a double.\<close>

lemma dbl_fix:
  assumes "\<bar>m\<bar> \<le> 2 ^ 53"
  shows "dbl (real_of_int m * pow2 k) = real_of_int m * pow2 k"
proof (cases "m = 0")
  case True
  then show ?thesis by simp
next
  case False
  let ?x = "real_of_int m * pow2 k"
  have x0: "?x \<noteq> 0" using False by simp
  define e where "e = expo ?x"
  note b = expo_bounds[OF x0, folded e_def]
  have ax: "\<bar>?x\<bar> = real_of_int \<bar>m\<bar> * pow2 k"
    by (simp add: abs_mult)
  have "real_of_int \<bar>m\<bar> \<le> real_of_int (2 ^ 53)"
    using assms by (simp only: of_int_le_iff)
  then have "real_of_int \<bar>m\<bar> \<le> pow2 53"
    by (simp add: pow2_def)
  then have "\<bar>?x\<bar> \<le> pow2 53 * pow2 k"
    unfolding ax by (intro mult_right_mono) simp_all
  then have "pow2 e \<le> pow2 (53 + k)"
    using b(1) by (simp add: pow2_add)
  then have ek: "e - 52 \<le> k + 1" by simp
  show ?thesis
  proof (cases "e - 52 \<le> k")
    case True
    define j where "j = nat (k - (e - 52))"
    have "pow2 k = pow2 (k - (e - 52)) * pow2 (e - 52)"
      using pow2_add[of "k - (e - 52)" "e - 52"] by simp
    also have "pow2 (k - (e - 52)) = real_of_int (2 ^ j)"
      using True unfolding j_def by (intro pow2_nat) simp
    finally have pk: "pow2 k = real_of_int (2 ^ j) * pow2 (e - 52)" .
    have "?x / pow2 (e - 52) = real_of_int (m * 2 ^ j)"
      unfolding pk by simp
    then have "real_of_int (rhe (?x / pow2 (e - 52))) * pow2 (e - 52) = ?x"
      unfolding pk by (simp only: rhe_of_int) simp
    then show ?thesis
      using x0 by (simp add: dbl_def Let_def e_def)
  next
    case False
    with ek have e: "e = k + 53" by simp
    have "pow2 53 * pow2 k \<le> \<bar>?x\<bar>"
      using b(1) by (simp add: e pow2_add mult.commute)
    then have "pow2 53 \<le> real_of_int \<bar>m\<bar>"
      unfolding ax by simp
    then have "real_of_int (2 ^ 53) \<le> real_of_int \<bar>m\<bar>"
      by (simp add: pow2_def)
    then have "2 ^ 53 \<le> \<bar>m\<bar>"
      by (simp only: of_int_le_iff)
    with assms have am: "\<bar>m\<bar> = 2 ^ 53" by simp
    have "even \<bar>m\<bar>" unfolding am by simp
    then have "even m" by simp
    then obtain h where h: "m = 2 * h" by (elim evenE)
    have ek1: "e - 52 = k + 1" using e by simp
    have q: "?x / pow2 (k + 1) = real_of_int h"
      unfolding pow2_Suc(1) h by simp
    have "real_of_int (rhe (?x / pow2 (e - 52))) * pow2 (e - 52) = real_of_int h * pow2 (k + 1)"
      unfolding ek1 q by (simp only: rhe_of_int)
    also have "\<dots> = ?x"
      unfolding pow2_Suc(1) h by simp
    finally show ?thesis
      using x0 by (simp add: dbl_def Let_def e_def)
  qed
qed

lemma dbl_of_int: "\<bar>m\<bar> \<le> 2 ^ 53 \<Longrightarrow> dbl (real_of_int m) = real_of_int m"
  using dbl_fix[of m 0] by simp

lemma dbl_error:
  "\<bar>dbl x - x\<bar> \<le> pow2 (- 53) * \<bar>x\<bar>"
proof (cases "x = 0")
  case True
  then show ?thesis by simp
next
  case False
  define u where "u = pow2 (expo x - 52)"
  have u0: "0 < u" by (simp add: u_def)
  have f: "dbl x = real_of_int (rhe (x / u)) * u"
    using False by (simp add: dbl_def Let_def u_def)
  have "dbl x - x = (real_of_int (rhe (x / u)) - x / u) * u"
    using u0 by (simp add: f algebra_simps)
  then have "\<bar>dbl x - x\<bar> = \<bar>real_of_int (rhe (x / u)) - x / u\<bar> * u"
    using u0 by (simp add: abs_mult)
  also have "\<dots> \<le> 1 / 2 * u"
    using rhe_error[of "x / u"] u0 by (intro mult_right_mono) simp_all
  also have "\<dots> = pow2 (- 53) * pow2 (expo x)"
    using pow2_Suc(1)[of "expo x - 53"] pow2_add[of "- 53" "expo x"]
    by (simp add: u_def)
  also have "\<dots> \<le> pow2 (- 53) * \<bar>x\<bar>"
    using expo_bounds(1)[OF False] by (intro mult_left_mono) simp_all
  finally show ?thesis .
qed

lemma dbl_mono_pos:
  assumes "0 < x" and "x \<le> y"
  shows "dbl x \<le> dbl y"
proof -
  have x0: "x \<noteq> 0" and y0: "y \<noteq> 0" using assms by auto
  note bx = expo_bounds[OF x0] and by' = expo_bounds[OF y0]
  have ax: "\<bar>x\<bar> = x" and ay: "\<bar>y\<bar> = y" using assms by auto
  have fx: "dbl x = real_of_int (rhe (x / pow2 (expo x - 52))) * pow2 (expo x - 52)"
    and fy: "dbl y = real_of_int (rhe (y / pow2 (expo y - 52))) * pow2 (expo y - 52)"
    using x0 y0 by (simp_all add: dbl_def Let_def)
  have "pow2 (expo x) < pow2 (expo y + 1)"
    using bx(1) by'(2) assms unfolding ax ay by linarith
  then have le: "expo x \<le> expo y" by simp
  show ?thesis
  proof (cases "expo x = expo y")
    case True
    have "x / pow2 (expo y - 52) \<le> y / pow2 (expo y - 52)"
      using assms(2) by (intro divide_right_mono) simp_all
    then have "rhe (x / pow2 (expo y - 52)) \<le> rhe (y / pow2 (expo y - 52))"
      by (rule rhe_mono)
    then have "real_of_int (rhe (x / pow2 (expo y - 52))) \<le> real_of_int (rhe (y / pow2 (expo y - 52)))"
      by (simp only: of_int_le_iff)
    then show ?thesis
      unfolding fx fy True by (intro mult_right_mono) simp_all
  next
    case False
    with le have lt: "expo x + 1 \<le> expo y" by simp
    have "x / pow2 (expo x - 52) \<le> pow2 (expo x + 1) / pow2 (expo x - 52)"
      using bx(2) unfolding ax by (intro divide_right_mono) simp_all
    also have "\<dots> = pow2 53"
      using pow2_diff[of "expo x + 1" "expo x - 52"] by simp
    also have "\<dots> = real_of_int (2 ^ 53)"
      by (simp add: pow2_def)
    finally have "rhe (x / pow2 (expo x - 52)) \<le> rhe (real_of_int (2 ^ 53))"
      by (rule rhe_mono)
    then have "real_of_int (rhe (x / pow2 (expo x - 52))) \<le> real_of_int (2 ^ 53)"
      by (simp only: rhe_of_int of_int_le_iff)
    then have "dbl x \<le> real_of_int (2 ^ 53) * pow2 (expo x - 52)"
      unfolding fx by (intro mult_right_mono) simp_all
    also have "real_of_int (2 ^ 53) = pow2 53"
      by (simp add: pow2_def)
    also have "pow2 53 * pow2 (expo x - 52) = pow2 (expo x + 1)"
      using pow2_add[of 53 "expo x - 52"] by (simp add: add.commute)
    finally have up: "dbl x \<le> pow2 (expo x + 1)" .
    have "pow2 52 = pow2 (expo y) / pow2 (expo y - 52)"
      using pow2_diff[of "expo y" "expo y - 52"] by simp
    also have "\<dots> \<le> y / pow2 (expo y - 52)"
      using by'(1) unfolding ay by (intro divide_right_mono) simp_all
    finally have "real_of_int (2 ^ 52) \<le> y / pow2 (expo y - 52)"
      by (simp add: pow2_def)
    then have "rhe (real_of_int (2 ^ 52)) \<le> rhe (y / pow2 (expo y - 52))"
      by (rule rhe_mono)
    then have "real_of_int (2 ^ 52) \<le> real_of_int (rhe (y / pow2 (expo y - 52)))"
      by (simp only: rhe_of_int of_int_le_iff)
    then have "real_of_int (2 ^ 52) * pow2 (expo y - 52) \<le> dbl y"
      unfolding fy by (intro mult_right_mono) simp_all
    moreover have "real_of_int (2 ^ 52) = pow2 52"
      by (simp add: pow2_def)
    moreover have "pow2 52 * pow2 (expo y - 52) = pow2 (expo y)"
      using pow2_add[of 52 "expo y - 52"] by simp
    ultimately have lo: "pow2 (expo y) \<le> dbl y" by simp
    have "pow2 (expo x + 1) \<le> pow2 (expo y)" using lt by simp
    with up lo show ?thesis by linarith
  qed
qed

lemma dbl_mono:
  assumes "x \<le> y"
  shows "dbl x \<le> dbl y"
proof -
  consider "0 < x" | "x \<le> 0" "0 \<le> y" | "y < 0" by linarith
  then show ?thesis
  proof cases
    case 1
    then show ?thesis using assms by (rule dbl_mono_pos)
  next
    case 2
    then show ?thesis using dbl_nonpos[of x] dbl_nonneg[of y] by linarith
  next
    case 3
    then have "dbl (- y) \<le> dbl (- x)"
      using assms by (intro dbl_mono_pos) simp_all
    then show ?thesis by (simp add: dbl_minus)
  qed
qed

text \<open>Evaluating \<open>dbl\<close> at a number whose exponent is known.\<close>

lemma dbl_eq:
  assumes "pow2 e \<le> \<bar>x\<bar>" and "\<bar>x\<bar> < pow2 (e + 1)" and "rhe (x / pow2 (e - 52)) = m"
  shows "dbl x = real_of_int m * pow2 (e - 52)"
  using dbl_eval[OF assms(1,2)] assms(3) by simp

lemma dbl_numeral: "numeral k \<le> (2 :: int) ^ 53 \<Longrightarrow> dbl (numeral k) = numeral k"
  using dbl_of_int[of "numeral k"] by simp

lemma dbl_1 [simp]: "dbl 1 = 1"
  using dbl_of_int[of 1] by simp

lemma dbl_half: "dbl (1 / 2) = 1 / 2"
  using dbl_fix[of 1 "- 1"] by (simp add: pow2_def)

lemma latitude_limit: "latitude_limit = 1496235284655625 / 17592186044416"
  unfolding latitude_limit_def
  by (rule trans[OF dbl_eq[where e = 6 and m = 5984941138622500]])
     (simp_all add: pow2_def rhe_def Let_def)

lemma percent_1_2: "percent 1 2 = 50"
  by (simp add: percent_def dbl_half dbl_numeral)

lemma percent_0: "percent 0 t = 0"
  by (simp add: percent_def)

text \<open>
  23 of 40: the quotient \<open>0.575\<close> is rounded down to a double, the product with 100 is
  \<open>57.49999999999999\<close>, and \<open>Math.round\<close> gives 57, where \<open>100 * 23 / 40 = 57.5\<close>.
\<close>

lemma dbl_23_40: "dbl (23 / 40) = 5179139571476070 / 9007199254740992"
  by (rule trans[OF dbl_eq[where e = "- 1" and m = 5179139571476070]])
     (simp_all add: pow2_def rhe_def Let_def)

lemma dbl_23_40_100:
  "dbl (5179139571476070 / 9007199254740992 * 100) = 8092405580431359 / 140737488355328"
  by (rule trans[OF dbl_eq[where e = 5 and m = 8092405580431359]])
     (simp_all add: pow2_def rhe_def Let_def)

lemma percent_23_40: "percent 23 40 = 57"
proof -
  have "percent 23 40 = round (dbl (dbl (23 / 40) * 100))"
    by (simp add: percent_def)
  also have "\<dots> = round (8092405580431359 / 140737488355328 :: real)"
    unfolding dbl_23_40 dbl_23_40_100 ..
  also have "\<dots> = 57"
    by (simp add: round_def)
  finally show ?thesis .
qed

lemma percent_error:
  fixes n t :: int
  assumes n0: "0 \<le> n" and n43: "n \<le> 2 ^ 43" and t0: "0 < t"
  shows "\<bar>dbl (dbl (real_of_int n / real_of_int t) * 100) - 100 * real_of_int n / real_of_int t\<bar>
           < 1 / (2 * real_of_int t)"
proof -
  define r where "r = real_of_int n / real_of_int t"
  define q where "q = dbl r"
  define p where "p = dbl (q * 100)"
  define eps where "eps = pow2 (- 53)"
  have eps: "eps = 1 / 2 ^ 53" by (simp add: eps_def pow2_def)
  have eps0: "0 < eps" by (simp add: eps_def)
  have tr: "0 < real_of_int t" using t0 by simp
  have r0: "0 \<le> r" using n0 t0 by (simp add: r_def)
  have q0: "0 \<le> q" unfolding q_def by (rule dbl_nonneg[OF r0])
  have eq: "\<bar>q - r\<bar> \<le> eps * r"
    using dbl_error[of r] r0 by (simp add: q_def eps_def)
  have ep: "\<bar>p - q * 100\<bar> \<le> eps * (q * 100)"
    using dbl_error[of "q * 100"] q0 by (simp add: p_def eps_def)
  have qr: "q \<le> r + eps * r" using eq by linarith
  have "eps * (q * 100) \<le> eps * ((r + eps * r) * 100)"
    using qr eps0 by (intro mult_left_mono) simp_all
  with ep have ep': "\<bar>p - q * 100\<bar> \<le> eps * ((r + eps * r) * 100)" by linarith
  have "p - 100 * r = (p - q * 100) + 100 * (q - r)" by simp
  then have "\<bar>p - 100 * r\<bar> \<le> \<bar>p - q * 100\<bar> + \<bar>100 * (q - r)\<bar>"
    by (simp only: abs_triangle_ineq)
  also have "\<bar>100 * (q - r)\<bar> = 100 * \<bar>q - r\<bar>"
    by (simp only: abs_mult abs_numeral)
  finally have "\<bar>p - 100 * r\<bar> \<le> \<bar>p - q * 100\<bar> + 100 * \<bar>q - r\<bar>" .
  also have "\<dots> \<le> eps * ((r + eps * r) * 100) + 100 * (eps * r)"
    by (intro add_mono mult_left_mono ep' eq) simp
  also have "\<dots> = r * (100 * eps * (2 + eps))" by (simp add: algebra_simps)
  also have "\<dots> \<le> r * (300 * eps)"
    using r0 eps0 by (intro mult_left_mono) (simp_all add: eps)
  finally have e1: "\<bar>p - 100 * r\<bar> \<le> r * (300 * eps)" .
  have "real_of_int n \<le> real_of_int (2 ^ 43)"
    using n43 by (simp only: of_int_le_iff)
  then have "real_of_int n * (600 * eps) \<le> 2 ^ 43 * (600 * eps)"
    using eps0 by (intro mult_right_mono) simp_all
  also have "\<dots> < 1" by (simp add: eps)
  finally have "real_of_int n * (600 * eps) < 1" .
  then have "real_of_int n * (600 * eps) / (2 * real_of_int t) < 1 / (2 * real_of_int t)"
    using tr by (intro divide_strict_right_mono) simp_all
  moreover have "r * (300 * eps) = real_of_int n * (600 * eps) / (2 * real_of_int t)"
    by (simp add: r_def)
  ultimately have "\<bar>p - 100 * r\<bar> < 1 / (2 * real_of_int t)"
    using e1 by linarith
  then show ?thesis
    by (simp add: p_def q_def r_def)
qed

lemma percent_near:
  fixes n t :: int
  assumes n0: "0 \<le> n" and n43: "n \<le> 2 ^ 43" and t0: "0 < t"
  shows "percent n t \<le> round (100 * real_of_int n / real_of_int t)"
    and "round (100 * real_of_int n / real_of_int t) - 1 \<le> percent n t"
    and "(200 * n + t) mod (2 * t) \<noteq> 0 \<Longrightarrow>
           percent n t = round (100 * real_of_int n / real_of_int t)"
proof -
  define x where "x = 100 * real_of_int n / real_of_int t"
  define p where "p = dbl (dbl (real_of_int n / real_of_int t) * 100)"
  define k where "k = (200 * n + t) div (2 * t)"
  define r where "r = (200 * n + t) mod (2 * t)"
  have tr: "0 < real_of_int t" using t0 by simp
  have e: "\<bar>p - x\<bar> < 1 / (2 * real_of_int t)"
    unfolding p_def x_def by (rule percent_error[OF assms])
  have r: "0 \<le> r" "r < 2 * t" using t0 by (simp_all add: r_def)
  have "200 * n + t = k * (2 * t) + r"
    unfolding k_def r_def by (rule div_mult_mod_eq[symmetric])
  then have "real_of_int (200 * n + t) = real_of_int (k * (2 * t) + r)"
    by (simp only:)
  then have xh: "x + 1 / 2 = real_of_int k + real_of_int r / (2 * real_of_int t)"
    using tr by (simp add: x_def field_simps)
  have rl: "0 \<le> real_of_int r / (2 * real_of_int t)"
    using r(1) tr by simp
  have "real_of_int (r + 1) \<le> real_of_int (2 * t)"
    using r(2) by (simp only: of_int_le_iff)
  then have ru: "real_of_int r / (2 * real_of_int t) + 1 / (2 * real_of_int t) \<le> 1"
    using tr by (simp add: field_simps)
  have tp: "0 < 1 / (2 * real_of_int t)" using tr by simp
  have k1: "real_of_int k \<le> x + 1 / 2" using xh rl by linarith
  have k2: "x + 1 / 2 < real_of_int k + 1" using xh ru tp by linarith
  have kx: "round x = k"
    unfolding round_def using k1 k2 by (rule floor_unique)
  have t1: "1 / (2 * real_of_int t) \<le> 1"
    using t0 by (simp add: field_simps)
  have up: "round p \<le> k"
  proof -
    have "p + 1 / 2 < real_of_int k + 1" using e xh ru by linarith
    then show ?thesis unfolding round_def by (simp only: floor_le_iff)
  qed
  have lo: "k - 1 \<le> round p"
  proof -
    have "real_of_int (k - 1) \<le> p + 1 / 2" using e xh rl t1 by simp
    then show ?thesis unfolding round_def by (simp only: le_floor_iff)
  qed
  have eq: "round p = k" if "r \<noteq> 0"
  proof -
    from that r(1) have "1 \<le> r" by simp
    then have "real_of_int 1 \<le> real_of_int r" by (simp only: of_int_le_iff)
    then have "1 / (2 * real_of_int t) \<le> real_of_int r / (2 * real_of_int t)"
      using tr by (intro divide_right_mono) simp_all
    then have "real_of_int k \<le> p + 1 / 2" using e xh by linarith
    then have "k \<le> round p" unfolding round_def by (simp only: le_floor_iff)
    with up show ?thesis by simp
  qed
  show "percent n t \<le> round (100 * real_of_int n / real_of_int t)"
    using up kx by (simp add: percent_def p_def x_def)
  show "round (100 * real_of_int n / real_of_int t) - 1 \<le> percent n t"
    using lo kx by (simp add: percent_def p_def x_def)
  show "percent n t = round (100 * real_of_int n / real_of_int t)"
    if "(200 * n + t) mod (2 * t) \<noteq> 0"
    using eq that kx by (simp add: percent_def p_def x_def r_def)
qed

subsection \<open>Doubles that are their own rounding\<close>

lemma dbl_pow2: "dbl (pow2 k) = pow2 k"
  using dbl_fix[of 1 k] by simp

lemma dbl_power2: "dbl (2 ^ n) = 2 ^ n"
  using dbl_pow2[of "int n"] by (simp add: pow2_def)

lemma dbl_repr: "x = real_of_int m * pow2 k \<Longrightarrow> \<bar>m\<bar> \<le> 2 ^ 53 \<Longrightarrow> dbl x = x"
  using dbl_fix[of m k] by simp

lemma dbl_error': "\<bar>dbl x - x\<bar> \<le> \<bar>x\<bar> / 2 ^ 53"
  using dbl_error[of x] by (simp add: pow2_def)

lemma dbl_error_bounds: "x - \<bar>x\<bar> / 2 ^ 53 \<le> dbl x" "dbl x \<le> x + \<bar>x\<bar> / 2 ^ 53"
  using dbl_error'[of x] by linarith+

lemma dbl_uminus_fix: "dbl x = x \<Longrightarrow> dbl (- x) = - x"
  by (simp add: dbl_minus)

section \<open>Properties of the tile coordinate calculator\<close>

subsection \<open>Closed-form count and enumeration\<close>

lemma length_getTileList_y:
  "length (getTileList_y z x y yMax tiles) = length tiles + nat (yMax + 1 - y)"
proof (induction z x y yMax tiles rule: getTileList_y.induct)
  case (1 z x y yMax tiles)
  show ?case
  proof (cases "y \<le> yMax")
    case True
    then show ?thesis using 1 by (subst getTileList_y.simps) (simp add: nat_diff_distrib)
  next
    case False
    then show ?thesis by (subst getTileList_y.simps) simp
  qed
qed

lemma length_getTileList_x:
  "length (getTileList_x z tb x tiles) =
     length tiles + nat (maxX tb + 1 - x) * nat (maxY tb + 1 - minY tb)"
proof (induction z tb x tiles rule: getTileList_x.induct)
  case (1 z tb x tiles)
  show ?case
  proof (cases "x \<le> maxX tb")
    case True
    let ?col = "getTileList_y z x (minY tb) (maxY tb) tiles"
    have unroll: "getTileList_x z tb x tiles = getTileList_x z tb (x + 1) ?col"
      using True by (subst getTileList_x.simps) simp
    have ih: "length (getTileList_x z tb (x + 1) ?col) =
        length ?col + nat (maxX tb + 1 - (x + 1)) * nat (maxY tb + 1 - minY tb)"
      by (rule 1[OF True])
    have n: "nat (maxX tb + 1 - x) = Suc (nat (maxX tb + 1 - (x + 1)))"
      using True by linarith
    show ?thesis
      unfolding unroll ih length_getTileList_y n by simp
  next
    case False
    have "getTileList_x z tb x tiles = tiles"
      using False by (subst getTileList_x.simps) simp
    then show ?thesis using False by simp
  qed
qed

lemma getTileBounds_ordered:
  "minX (getTileBounds b z) \<le> maxX (getTileBounds b z)"
  "minY (getTileBounds b z) \<le> maxY (getTileBounds b z)"
  by (simp_all add: getTileBounds_def Let_def)

lemma calculateTileCount_z_unroll:
  assumes "z \<le> maxZoom"
  shows "calculateTileCount_z bounds z maxZoom count =
         calculateTileCount_z bounds (z + 1) maxZoom
           (count + (maxX (getTileBounds bounds z) - minX (getTileBounds bounds z) + 1)
                  * (maxY (getTileBounds bounds z) - minY (getTileBounds bounds z) + 1))"
  using assms by (subst calculateTileCount_z.simps) (simp only: if_True Let_def)

lemma calculateTileCount_z_done:
  "\<not> z \<le> maxZoom \<Longrightarrow> calculateTileCount_z bounds z maxZoom count = count"
  by (subst calculateTileCount_z.simps) (simp only: if_False)

lemma getTileList_z_unroll:
  assumes "z \<le> maxZoom"
  shows "getTileList_z bounds z maxZoom tiles =
         getTileList_z bounds (z + 1) maxZoom
           (getTileList_x z (getTileBounds bounds z) (minX (getTileBounds bounds z)) tiles)"
  using assms by (subst getTileList_z.simps) (simp only: if_True Let_def)

lemma getTileList_z_done:
  "\<not> z \<le> maxZoom \<Longrightarrow> getTileList_z bounds z maxZoom tiles = tiles"
  by (subst getTileList_z.simps) (simp only: if_False)

lemma length_getTileList_x_bounds:
  "int (length (getTileList_x z (getTileBounds bounds z) (minX (getTileBounds bounds z)) tiles)) =
     int (length tiles)
       + (maxX (getTileBounds bounds z) - minX (getTileBounds bounds z) + 1)
       * (maxY (getTileBounds bounds z) - minY (getTileBounds bounds z) + 1)"
proof -
  let ?tb = "getTileBounds bounds z"
  have w: "int (nat (maxX ?tb + 1 - minX ?tb)) = maxX ?tb - minX ?tb + 1"
    using getTileBounds_ordered(1)[of bounds z] by linarith
  have h: "int (nat (maxY ?tb + 1 - minY ?tb)) = maxY ?tb - minY ?tb + 1"
    using getTileBounds_ordered(2)[of bounds z] by linarith
  show ?thesis
    unfolding length_getTileList_x of_nat_add of_nat_mult w h ..
qed

lemma calculateTileCount_z_length:
  "calculateTileCount_z bounds z maxZoom (count + int (length tiles)) =
     count + int (length (getTileList_z bounds z maxZoom tiles))"
proof (induction bounds z maxZoom tiles arbitrary: count rule: getTileList_z.induct)
  case (1 bounds z maxZoom tiles)
  show ?case
  proof (cases "z \<le> maxZoom")
    case True
    let ?tb = "getTileBounds bounds z"
    let ?tiles' = "getTileList_x z ?tb (minX ?tb) tiles"
    have "calculateTileCount_z bounds z maxZoom (count + int (length tiles)) =
          calculateTileCount_z bounds (z + 1) maxZoom (count + int (length ?tiles'))"
      unfolding calculateTileCount_z_unroll[OF True] length_getTileList_x_bounds
      by (simp only: add.assoc)
    also have "\<dots> = count + int (length (getTileList_z bounds (z + 1) maxZoom ?tiles'))"
      using 1[OF True, of count] by (simp only: Let_def)
    also have "\<dots> = count + int (length (getTileList_z bounds z maxZoom tiles))"
      unfolding getTileList_z_unroll[OF True, of bounds tiles] ..
    finally show ?thesis .
  next
    case False
    show ?thesis
      unfolding calculateTileCount_z_done[OF False] getTileList_z_done[OF False] ..
  qed
qed

text \<open>
  Claim C4. For every valid bounds box and valid zoom range, the closed-form count
  (\<open>calculateTileCount\<close>: width times height of each zoom's tile range, summed) equals the
  length of the enumerated tile list (\<open>getTileList\<close>) over the same bounds and zoom range.
\<close>

theorem calculateTileCount_eq_length_getTileList:
  assumes "isValidBounds bounds" and "isValidZoomRange minZoom maxZoom"
  shows "calculateTileCount bounds minZoom maxZoom =
           int (length (getTileList bounds minZoom maxZoom))"
proof -
  have "calculateTileCount_z bounds minZoom maxZoom (0 + int (length ([] :: tile list))) =
        0 + int (length (getTileList_z bounds minZoom maxZoom []))"
    by (rule calculateTileCount_z_length)
  then show ?thesis
    by (simp add: calculateTileCount_def getTileList_def)
qed

theorem calculateTileCount_eq_length_getTileList_witness:
  "isValidBounds \<lparr>north = 40.76, south = 40.74, east = - 73.97, west = - 73.99\<rparr> \<and>
   isValidZoomRange 16 18 \<and>
   calculateTileCount \<lparr>north = 40.76, south = 40.74, east = - 73.97, west = - 73.99\<rparr> 16 18 =
     int (length (getTileList \<lparr>north = 40.76, south = 40.74, east = - 73.97, west = - 73.99\<rparr> 16 18))"
proof -
  have b: "isValidBounds \<lparr>north = 40.76, south = 40.74, east = - 73.97, west = - 73.99\<rparr>"
    by (simp add: isValidBounds_def latitude_limit)
  have z: "isValidZoomRange 16 18"
    by (simp add: isValidZoomRange_def)
  from b z calculateTileCount_eq_length_getTileList[OF b z] show ?thesis
    by (intro conjI)
qed

subsection \<open>Range of the column\<close>

text \<open>
  Every step of \<open>(lng + 180) / 360 * n\<close> is monotone, and 0, 360, 1 and \<open>n\<close> are doubles.
  Longitude 180 gives the column \<open>2^z\<close>, and so does the double just below 180: the sum
  \<open>lng + 180\<close> is rounded to 360. From the second double below 180 downwards the column
  is at most \<open>2^z - 1\<close>.
\<close>

lemma Math_PI_bounds: "0 < Math_PI" "2 \<le> Math_PI" "Math_PI \<le> 4"
  by (simp_all add: Math_PI_def)

lemma tile_x_latLngToTile:
  "tile_x (latLngToTile lat lng z) = \<lfloor>dbl (dbl (dbl (lng + 180) / 360) * pow2 z)\<rfloor>"
  by (simp add: latLngToTile_def Let_def)

lemma tile_y_latLngToTile:
  "tile_y (latLngToTile lat lng z) =
     \<lfloor>dbl (dbl (dbl (1 - dbl (Math_log (dbl (Math_tan (dbl (dbl (lat * Math_PI) / 180))
             + dbl (1 / Math_cos (dbl (dbl (lat * Math_PI) / 180))))) / Math_PI)) / 2) * pow2 z)\<rfloor>"
  by (simp add: latLngToTile_def Let_def)

lemma tile_x_nonneg:
  assumes lo: "- 180 \<le> lng"
  shows "0 \<le> tile_x (latLngToTile lat lng z)"
proof -
  have a: "0 \<le> dbl (lng + 180)" using lo by (intro dbl_nonneg) simp
  have b: "0 \<le> dbl (dbl (lng + 180) / 360)" using a by (intro dbl_nonneg) simp
  have "0 \<le> dbl (dbl (dbl (lng + 180) / 360) * pow2 z)"
    by (rule dbl_nonneg) (simp add: b)
  then show ?thesis unfolding tile_x_latLngToTile by simp
qed

lemma tile_x_le:
  assumes z: "0 \<le> z" and hi: "lng \<le> 180"
  shows "tile_x (latLngToTile lat lng z) \<le> 2 ^ nat z"
proof -
  have "dbl (lng + 180) \<le> dbl 360" using hi by (intro dbl_mono) simp
  then have "dbl (lng + 180) \<le> 360" by (simp add: dbl_numeral)
  then have "dbl (dbl (lng + 180) / 360) \<le> dbl 1" by (intro dbl_mono) simp
  then have "dbl (dbl (lng + 180) / 360) * pow2 z \<le> 1 * pow2 z"
    by (intro mult_right_mono) simp_all
  then have "dbl (dbl (dbl (lng + 180) / 360) * pow2 z) \<le> dbl (pow2 z)"
    by (intro dbl_mono) simp
  then have "dbl (dbl (dbl (lng + 180) / 360) * pow2 z) \<le> pow2 z"
    unfolding dbl_pow2 .
  then have "dbl (dbl (dbl (lng + 180) / 360) * pow2 z) \<le> real_of_int (2 ^ nat z)"
    unfolding pow2_nat[OF z] .
  then have "\<lfloor>dbl (dbl (dbl (lng + 180) / 360) * pow2 z)\<rfloor> \<le> \<lfloor>real_of_int (2 ^ nat z)\<rfloor>"
    by (rule floor_mono)
  then show ?thesis unfolding tile_x_latLngToTile by simp
qed

lemma dbl_below_360: "dbl (360 - 1 / 2 ^ 44) = 360 - 1 / 2 ^ 44"
  by (rule dbl_repr[where m = 6333186975989759 and k = "- 44"]) (simp_all add: pow2_def)

lemma dbl_below_360_quotient: "dbl ((360 - 1 / 2 ^ 44) / 360) = 1 - 1 / 2 ^ 53"
  by (rule trans[OF dbl_eq[where e = "- 1" and m = 9007199254740991]])
     (simp_all add: pow2_def rhe_def Let_def)

lemma tile_x_strict:
  assumes z: "0 \<le> z" and hi: "lng \<le> 180 - 1 / 2 ^ 44"
  shows "tile_x (latLngToTile lat lng z) \<le> 2 ^ nat z - 1"
proof -
  let ?n = "real_of_int (2 ^ nat z)"
  have n: "pow2 z = ?n" by (rule pow2_nat[OF z])
  have "dbl (lng + 180) \<le> dbl (360 - 1 / 2 ^ 44)" using hi by (intro dbl_mono) simp
  then have "dbl (lng + 180) / 360 \<le> (360 - 1 / 2 ^ 44) / 360"
    unfolding dbl_below_360 by (intro divide_right_mono) simp_all
  then have "dbl (dbl (lng + 180) / 360) \<le> dbl ((360 - 1 / 2 ^ 44) / 360)" by (rule dbl_mono)
  then have "dbl (dbl (lng + 180) / 360) * pow2 z \<le> (1 - 1 / 2 ^ 53) * pow2 z"
    unfolding dbl_below_360_quotient by (intro mult_right_mono) simp_all
  then have "dbl (dbl (dbl (lng + 180) / 360) * pow2 z) \<le> dbl ((1 - 1 / 2 ^ 53) * pow2 z)"
    by (rule dbl_mono)
  also have "dbl ((1 - 1 / 2 ^ 53) * pow2 z) = (1 - 1 / 2 ^ 53) * pow2 z"
    by (rule dbl_repr[where m = 9007199254740991 and k = "z - 53"]) (simp_all add: pow2_diff, simp add: pow2_def)
  also have "\<dots> < ?n" unfolding n by simp
  finally have "\<lfloor>dbl (dbl (dbl (lng + 180) / 360) * pow2 z)\<rfloor> < 2 ^ nat z"
    by (simp add: floor_less_iff)
  then show ?thesis unfolding tile_x_latLngToTile by simp
qed

lemma dbl_just_below_360: "dbl (360 - 1 / 2 ^ 45) = 360"
  by (rule trans[OF dbl_eq[where e = 8 and m = 6333186975989760]])
     (simp_all add: pow2_def rhe_def Let_def)

lemma tile_x_just_below_180:
  assumes z: "0 \<le> z"
  shows "tile_x (latLngToTile lat (180 - 1 / 2 ^ 45) z) = 2 ^ nat z"
proof -
  have "(180 - 1 / 2 ^ 45 + 180 :: real) = 360 - 1 / 2 ^ 45" by simp
  then have "dbl (180 - 1 / 2 ^ 45 + 180) = 360" using dbl_just_below_360 by simp
  then show ?thesis unfolding tile_x_latLngToTile
    by (simp add: dbl_power2 pow2_nat[OF z])
qed

lemma tile_x_180:
  assumes z: "0 \<le> z"
  shows "tile_x (latLngToTile lat 180 z) = 2 ^ nat z"
  unfolding tile_x_latLngToTile by (simp add: dbl_numeral dbl_power2 pow2_nat[OF z])

subsection \<open>The latitude in radians\<close>

text \<open>
  \<open>latRad = lat * Math.PI / 180\<close> is monotone and odd in \<open>lat\<close>. At the constant of
  \<open>isValidBounds\<close> it is the double 1.4844222335884323.
\<close>

lemma latRad_mono:
  assumes "lat \<le> lat'"
  shows "dbl (dbl (lat * Math_PI) / 180) \<le> dbl (dbl (lat' * Math_PI) / 180)"
proof -
  have "lat * Math_PI \<le> lat' * Math_PI"
    using assms Math_PI_bounds(1) by (intro mult_right_mono) simp_all
  then have "dbl (lat * Math_PI) / 180 \<le> dbl (lat' * Math_PI) / 180"
    by (intro divide_right_mono dbl_mono) simp_all
  then show ?thesis by (rule dbl_mono)
qed

lemma latRad_minus:
  "dbl (dbl (- lat * Math_PI) / 180) = - dbl (dbl (lat * Math_PI) / 180)"
proof -
  have "dbl (- lat * Math_PI) = - dbl (lat * Math_PI)"
    using dbl_minus[of "lat * Math_PI"] by simp
  then show ?thesis using dbl_minus[of "dbl (lat * Math_PI) / 180"] by simp
qed

lemma latRad_limit:
  "dbl (dbl (latitude_limit * Math_PI) / 180) = 6685243418049343 / 4503599627370496"
proof -
  have a: "dbl (latitude_limit * Math_PI) = 587570222289493 / 2199023255552"
    unfolding latitude_limit Math_PI_def
    by (rule trans[OF dbl_eq[where e = 8 and m = 4700561778315944]])
       (simp_all add: pow2_def rhe_def Let_def)
  show ?thesis unfolding a
    by (rule trans[OF dbl_eq[where e = 0 and m = 6685243418049343]])
       (simp_all add: pow2_def rhe_def Let_def)
qed

lemma latRad_inner:
  "dbl (dbl (850511287 / 10000000 * Math_PI) / 180) = 6685243394468551 / 4503599627370496"
proof -
  have a: "dbl (850511287 / 10000000 * Math_PI) = 1175140440433925 / 4398046511104"
    unfolding Math_PI_def
    by (rule trans[OF dbl_eq[where e = 8 and m = 4700561761735700]])
       (simp_all add: pow2_def rhe_def Let_def)
  show ?thesis unfolding a
    by (rule trans[OF dbl_eq[where e = 0 and m = 6685243394468551]])
       (simp_all add: pow2_def rhe_def Let_def)
qed

lemma latRad_abs_le:
  assumes "\<bar>lat\<bar> \<le> l"
  shows "\<bar>dbl (dbl (lat * Math_PI) / 180)\<bar> \<le> dbl (dbl (l * Math_PI) / 180)"
proof -
  have 1: "dbl (dbl (lat * Math_PI) / 180) \<le> dbl (dbl (l * Math_PI) / 180)"
    using assms by (intro latRad_mono) simp
  have "dbl (dbl (- lat * Math_PI) / 180) \<le> dbl (dbl (l * Math_PI) / 180)"
    using assms by (intro latRad_mono) simp
  then have 2: "- dbl (dbl (lat * Math_PI) / 180) \<le> dbl (dbl (l * Math_PI) / 180)"
    unfolding latRad_minus .
  show ?thesis using 1 2 by (simp add: abs_le_iff)
qed

subsection \<open>From the logarithm to the row\<close>

text \<open>
  The steps \<open>(1 - g / Math.PI) / 2 * n\<close> after the logarithm \<open>g\<close> are monotone, so a bound of
  \<open>g\<close> by a double gives a bound of the row.
\<close>

lemma tail_lower:
  assumes g: "g \<le> R * Math_PI" and R: "dbl R = R" and n: "0 \<le> n"
  shows "\<lfloor>dbl (dbl (dbl (1 - R) / 2) * n)\<rfloor> \<le> \<lfloor>dbl (dbl (dbl (1 - dbl (g / Math_PI)) / 2) * n)\<rfloor>"
proof -
  have "g / Math_PI \<le> R" using g Math_PI_bounds(1) by (simp add: field_simps)
  then have r: "dbl (g / Math_PI) \<le> R" using dbl_mono[of "g / Math_PI" R] R by simp
  have 1: "1 - R \<le> 1 - dbl (g / Math_PI)" using r by simp
  have 2: "dbl (1 - R) / 2 \<le> dbl (1 - dbl (g / Math_PI)) / 2"
    using dbl_mono[OF 1] by simp
  have 3: "dbl (dbl (1 - R) / 2) * n \<le> dbl (dbl (1 - dbl (g / Math_PI)) / 2) * n"
    by (rule mult_right_mono[OF dbl_mono[OF 2] n])
  show ?thesis by (rule floor_mono[OF dbl_mono[OF 3]])
qed

lemma tail_upper:
  assumes g: "R * Math_PI \<le> g" and R: "dbl R = R" and n: "0 \<le> n"
  shows "\<lfloor>dbl (dbl (dbl (1 - dbl (g / Math_PI)) / 2) * n)\<rfloor> \<le> \<lfloor>dbl (dbl (dbl (1 - R) / 2) * n)\<rfloor>"
proof -
  have "R \<le> g / Math_PI" using g Math_PI_bounds(1) by (simp add: field_simps)
  then have r: "R \<le> dbl (g / Math_PI)" using dbl_mono[of R "g / Math_PI"] R by simp
  have 1: "1 - dbl (g / Math_PI) \<le> 1 - R" using r by simp
  have 2: "dbl (1 - dbl (g / Math_PI)) / 2 \<le> dbl (1 - R) / 2"
    using dbl_mono[OF 1] by simp
  have 3: "dbl (dbl (1 - dbl (g / Math_PI)) / 2) * n \<le> dbl (dbl (1 - R) / 2) * n"
    by (rule mult_right_mono[OF dbl_mono[OF 2] n])
  show ?thesis by (rule floor_mono[OF dbl_mono[OF 3]])
qed

lemma tail_eval:
  assumes w: "1 - R = real_of_int m * pow2 k" and m: "\<bar>m\<bar> \<le> 2 ^ 53"
  shows "dbl (dbl (dbl (1 - R) / 2) * pow2 z) = real_of_int m * pow2 (k - 1 + z)"
proof -
  have a: "dbl (1 - R) = real_of_int m * pow2 k" unfolding w by (rule dbl_fix[OF m])
  have x: "real_of_int m * pow2 k / 2 = real_of_int m * pow2 (k - 1)"
    by (simp add: pow2_diff)
  have b: "dbl (real_of_int m * pow2 k / 2) = real_of_int m * pow2 (k - 1)"
    unfolding x by (rule dbl_fix[OF m])
  have y: "real_of_int m * pow2 (k - 1) * pow2 z = real_of_int m * pow2 (k - 1 + z)"
    by (simp add: pow2_add)
  have c: "dbl (real_of_int m * pow2 (k - 1) * pow2 z) = real_of_int m * pow2 (k - 1 + z)"
    unfolding y by (rule dbl_fix[OF m])
  show ?thesis unfolding a b c ..
qed

lemma Math_log_le:
  assumes "0 < s" and "s \<le> exp G" and "dbl G = G"
  shows "Math_log s \<le> G"
proof -
  have "exp (ln s) \<le> exp G" using assms(1,2) by simp
  then have "ln s \<le> G" by (simp only: exp_le_cancel_iff)
  then show ?thesis unfolding Math_log_def using dbl_mono[of "ln s" G] assms(3) by simp
qed

lemma Math_log_ge:
  assumes "0 < s" and "exp G \<le> s" and "dbl G = G"
  shows "G \<le> Math_log s"
proof -
  have "exp G \<le> exp (ln s)" using assms(1,2) by simp
  then have "G \<le> ln s" by (simp only: exp_le_cancel_iff)
  then show ?thesis unfolding Math_log_def using dbl_mono[of G "ln s"] assms(3) by simp
qed

lemma dbl_Math_PI_plus:
  "dbl Math_PI = Math_PI"
  "dbl (Math_PI + 1 / 2 ^ 20) = Math_PI + 1 / 2 ^ 20"
  "dbl (Math_PI + 1 / 2 ^ 21) = Math_PI + 1 / 2 ^ 21"
  "dbl (Math_PI + 1 / 2 ^ 38) = Math_PI + 1 / 2 ^ 38"
  "dbl (Math_PI - 1 / 2 ^ 27) = Math_PI - 1 / 2 ^ 27"
  unfolding Math_PI_def
      apply (rule dbl_repr[where m = 884279719003555 and k = "- 48"]; simp add: pow2_def)
     apply (rule dbl_repr[where m = 884279987439011 and k = "- 48"]; simp add: pow2_def)
    apply (rule dbl_repr[where m = 884279853221283 and k = "- 48"]; simp add: pow2_def)
   apply (rule dbl_repr[where m = 884279719004579 and k = "- 48"]; simp add: pow2_def)
  apply (rule dbl_repr[where m = 884279716906403 and k = "- 48"]; simp add: pow2_def)
  done

text \<open>With \<open>Math.log\<close> at most \<open>Math.PI\<close> the row is not negative.\<close>

lemma tail_e:
  assumes g: "g \<le> Math_PI"
  shows "0 \<le> \<lfloor>dbl (dbl (dbl (1 - dbl (g / Math_PI)) / 2) * pow2 z)\<rfloor>"
  using tail_lower[of g 1 "pow2 z"] g by simp

text \<open>With \<open>Math.log\<close> at most \<open>-Math.PI\<close> the row is at least \<open>2^z\<close>.\<close>

lemma tail_d:
  assumes g: "g \<le> - Math_PI" and z: "0 \<le> z"
  shows "2 ^ nat z \<le> \<lfloor>dbl (dbl (dbl (1 - dbl (g / Math_PI)) / 2) * pow2 z)\<rfloor>"
proof -
  have R: "dbl (- 1) = - 1" using dbl_minus[of 1] by simp
  have e: "dbl (dbl (dbl (1 - (- 1)) / 2) * pow2 z) = real_of_int 1 * pow2 (1 - 1 + z)"
    by (rule tail_eval) simp_all
  have "\<lfloor>dbl (dbl (dbl (1 - (- 1)) / 2) * pow2 z)\<rfloor> = 2 ^ nat z"
    unfolding e by (simp add: pow2_nat[OF z])
  then show ?thesis using tail_lower[of g "- 1" "pow2 z", OF _ R] g by simp
qed

text \<open>Up to zoom 22 a logarithm a little above \<open>Math.PI\<close> gives a row not below \<open>-1\<close>.\<close>

lemma tail_a:
  assumes g: "g \<le> Math_PI + 1 / 2 ^ 20" and z: "z \<le> 22"
  shows "- 1 \<le> \<lfloor>dbl (dbl (dbl (1 - dbl (g / Math_PI)) / 2) * pow2 z)\<rfloor>"
proof -
  let ?R = "1 + 1 / 2 ^ 21 :: real"
  have R: "dbl ?R = ?R"
    by (rule dbl_repr[where m = 2097153 and k = "- 21"]) (simp_all add: pow2_def)
  have gR: "g \<le> ?R * Math_PI" using g Math_PI_bounds(2) by (simp add: algebra_simps)
  have e: "dbl (dbl (dbl (1 - ?R) / 2) * pow2 z) = real_of_int (- 1) * pow2 (- 21 - 1 + z)"
    by (rule tail_eval) (simp_all add: pow2_def)
  have "pow2 (- 21 - 1 + z) \<le> pow2 0" using z by (subst pow2_le_iff) simp
  then have "- 1 \<le> \<lfloor>real_of_int (- 1) * pow2 (- 21 - 1 + z)\<rfloor>" by (simp add: le_floor_iff)
  then show ?thesis
    using tail_lower[of g ?R "pow2 z", OF gR R] unfolding e by simp
qed

text \<open>A logarithm above \<open>Math.PI\<close> by \<open>2^-38\<close> gives a negative row.\<close>

lemma tail_c:
  assumes g: "Math_PI + 1 / 2 ^ 38 \<le> g"
  shows "\<lfloor>dbl (dbl (dbl (1 - dbl (g / Math_PI)) / 2) * pow2 z)\<rfloor> \<le> - 1"
proof -
  let ?R = "1 + 1 / 2 ^ 40 :: real"
  have R: "dbl ?R = ?R"
    by (rule dbl_repr[where m = 1099511627777 and k = "- 40"]) (simp_all add: pow2_def)
  have gR: "?R * Math_PI \<le> g" using g Math_PI_bounds(3) by (simp add: algebra_simps)
  have e: "dbl (dbl (dbl (1 - ?R) / 2) * pow2 z) = real_of_int (- 1) * pow2 (- 40 - 1 + z)"
    by (rule tail_eval) (simp_all add: pow2_def)
  have "\<lfloor>real_of_int (- 1) * pow2 (- 40 - 1 + z)\<rfloor> \<le> - 1" by (simp add: floor_le_iff)
  then show ?thesis
    using tail_upper[of ?R g "pow2 z", OF gR R] unfolding e by simp
qed

text \<open>Up to zoom 22 a logarithm a little below \<open>-Math.PI\<close> gives a row not above \<open>2^z\<close>.\<close>

lemma tail_b:
  assumes g: "- (Math_PI + 1 / 2 ^ 21) \<le> g" and z: "0 \<le> z" "z \<le> 22"
  shows "\<lfloor>dbl (dbl (dbl (1 - dbl (g / Math_PI)) / 2) * pow2 z)\<rfloor> \<le> 2 ^ nat z"
proof -
  let ?R = "- (1 + 1 / 2 ^ 22) :: real"
  have R: "dbl ?R = ?R"
    by (rule dbl_repr[where m = "- 4194305" and k = "- 22"]) (simp_all add: pow2_def)
  have gR: "?R * Math_PI \<le> g" using g Math_PI_bounds(2) by (simp add: algebra_simps)
  have e: "dbl (dbl (dbl (1 - ?R) / 2) * pow2 z) = real_of_int 8388609 * pow2 (- 22 - 1 + z)"
    by (rule tail_eval) (simp_all add: pow2_def)
  have p: "pow2 z = 8388608 * pow2 (- 22 - 1 + z)"
    using pow2_add[of 23 "- 22 - 1 + z"] by (simp add: pow2_def)
  have "pow2 (- 22 - 1 + z) < pow2 0" using z by (subst pow2_less_iff) simp
  then have "real_of_int 8388609 * pow2 (- 22 - 1 + z) < real_of_int (2 ^ nat z) + 1"
    using p unfolding pow2_nat[OF z(1)] by simp
  then have "\<lfloor>real_of_int 8388609 * pow2 (- 22 - 1 + z)\<rfloor> \<le> 2 ^ nat z" by (simp add: floor_le_iff)
  then show ?thesis
    using tail_upper[of ?R g "pow2 z", OF gR R] unfolding e by simp
qed

text \<open>A logarithm above \<open>-Math.PI\<close> by \<open>2^-27\<close> gives a row below \<open>2^z\<close>.\<close>

lemma tail_f:
  assumes g: "- (Math_PI - 1 / 2 ^ 27) \<le> g" and z: "0 \<le> z"
  shows "\<lfloor>dbl (dbl (dbl (1 - dbl (g / Math_PI)) / 2) * pow2 z)\<rfloor> \<le> 2 ^ nat z - 1"
proof -
  let ?R = "- (1 - 1 / 2 ^ 29) :: real"
  have R: "dbl ?R = ?R"
    by (rule dbl_repr[where m = "- 536870911" and k = "- 29"]) (simp_all add: pow2_def)
  have gR: "?R * Math_PI \<le> g" using g Math_PI_bounds(3) by (simp add: algebra_simps)
  have e: "dbl (dbl (dbl (1 - ?R) / 2) * pow2 z) = real_of_int 1073741823 * pow2 (- 29 - 1 + z)"
    by (rule tail_eval) (simp_all add: pow2_def)
  have p: "pow2 z = 1073741824 * pow2 (- 29 - 1 + z)"
    using pow2_add[of 30 "- 29 - 1 + z"] by (simp add: pow2_def)
  have "real_of_int 1073741823 * pow2 (- 29 - 1 + z) < real_of_int (2 ^ nat z)"
    using p pow2_pos[of "- 29 - 1 + z"] unfolding pow2_nat[OF z(1)] by simp
  then have "\<lfloor>real_of_int 1073741823 * pow2 (- 29 - 1 + z)\<rfloor> < 2 ^ nat z"
    unfolding floor_less_iff .
  then have "\<lfloor>real_of_int 1073741823 * pow2 (- 29 - 1 + z)\<rfloor> \<le> 2 ^ nat z - 1" by simp
  then show ?thesis
    using tail_upper[of ?R g "pow2 z", OF gR R] unfolding e by simp
qed

subsection \<open>Rounded tangent and secant\<close>

text \<open>
  The sum \<open>Math.tan(a) + 1 / Math.cos(a)\<close> in doubles, bounded through the exact cosine of
  \<open>a\<close>: the sine is \<open>\<plusminus>sqrt (1 - cos\<^sup>2)\<close>, and each rounding changes its argument by at most one
  part in \<open>2^53\<close>.
\<close>

lemma trig_round:
  assumes c0: "0 < cos a"
  shows "tan a - \<bar>tan a\<bar> / 2 ^ 53 \<le> Math_tan a"
    and "Math_tan a \<le> tan a + \<bar>tan a\<bar> / 2 ^ 53"
    and "(1 - 1 / 2 ^ 51) / cos a \<le> dbl (1 / Math_cos a)"
    and "dbl (1 / Math_cos a) \<le> (1 + 1 / 2 ^ 51) / cos a"
proof -
  show "tan a - \<bar>tan a\<bar> / 2 ^ 53 \<le> Math_tan a"
    unfolding Math_tan_def by (rule dbl_error_bounds)
  show "Math_tan a \<le> tan a + \<bar>tan a\<bar> / 2 ^ 53"
    unfolding Math_tan_def by (rule dbl_error_bounds)
  define C where "C = Math_cos a"
  define x where "x = 1 / cos a"
  have x: "0 < x" unfolding x_def using c0 by simp
  have C1: "(1 - 1 / 2 ^ 53) * cos a \<le> C" and C2: "C \<le> (1 + 1 / 2 ^ 53) * cos a"
    using dbl_error_bounds[of "cos a"] c0 unfolding C_def Math_cos_def
    by (simp_all add: algebra_simps)
  have Cpos: "0 < C"
  proof -
    have "0 < (1 - 1 / 2 ^ 53) * cos a" using c0 by simp
    then show ?thesis using C1 by linarith
  qed
  have i1: "1 / C \<le> x / (1 - 1 / 2 ^ 53)"
  proof -
    have "1 / C \<le> 1 / ((1 - 1 / 2 ^ 53) * cos a)"
      using C1 c0 by (intro divide_left_mono) simp_all
    then show ?thesis by (simp add: x_def)
  qed
  have i2: "x / (1 + 1 / 2 ^ 53) \<le> 1 / C"
  proof -
    have "1 / ((1 + 1 / 2 ^ 53) * cos a) \<le> 1 / C"
      using C2 Cpos c0 by (intro divide_left_mono) simp_all
    then show ?thesis by (simp add: x_def)
  qed
  have Q1: "(1 - 1 / 2 ^ 53) * (1 / C) \<le> dbl (1 / C)"
    and Q2: "dbl (1 / C) \<le> (1 + 1 / 2 ^ 53) * (1 / C)"
    using dbl_error_bounds[of "1 / C"] Cpos by (simp_all add: algebra_simps)
  have "(1 - 1 / 2 ^ 51) * x \<le> (1 - 1 / 2 ^ 53) * (x / (1 + 1 / 2 ^ 53))"
    using x by simp
  also have "\<dots> \<le> (1 - 1 / 2 ^ 53) * (1 / C)"
    using i2 by (intro mult_left_mono) simp_all
  also note Q1
  finally show "(1 - 1 / 2 ^ 51) / cos a \<le> dbl (1 / Math_cos a)"
    by (simp add: x_def C_def)
  note Q2
  also have "(1 + 1 / 2 ^ 53) * (1 / C) \<le> (1 + 1 / 2 ^ 53) * (x / (1 - 1 / 2 ^ 53))"
    using i1 by (intro mult_left_mono) simp_all
  also have "\<dots> \<le> (1 + 1 / 2 ^ 51) * x"
    using x by simp
  finally show "dbl (1 / Math_cos a) \<le> (1 + 1 / 2 ^ 51) / cos a"
    by (simp add: x_def C_def)
qed

lemma abs_sin_sqrt: "\<bar>sin (a::real)\<bar> = sqrt (1 - (cos a)\<^sup>2)"
proof -
  have "(sin a)\<^sup>2 = 1 - (cos a)\<^sup>2" by (rule sin_squared_eq)
  then have "sqrt ((sin a)\<^sup>2) = sqrt (1 - (cos a)\<^sup>2)" by simp
  then show ?thesis by simp
qed

lemma abs_sin_le:
  fixes a c u :: real
  assumes "0 < c" "c \<le> cos a" "1 - c\<^sup>2 \<le> u\<^sup>2" "0 \<le> u"
  shows "\<bar>sin a\<bar> \<le> u"
proof -
  have "0 \<le> c" using assms(1) by simp
  then have "c\<^sup>2 \<le> (cos a)\<^sup>2" by (rule power_mono[OF assms(2)])
  then have "1 - (cos a)\<^sup>2 \<le> u\<^sup>2" using assms(3) by linarith
  then show ?thesis unfolding abs_sin_sqrt using assms(4) by (intro real_le_lsqrt) simp_all
qed

lemma abs_sin_ge:
  fixes a c u :: real
  assumes "0 < cos a" "cos a \<le> c" "u\<^sup>2 \<le> 1 - c\<^sup>2" "0 \<le> u"
  shows "u \<le> \<bar>sin a\<bar>"
proof -
  have "0 \<le> cos a" using assms(1) by simp
  then have "(cos a)\<^sup>2 \<le> c\<^sup>2" by (rule power_mono[OF assms(2)])
  then have "u\<^sup>2 \<le> 1 - (cos a)\<^sup>2" using assms(3) by linarith
  then show ?thesis unfolding abs_sin_sqrt by (intro real_le_rsqrt)
qed

lemma sec_minus_tan:
  fixes a :: real
  assumes "0 < cos a"
  shows "(1 - \<bar>sin a\<bar>) / cos a = cos a / (1 + \<bar>sin a\<bar>)"
proof -
  have "(1 - \<bar>sin a\<bar>) * (1 + \<bar>sin a\<bar>) = cos a * cos a"
    using sin_cos_squared_add[of a] by (simp add: algebra_simps power2_eq_square)
  moreover have "0 < 1 + \<bar>sin a\<bar>" by simp
  ultimately show ?thesis using assms by (simp add: field_simps)
qed

lemma abs_tan: "0 < cos (a::real) \<Longrightarrow> \<bar>tan a\<bar> = \<bar>sin a\<bar> / cos a"
  by (simp add: tan_def abs_divide)

text \<open>An upper bound of the sum, from a lower bound of the cosine.\<close>

lemma trig_U:
  assumes c: "0 < c" "c \<le> cos a" and u: "1 - c\<^sup>2 \<le> u\<^sup>2" "0 \<le> u"
  shows "Math_tan a + dbl (1 / Math_cos a) \<le> (u + 1) / c * (1 + 1 / 2 ^ 50)"
proof -
  have c0: "0 < cos a" using c by linarith
  define x where "x = 1 / cos a"
  define s where "s = \<bar>sin a\<bar>"
  have x: "0 < x" "x \<le> 1 / c" unfolding x_def using c c0 by (simp_all add: frac_le)
  have s: "0 \<le> s" "s \<le> u" unfolding s_def using abs_sin_le[OF c u] by simp_all
  have t: "\<bar>tan a\<bar> = s * x" unfolding s_def x_def using abs_tan[OF c0] by simp
  have T: "Math_tan a \<le> s * x * (1 + 1 / 2 ^ 53)"
    using trig_round(2)[OF c0] abs_ge_self[of "tan a"] unfolding t by (simp add: algebra_simps)
  have Q: "dbl (1 / Math_cos a) \<le> (1 + 1 / 2 ^ 51) * x"
    using trig_round(4)[OF c0] by (simp add: x_def)
  have "s * x * (1 + 1 / 2 ^ 53) \<le> s * x * (1 + 1 / 2 ^ 51)"
    using s x by (intro mult_left_mono mult_nonneg_nonneg) simp_all
  then have "Math_tan a + dbl (1 / Math_cos a) \<le> (s + 1) * x * (1 + 1 / 2 ^ 51)"
    using T Q by (simp add: algebra_simps)
  also have "\<dots> \<le> (u + 1) * (1 / c) * (1 + 1 / 2 ^ 51)"
    using s x u by (intro mult_right_mono mult_mono) simp_all
  also have "\<dots> \<le> (u + 1) * (1 / c) * (1 + 1 / 2 ^ 50)"
    using u c by (intro mult_left_mono mult_nonneg_nonneg) simp_all
  finally show ?thesis by simp
qed

text \<open>A lower bound of the sum, from a lower bound of the cosine: \<open>sec - \<bar>tan\<bar> = cos / (1 + \<bar>sin\<bar>)\<close>.\<close>

lemma trig_L:
  assumes c: "0 < c" "c \<le> cos a" and u: "1 - c\<^sup>2 \<le> u\<^sup>2" "0 \<le> u"
  shows "c / (1 + u) - (1 / 2 ^ 50) / c \<le> Math_tan a + dbl (1 / Math_cos a)"
proof -
  have c0: "0 < cos a" using c by linarith
  define x where "x = 1 / cos a"
  define s where "s = \<bar>sin a\<bar>"
  have x: "0 < x" "x \<le> 1 / c" unfolding x_def using c c0 by (simp_all add: frac_le)
  have s: "0 \<le> s" "s \<le> u" "s \<le> 1" unfolding s_def using abs_sin_le[OF c u] by simp_all
  have t: "\<bar>tan a\<bar> = s * x" unfolding s_def x_def using abs_tan[OF c0] by simp
  have T: "- (s * x) - s * x / 2 ^ 53 \<le> Math_tan a"
    using trig_round(1)[OF c0] abs_ge_minus_self[of "tan a"] unfolding t by (simp add: algebra_simps)
  have Q: "(1 - 1 / 2 ^ 51) * x \<le> dbl (1 / Math_cos a)"
    using trig_round(3)[OF c0] by (simp add: x_def)
  have f: "(1 - s) * x = cos a / (1 + s)"
    using sec_minus_tan[OF c0] by (simp add: x_def s_def)
  have "c / (1 + u) \<le> cos a / (1 + s)"
    using c s u by (intro frac_le) simp_all
  then have 1: "c / (1 + u) \<le> (1 - s) * x" unfolding f .
  have "s * x \<le> 1 * x" using s x by (intro mult_right_mono) simp_all
  then have a: "s * x / 2 ^ 53 \<le> x / 2 ^ 53" by (simp add: divide_right_mono)
  have b: "x / 2 ^ 53 + x / 2 ^ 51 \<le> x / 2 ^ 50" using x(1) by simp
  have "s * x / 2 ^ 53 + x / 2 ^ 51 \<le> x / 2 ^ 50" using a b by linarith
  also have "\<dots> \<le> (1 / c) / 2 ^ 50" using x by (intro divide_right_mono) simp_all
  finally have 2: "s * x / 2 ^ 53 + x / 2 ^ 51 \<le> (1 / 2 ^ 50) / c" by simp
  have "(1 - s) * x - (s * x / 2 ^ 53 + x / 2 ^ 51) \<le> Math_tan a + dbl (1 / Math_cos a)"
    using T Q by (simp add: algebra_simps)
  then show ?thesis using 1 2 by linarith
qed

text \<open>A lower bound where the sine is not negative, from an upper bound of the cosine.\<close>

lemma trig_Lp:
  assumes c: "0 < cos a" "cos a \<le> c" and u: "u\<^sup>2 \<le> 1 - c\<^sup>2" "0 \<le> u" and sn: "0 \<le> sin a"
  shows "(u + 1) / c * (1 - 1 / 2 ^ 50) \<le> Math_tan a + dbl (1 / Math_cos a)"
proof -
  note c0 = c(1)
  have cp: "0 < c" using c by linarith
  define x where "x = 1 / cos a"
  define s where "s = \<bar>sin a\<bar>"
  have x: "0 < x" "1 / c \<le> x" unfolding x_def using c by (simp_all add: frac_le)
  have s: "0 \<le> s" "u \<le> s" unfolding s_def using abs_sin_ge[OF c u] by simp_all
  have t: "tan a = s * x" unfolding s_def x_def using sn by (simp add: tan_def)
  have t': "\<bar>tan a\<bar> = s * x" unfolding t using s x by simp
  have T: "s * x * (1 - 1 / 2 ^ 53) \<le> Math_tan a"
    using trig_round(1)[OF c0] unfolding t' unfolding t by (simp add: algebra_simps)
  have Q: "(1 - 1 / 2 ^ 51) * x \<le> dbl (1 / Math_cos a)"
    using trig_round(3)[OF c0] by (simp add: x_def)
  have "(u + 1) * (1 / c) * (1 - 1 / 2 ^ 50) \<le> (u + 1) * (1 / c) * (1 - 1 / 2 ^ 51)"
    using u cp by (intro mult_left_mono mult_nonneg_nonneg) simp_all
  also have "\<dots> \<le> (s + 1) * x * (1 - 1 / 2 ^ 51)"
    using s x u cp by (intro mult_right_mono mult_mono) simp_all
  also have "\<dots> \<le> s * x * (1 - 1 / 2 ^ 53) + (1 - 1 / 2 ^ 51) * x"
  proof -
    have "s * x * (1 - 1 / 2 ^ 51) \<le> s * x * (1 - 1 / 2 ^ 53)"
      using s x by (intro mult_left_mono mult_nonneg_nonneg) simp_all
    then show ?thesis by (simp add: algebra_simps)
  qed
  also have "\<dots> \<le> Math_tan a + dbl (1 / Math_cos a)" using T Q by linarith
  finally show ?thesis by simp
qed

text \<open>An upper bound where the sine is not positive, from bounds of the cosine.\<close>

lemma trig_Um:
  assumes c: "0 < c" "c \<le> cos a" "cos a \<le> c'" and u: "u\<^sup>2 \<le> 1 - c'\<^sup>2" "0 \<le> u" and sn: "sin a \<le> 0"
  shows "Math_tan a + dbl (1 / Math_cos a) \<le> c' / (1 + u) + (1 / 2 ^ 50) / c"
proof -
  have c0: "0 < cos a" using c by linarith
  define x where "x = 1 / cos a"
  define s where "s = \<bar>sin a\<bar>"
  have x: "0 < x" "x \<le> 1 / c" unfolding x_def using c c0 by (simp_all add: frac_le)
  have s: "0 \<le> s" "u \<le> s" "s \<le> 1" unfolding s_def using abs_sin_ge[OF c0 c(3) u] by simp_all
  have t: "tan a = - (s * x)" unfolding s_def x_def using sn by (simp add: tan_def)
  have t': "\<bar>tan a\<bar> = s * x" unfolding t using s x by simp
  have T: "Math_tan a \<le> - (s * x) + s * x / 2 ^ 53"
    using trig_round(2)[OF c0] unfolding t' unfolding t by (simp add: algebra_simps)
  have Q: "dbl (1 / Math_cos a) \<le> (1 + 1 / 2 ^ 51) * x"
    using trig_round(4)[OF c0] by (simp add: x_def)
  have f: "(1 - s) * x = cos a / (1 + s)"
    using sec_minus_tan[OF c0] by (simp add: x_def s_def)
  have "cos a / (1 + s) \<le> c' / (1 + u)"
    using c c0 s u by (intro frac_le) simp_all
  then have 1: "(1 - s) * x \<le> c' / (1 + u)" unfolding f .
  have "s * x \<le> 1 * x" using s x by (intro mult_right_mono) simp_all
  then have a: "s * x / 2 ^ 53 \<le> x / 2 ^ 53" by (simp add: divide_right_mono)
  have b: "x / 2 ^ 53 + x / 2 ^ 51 \<le> x / 2 ^ 50" using x(1) by simp
  have "s * x / 2 ^ 53 + x / 2 ^ 51 \<le> x / 2 ^ 50" using a b by linarith
  also have "\<dots> \<le> (1 / c) / 2 ^ 50" using x by (intro divide_right_mono) simp_all
  finally have 2: "s * x / 2 ^ 53 + x / 2 ^ 51 \<le> (1 / 2 ^ 50) / c" by simp
  have "Math_tan a + dbl (1 / Math_cos a) \<le> (1 - s) * x + (s * x / 2 ^ 53 + x / 2 ^ 51)"
    using T Q by (simp add: algebra_simps)
  then show ?thesis using 1 2 by linarith
qed

subsection \<open>Taylor polynomials in Horner form\<close>

text \<open>
  The partial sums of the exponential and of the cosine are evaluated from the innermost
  term outwards, between two rational bounds at each step.
\<close>

lemma exp_sum_step:
  fixes x :: real
  shows "(\<Sum>m<Suc j. x ^ m * (fact k / fact (m + k))) =
         1 + x / real (Suc k) * (\<Sum>m<j. x ^ m * (fact (Suc k) / fact (m + Suc k)))"
proof -
  have "(\<Sum>m<Suc j. x ^ m * (fact k / fact (m + k))) =
        x ^ 0 * (fact k / fact (0 + k)) + (\<Sum>m<j. x ^ Suc m * (fact k / fact (Suc m + k)))"
    by (rule sum.lessThan_Suc_shift)
  also have "(\<Sum>m<j. x ^ Suc m * (fact k / fact (Suc m + k))) =
        (\<Sum>m<j. x / real (Suc k) * (x ^ m * (fact (Suc k) / fact (m + Suc k))))"
  proof (rule sum.cong)
    fix m
    define F :: real where "F = fact (m + Suc k)"
    define c :: real where "c = real (Suc k)"
    have c: "c \<noteq> 0" unfolding c_def by simp
    have e1: "fact (Suc m + k) = F" unfolding F_def by simp
    have e2: "fact (Suc k) = c * fact k" unfolding c_def by simp
    have "x ^ Suc m * (fact k / F) = x / c * (x ^ m * (c * fact k / F))"
      using c by simp
    then show "x ^ Suc m * (fact k / fact (Suc m + k)) =
          x / real (Suc k) * (x ^ m * (fact (Suc k) / fact (m + Suc k)))"
      unfolding e1 e2 unfolding F_def c_def .
  qed simp
  also have "\<dots> = x / real (Suc k) * (\<Sum>m<j. x ^ m * (fact (Suc k) / fact (m + Suc k)))"
    by (rule sum_distrib_left[symmetric])
  finally show ?thesis by simp
qed

lemma exp_interval_step:
  fixes x :: real
  assumes "j' = Suc j" and "k' = Suc k" and "0 \<le> x"
    and "lo \<le> (\<Sum>m<j. x ^ m * (fact k' / fact (m + k')))"
    and "(\<Sum>m<j. x ^ m * (fact k' / fact (m + k'))) \<le> hi"
    and "lo' \<le> 1 + x / real k' * lo" and "1 + x / real k' * hi \<le> hi'"
  shows "lo' \<le> (\<Sum>m<j'. x ^ m * (fact k / fact (m + k))) \<and>
         (\<Sum>m<j'. x ^ m * (fact k / fact (m + k))) \<le> hi'"
proof -
  let ?t = "\<Sum>m<j. x ^ m * (fact k' / fact (m + k'))"
  have c: "0 \<le> x / real k'" using assms(2,3) by simp
  have "x / real k' * lo \<le> x / real k' * ?t" by (rule mult_left_mono[OF assms(4) c])
  moreover have "x / real k' * ?t \<le> x / real k' * hi" by (rule mult_left_mono[OF assms(5) c])
  ultimately show ?thesis
    unfolding assms(1) exp_sum_step assms(2)[symmetric] using assms(6,7) by linarith
qed

lemma exp_taylor12:
  fixes x :: real
  assumes "0 \<le> x" and "x \<le> 1"
  shows "(\<Sum>m<12. x ^ m / fact m) \<le> exp x"
    and "exp x \<le> (\<Sum>m<12. x ^ m / fact m) + 3 * x ^ 12 / fact 12"
proof -
  obtain t where t: "\<bar>t\<bar> \<le> \<bar>x\<bar>"
    and e: "exp x = (\<Sum>m<12. x ^ m / fact m) + exp t / fact 12 * x ^ 12"
    using Maclaurin_exp_le[of x 12] by blast
  have "0 \<le> exp t / fact 12 * x ^ 12" using assms(1) by simp
  then show "(\<Sum>m<12. x ^ m / fact m) \<le> exp x" unfolding e by simp
  have "t \<le> 1" using t assms by linarith
  then have "exp t \<le> exp 1" by simp
  then have "exp t \<le> 3" using exp_le by linarith
  then have "exp t / fact 12 * x ^ 12 \<le> 3 / fact 12 * x ^ 12"
    using assms(1) by (intro mult_right_mono divide_right_mono) simp_all
  then show "exp x \<le> (\<Sum>m<12. x ^ m / fact m) + 3 * x ^ 12 / fact 12"
    unfolding e by simp
qed

lemma cos_sum_step:
  fixes y :: real
  shows "(\<Sum>i<Suc j. (- 1) ^ i * y ^ i * (fact (2 * k) / fact (2 * (i + k)))) =
         1 - y / (real (2 * k + 1) * real (2 * k + 2))
             * (\<Sum>i<j. (- 1) ^ i * y ^ i * (fact (2 * Suc k) / fact (2 * (i + Suc k))))"
proof -
  have f: "fact (2 * Suc k) = real (2 * k + 1) * real (2 * k + 2) * fact (2 * k)"
    by (simp add: algebra_simps)
  have "(\<Sum>i<Suc j. (- 1) ^ i * y ^ i * (fact (2 * k) / fact (2 * (i + k)))) =
        (- 1) ^ 0 * y ^ 0 * (fact (2 * k) / fact (2 * (0 + k)))
        + (\<Sum>i<j. (- 1) ^ Suc i * y ^ Suc i * (fact (2 * k) / fact (2 * (Suc i + k))))"
    by (rule sum.lessThan_Suc_shift)
  also have "(\<Sum>i<j. (- 1) ^ Suc i * y ^ Suc i * (fact (2 * k) / fact (2 * (Suc i + k)))) =
        (\<Sum>i<j. - (y / (real (2 * k + 1) * real (2 * k + 2)))
                 * ((- 1) ^ i * y ^ i * (fact (2 * Suc k) / fact (2 * (i + Suc k)))))"
  proof (rule sum.cong)
    fix i
    have "(- 1) ^ Suc i * y ^ Suc i * (fact (2 * k) / fact (2 * (i + Suc k))) =
          - (y / (real (2 * k + 1) * real (2 * k + 2)))
             * ((- 1) ^ i * y ^ i * (real (2 * k + 1) * real (2 * k + 2) * fact (2 * k) / fact (2 * (i + Suc k))))"
      by (simp add: field_simps del: fact_Suc of_nat_Suc of_nat_add of_nat_mult)
    then show "(- 1) ^ Suc i * y ^ Suc i * (fact (2 * k) / fact (2 * (Suc i + k))) =
          - (y / (real (2 * k + 1) * real (2 * k + 2)))
             * ((- 1) ^ i * y ^ i * (fact (2 * Suc k) / fact (2 * (i + Suc k))))"
      unfolding f by simp
  qed simp
  also have "\<dots> = - (y / (real (2 * k + 1) * real (2 * k + 2)))
                 * (\<Sum>i<j. (- 1) ^ i * y ^ i * (fact (2 * Suc k) / fact (2 * (i + Suc k))))"
    by (rule sum_distrib_left[symmetric])
  finally show ?thesis by simp
qed

lemma cos_interval_step:
  fixes y :: real
  assumes "j' = Suc j" and "k' = Suc k" and "0 \<le> y" and "d = real (2 * k + 1) * real (2 * k + 2)"
    and "lo \<le> (\<Sum>i<j. (- 1) ^ i * y ^ i * (fact (2 * k') / fact (2 * (i + k'))))"
    and "(\<Sum>i<j. (- 1) ^ i * y ^ i * (fact (2 * k') / fact (2 * (i + k')))) \<le> hi"
    and "lo' \<le> 1 - y / d * hi" and "1 - y / d * lo \<le> hi'"
  shows "lo' \<le> (\<Sum>i<j'. (- 1) ^ i * y ^ i * (fact (2 * k) / fact (2 * (i + k)))) \<and>
         (\<Sum>i<j'. (- 1) ^ i * y ^ i * (fact (2 * k) / fact (2 * (i + k)))) \<le> hi'"
proof -
  let ?t = "\<Sum>i<j. (- 1) ^ i * y ^ i * (fact (2 * k') / fact (2 * (i + k')))"
  have c: "0 \<le> y / d" using assms(3,4) by simp
  have "y / d * lo \<le> y / d * ?t" by (rule mult_left_mono[OF assms(5) c])
  moreover have "y / d * ?t \<le> y / d * hi" by (rule mult_left_mono[OF assms(6) c])
  ultimately show ?thesis
    unfolding assms(1) cos_sum_step assms(2)[symmetric] assms(4)[symmetric] using assms(7,8) by linarith
qed

lemma cos_even_sum:
  fixes x :: real
  shows "(\<Sum>m<2 * N. cos_coeff m * x ^ m) = (\<Sum>i<N. (- 1) ^ i * (x\<^sup>2) ^ i * (fact (2 * 0) / fact (2 * (i + 0))))"
proof (induction N)
  case 0
  show ?case by simp
next
  case (Suc N)
  have "(\<Sum>m<2 * Suc N. cos_coeff m * x ^ m) =
        (\<Sum>m<2 * N. cos_coeff m * x ^ m) + cos_coeff (2 * N) * x ^ (2 * N)
          + cos_coeff (Suc (2 * N)) * x ^ Suc (2 * N)"
    by simp
  also have "cos_coeff (Suc (2 * N)) = 0" by (simp add: cos_coeff_def)
  also have "cos_coeff (2 * N) = (- 1) ^ N / fact (2 * N)" by (simp add: cos_coeff_def)
  finally show ?case unfolding Suc.IH by (simp add: power_mult)
qed

lemma cos_taylor18:
  fixes x :: real
  shows "\<bar>cos x - (\<Sum>i<9. (- 1) ^ i * (x\<^sup>2) ^ i * (fact (2 * 0) / fact (2 * (i + 0))))\<bar> \<le> \<bar>x\<bar> ^ 18 / fact 18"
proof -
  obtain t where t: "cos x = (\<Sum>m<18. cos_coeff m * x ^ m) + (cos (t + 1 / 2 * real (18::nat) * pi) / fact 18) * x ^ 18"
    using Maclaurin_cos_expansion[of x 18] by blast
  have "\<bar>cos x - (\<Sum>m<18. cos_coeff m * x ^ m)\<bar> = \<bar>cos (t + 1 / 2 * real (18::nat) * pi)\<bar> * \<bar>x\<bar> ^ 18 / fact 18"
    unfolding t by (simp add: abs_mult power_abs)
  also have "\<dots> \<le> 1 * \<bar>x\<bar> ^ 18 / fact 18"
    by (intro divide_right_mono mult_right_mono) simp_all
  finally have "\<bar>cos x - (\<Sum>m<18. cos_coeff m * x ^ m)\<bar> \<le> \<bar>x\<bar> ^ 18 / fact 18" by simp
  moreover have "(\<Sum>m<18. cos_coeff m * x ^ m) = (\<Sum>m<2 * 9. cos_coeff m * x ^ m)" by simp
  ultimately show ?thesis unfolding cos_even_sum by simp
qed

subsection \<open>Bounds of the cosine at the latitude limit and of \<open>exp Math.PI\<close>\<close>

text \<open>The cosine of the double 1.4844222335884323, the latitude 85.051129 in radians.\<close>

lemma cos_latRad_limit:
  "6216173333956339 / 72057594037927936 \<le> cos (6685243418049343 / 4503599627370496 :: real)"
  "cos (6685243418049343 / 4503599627370496 :: real) \<le> 6216173333989607 / 72057594037927936"
proof -
  let ?a = "6685243418049343 / 4503599627370496 :: real"
  let ?C = "\<lambda>(j::nat) (k::nat).
    \<Sum>i<j. (- 1) ^ i * (?a\<^sup>2) ^ i * (fact (2 * k) / fact (2 * (i + k)))"
  have c8: "1 \<le> ?C 1 8 \<and> ?C 1 8 \<le> 1"
    by simp
  have c7: "1142336199042363593 / 1152921504606846976 \<le> ?C 2 7 \<and>
            ?C 2 7 \<le> 571168099521181797 / 576460752303423488"
    by (rule cos_interval_step[where j = 1 and k' = 8 and d = 240
          and lo = "1"
          and hi = "1",
          OF _ _ _ _ conjunct1[OF c8] conjunct2[OF c8]])
       (simp_all add: power_divide)
  have c6: "1139091018257912557 / 1152921504606846976 \<le> ?C 3 6 \<and>
            ?C 3 6 \<le> 569545509128956279 / 576460752303423488"
    by (rule cos_interval_step[where j = 2 and k' = 7 and d = 182
          and lo = "1142336199042363593 / 1152921504606846976"
          and hi = "571168099521181797 / 576460752303423488",
          OF _ _ _ _ conjunct1[OF c7] conjunct2[OF c7]])
       (simp_all add: power_divide)
  have c5: "283476592573590413 / 288230376151711744 \<le> ?C 4 5 \<and>
            ?C 4 5 \<le> 1133906370294361653 / 1152921504606846976"
    by (rule cos_interval_step[where j = 3 and k' = 6 and d = 132
          and lo = "1139091018257912557 / 1152921504606846976"
          and hi = "569545509128956279 / 576460752303423488",
          OF _ _ _ _ conjunct1[OF c6] conjunct2[OF c6]])
       (simp_all add: power_divide)
  have c4: "1125159578952482343 / 1152921504606846976 \<le> ?C 5 4 \<and>
            ?C 5 4 \<le> 140644947369060293 / 144115188075855872"
    by (rule cos_interval_step[where j = 4 and k' = 5 and d = 90
          and lo = "283476592573590413 / 288230376151711744"
          and hi = "1133906370294361653 / 1152921504606846976",
          OF _ _ _ _ conjunct1[OF c5] conjunct2[OF c5]])
       (simp_all add: power_divide)
  have c3: "34645259255440089 / 36028797018963968 \<le> ?C 6 3 \<and>
            ?C 6 3 \<le> 554324148087041425 / 576460752303423488"
    by (rule cos_interval_step[where j = 5 and k' = 4 and d = 56
          and lo = "1125159578952482343 / 1152921504606846976"
          and hi = "140644947369060293 / 144115188075855872",
          OF _ _ _ _ conjunct1[OF c4] conjunct2[OF c4]])
       (simp_all add: power_divide)
  have c2: "1071490941074781541 / 1152921504606846976 \<le> ?C 7 2 \<and>
            ?C 7 2 \<le> 535745470537390771 / 576460752303423488"
    by (rule cos_interval_step[where j = 6 and k' = 3 and d = 30
          and lo = "34645259255440089 / 36028797018963968"
          and hi = "554324148087041425 / 576460752303423488",
          OF _ _ _ _ conjunct1[OF c3] conjunct2[OF c3]])
       (simp_all add: power_divide)
  have c1: "956168144112974839 / 1152921504606846976 \<le> ?C 8 1 \<and>
            ?C 8 1 \<le> 956168144112974841 / 1152921504606846976"
    by (rule cos_interval_step[where j = 7 and k' = 2 and d = 12
          and lo = "1071490941074781541 / 1152921504606846976"
          and hi = "535745470537390771 / 576460752303423488",
          OF _ _ _ _ conjunct1[OF c2] conjunct2[OF c2]])
       (simp_all add: power_divide)
  have c0: "99458773343567567 / 1152921504606846976 \<le> ?C 9 0 \<and>
            ?C 9 0 \<le> 49729386671783785 / 576460752303423488"
    by (rule cos_interval_step[where j = 8 and k' = 1 and d = 2
          and lo = "956168144112974839 / 1152921504606846976"
          and hi = "956168144112974841 / 1152921504606846976",
          OF _ _ _ _ conjunct1[OF c1] conjunct2[OF c1]])
       (simp_all add: power_divide)
  have t: "\<bar>cos ?a - ?C 9 0\<bar> \<le> \<bar>?a\<bar> ^ 18 / fact 18"
    by (rule cos_taylor18)
  have "\<bar>?a\<bar> ^ 18 \<le> (3 / 2) ^ 18"
    by (rule power_mono) simp_all
  then have "\<bar>?a\<bar> ^ 18 / fact 18 \<le> (3 / 2) ^ 18 / fact 18"
    by (rule divide_right_mono) simp
  also have "\<dots> \<le> 266135 / 1152921504606846976"
    by (simp add: fact_numeral power_divide)
  finally have r: "\<bar>?a\<bar> ^ 18 / fact 18 \<le> 266135 / 1152921504606846976" .
  have lo: "(6216173333956339 / 72057594037927936 :: real)
            \<le> 99458773343567567 / 1152921504606846976 - 266135 / 1152921504606846976"
    by simp
  have hi: "(49729386671783785 / 576460752303423488 :: real) + 266135 / 1152921504606846976
            \<le> 6216173333989607 / 72057594037927936"
    by simp
  show "6216173333956339 / 72057594037927936 \<le> cos ?a"
    using conjunct1[OF c0] t r lo by linarith
  show "cos ?a \<le> 6216173333989607 / 72057594037927936"
    using conjunct2[OF c0] t r hi by linarith
qed

text \<open>The cosine of the double 1.4844222283524446, the latitude 85.0511287 in radians.\<close>

lemma cos_latRad_inner:
  "6216173709842493 / 72057594037927936 \<le> cos (6685243394468551 / 4503599627370496 :: real)"
  "cos (6685243394468551 / 4503599627370496 :: real) \<le> 6216173709875761 / 72057594037927936"
proof -
  let ?a = "6685243394468551 / 4503599627370496 :: real"
  let ?C = "\<lambda>(j::nat) (k::nat).
    \<Sum>i<j. (- 1) ^ i * (?a\<^sup>2) ^ i * (fact (2 * k) / fact (2 * (i + k)))"
  have c8: "1 \<le> ?C 1 8 \<and> ?C 1 8 \<le> 1"
    by simp
  have c7: "1142336199117038477 / 1152921504606846976 \<le> ?C 2 7 \<and>
            ?C 2 7 \<le> 571168099558519239 / 576460752303423488"
    by (rule cos_interval_step[where j = 1 and k' = 8 and d = 240
          and lo = "1"
          and hi = "1",
          OF _ _ _ _ conjunct1[OF c8] conjunct2[OF c8]])
       (simp_all add: power_divide)
  have c6: "1139091018354576725 / 1152921504606846976 \<le> ?C 3 6 \<and>
            ?C 3 6 \<le> 569545509177288363 / 576460752303423488"
    by (rule cos_interval_step[where j = 2 and k' = 7 and d = 182
          and lo = "1142336199117038477 / 1152921504606846976"
          and hi = "571168099558519239 / 576460752303423488",
          OF _ _ _ _ conjunct1[OF c7] conjunct2[OF c7]])
       (simp_all add: power_divide)
  have c5: "1133906370426891797 / 1152921504606846976 \<le> ?C 4 5 \<and>
            ?C 4 5 \<le> 566953185213445899 / 576460752303423488"
    by (rule cos_interval_step[where j = 3 and k' = 6 and d = 132
          and lo = "1139091018354576725 / 1152921504606846976"
          and hi = "569545509177288363 / 576460752303423488",
          OF _ _ _ _ conjunct1[OF c6] conjunct2[OF c6]])
       (simp_all add: power_divide)
  have c4: "17580618424141973 / 18014398509481984 \<le> ?C 5 4 \<and>
            ?C 5 4 \<le> 1125159579145086273 / 1152921504606846976"
    by (rule cos_interval_step[where j = 4 and k' = 5 and d = 90
          and lo = "1133906370426891797 / 1152921504606846976"
          and hi = "566953185213445899 / 576460752303423488",
          OF _ _ _ _ conjunct1[OF c5] conjunct2[OF c5]])
       (simp_all add: power_divide)
  have c3: "554324148239416541 / 576460752303423488 \<le> ?C 6 3 \<and>
            ?C 6 3 \<le> 277162074119708271 / 288230376151711744"
    by (rule cos_interval_step[where j = 5 and k' = 4 and d = 56
          and lo = "17580618424141973 / 18014398509481984"
          and hi = "1125159579145086273 / 1152921504606846976",
          OF _ _ _ _ conjunct1[OF c4] conjunct2[OF c4]])
       (simp_all add: power_divide)
  have c2: "1071490941626855959 / 1152921504606846976 \<le> ?C 7 2 \<and>
            ?C 7 2 \<le> 133936367703356995 / 144115188075855872"
    by (rule cos_interval_step[where j = 6 and k' = 3 and d = 30
          and lo = "554324148239416541 / 576460752303423488"
          and hi = "277162074119708271 / 288230376151711744",
          OF _ _ _ _ conjunct1[OF c3] conjunct2[OF c3]])
       (simp_all add: power_divide)
  have c1: "956168145399612049 / 1152921504606846976 \<le> ?C 8 1 \<and>
            ?C 8 1 \<le> 478084072699806025 / 576460752303423488"
    by (rule cos_interval_step[where j = 7 and k' = 2 and d = 12
          and lo = "1071490941626855959 / 1152921504606846976"
          and hi = "133936367703356995 / 144115188075855872",
          OF _ _ _ _ conjunct1[OF c2] conjunct2[OF c2]])
       (simp_all add: power_divide)
  have c0: "49729389678873013 / 576460752303423488 \<le> ?C 9 0 \<and>
            ?C 9 0 \<le> 24864694839436507 / 288230376151711744"
    by (rule cos_interval_step[where j = 8 and k' = 1 and d = 2
          and lo = "956168145399612049 / 1152921504606846976"
          and hi = "478084072699806025 / 576460752303423488",
          OF _ _ _ _ conjunct1[OF c1] conjunct2[OF c1]])
       (simp_all add: power_divide)
  have t: "\<bar>cos ?a - ?C 9 0\<bar> \<le> \<bar>?a\<bar> ^ 18 / fact 18"
    by (rule cos_taylor18)
  have "\<bar>?a\<bar> ^ 18 \<le> (3 / 2) ^ 18"
    by (rule power_mono) simp_all
  then have "\<bar>?a\<bar> ^ 18 / fact 18 \<le> (3 / 2) ^ 18 / fact 18"
    by (rule divide_right_mono) simp
  also have "\<dots> \<le> 266135 / 1152921504606846976"
    by (simp add: fact_numeral power_divide)
  finally have r: "\<bar>?a\<bar> ^ 18 / fact 18 \<le> 266135 / 1152921504606846976" .
  have lo: "(6216173709842493 / 72057594037927936 :: real)
            \<le> 49729389678873013 / 576460752303423488 - 266135 / 1152921504606846976"
    by simp
  have hi: "(24864694839436507 / 288230376151711744 :: real) + 266135 / 1152921504606846976
            \<le> 6216173709875761 / 72057594037927936"
    by simp
  show "6216173709842493 / 72057594037927936 \<le> cos ?a"
    using conjunct1[OF c0] t r lo by linarith
  show "cos ?a \<le> 6216173709875761 / 72057594037927936"
    using conjunct2[OF c0] t r hi by linarith
qed

text \<open>
  \<open>exp Math.PI\<close> is the eighth power of \<open>exp (Math.PI / 8)\<close>, which twelve terms of the
  series give to eleven digits.
\<close>

lemma exp_Math_PI:
  "3256762959939487 / 140737488355328 \<le> exp Math_PI"
  "exp Math_PI \<le> 407095369992667 / 17592186044416"
proof -
  let ?x = "884279719003555 / 2251799813685248 :: real"
  let ?E = "\<lambda>(j::nat) (k::nat). \<Sum>m<j. ?x ^ m * (fact k / fact (m + k))"
  have e11: "1 \<le> ?E 1 11 \<and> ?E 1 11 \<le> 1"
    by simp
  have e10: "1194080706073194263 / 1152921504606846976 \<le> ?E 2 10 \<and>
            ?E 2 10 \<le> 149260088259149283 / 144115188075855872"
    by (rule exp_interval_step[where j = 1 and k' = 11
          and lo = "1"
          and hi = "1",
          OF _ _ _ conjunct1[OF e11] conjunct2[OF e11]])
       simp_all
  have e9: "1199812944281757727 / 1152921504606846976 \<le> ?E 3 9 \<and>
            ?E 3 9 \<le> 1199812944281757729 / 1152921504606846976"
    by (rule exp_interval_step[where j = 2 and k' = 10
          and lo = "1194080706073194263 / 1152921504606846976"
          and hi = "149260088259149283 / 144115188075855872",
          OF _ _ _ conjunct1[OF e10] conjunct2[OF e10]])
       simp_all
  have e8: "1205273220321256835 / 1152921504606846976 \<le> ?E 4 8 \<and>
            ?E 4 8 \<le> 301318305080314209 / 288230376151711744"
    by (rule exp_interval_step[where j = 3 and k' = 9
          and lo = "1199812944281757727 / 1152921504606846976"
          and hi = "1199812944281757729 / 1152921504606846976",
          OF _ _ _ conjunct1[OF e9] conjunct2[OF e9]])
       simp_all
  have e7: "1212085215458874673 / 1152921504606846976 \<le> ?E 5 7 \<and>
            ?E 5 7 \<le> 606042607729437337 / 576460752303423488"
    by (rule exp_interval_step[where j = 4 and k' = 8
          and lo = "1205273220321256835 / 1152921504606846976"
          and hi = "301318305080314209 / 288230376151711744",
          OF _ _ _ conjunct1[OF e8] conjunct2[OF e8]])
       simp_all
  have e6: "610459663092802079 / 576460752303423488 \<le> ?E 6 6 \<and>
            ?E 6 6 \<le> 1220919326185604159 / 1152921504606846976"
    by (rule exp_interval_step[where j = 5 and k' = 7
          and lo = "1212085215458874673 / 1152921504606846976"
          and hi = "606042607729437337 / 576460752303423488",
          OF _ _ _ conjunct1[OF e7] conjunct2[OF e7]])
       simp_all
  have e5: "616415243821866137 / 576460752303423488 \<le> ?E 7 5 \<and>
            ?E 7 5 \<le> 308207621910933069 / 288230376151711744"
    by (rule exp_interval_step[where j = 6 and k' = 6
          and lo = "610459663092802079 / 576460752303423488"
          and hi = "1220919326185604159 / 1152921504606846976",
          OF _ _ _ conjunct1[OF e6] conjunct2[OF e6]])
       simp_all
  have e4: "312436946171105941 / 288230376151711744 \<le> ?E 8 4 \<and>
            ?E 8 4 \<le> 1249747784684423765 / 1152921504606846976"
    by (rule exp_interval_step[where j = 7 and k' = 5
          and lo = "616415243821866137 / 576460752303423488"
          and hi = "308207621910933069 / 288230376151711744",
          OF _ _ _ conjunct1[OF e5] conjunct2[OF e5]])
       simp_all
  have e3: "19931487600890531 / 18014398509481984 \<le> ?E 9 3 \<and>
            ?E 9 3 \<le> 1275615206456993985 / 1152921504606846976"
    by (rule exp_interval_step[where j = 8 and k' = 4
          and lo = "312436946171105941 / 288230376151711744"
          and hi = "1249747784684423765 / 1152921504606846976",
          OF _ _ _ conjunct1[OF e4] conjunct2[OF e4]])
       simp_all
  have e2: "1319899144665710289 / 1152921504606846976 \<le> ?E 10 2 \<and>
            ?E 10 2 \<le> 659949572332855145 / 576460752303423488"
    by (rule exp_interval_step[where j = 9 and k' = 3
          and lo = "19931487600890531 / 18014398509481984"
          and hi = "1275615206456993985 / 1152921504606846976",
          OF _ _ _ conjunct1[OF e3] conjunct2[OF e3]])
       simp_all
  have e1: "706041547814712457 / 576460752303423488 \<le> ?E 11 1 \<and>
            ?E 11 1 \<le> 1412083095629424915 / 1152921504606846976"
    by (rule exp_interval_step[where j = 10 and k' = 2
          and lo = "1319899144665710289 / 1152921504606846976"
          and hi = "659949572332855145 / 576460752303423488",
          OF _ _ _ conjunct1[OF e2] conjunct2[OF e2]])
       simp_all
  have e0: "853722619771406901 / 576460752303423488 \<le> ?E 12 0 \<and>
            ?E 12 0 \<le> 1707445239542813803 / 1152921504606846976"
    by (rule exp_interval_step[where j = 11 and k' = 1
          and lo = "706041547814712457 / 576460752303423488"
          and hi = "1412083095629424915 / 1152921504606846976",
          OF _ _ _ conjunct1[OF e1] conjunct2[OF e1]])
       simp_all
  have s: "?E 12 0 = (\<Sum>m<12. ?x ^ m / fact m)"
    by simp
  have x: "0 \<le> ?x" "?x \<le> 1" by simp_all
  have "?x ^ 12 \<le> (2 / 5) ^ 12"
    by (rule power_mono) simp_all
  then have "3 * ?x ^ 12 / fact 12 \<le> 3 * (2 / 5) ^ 12 / fact 12"
    by (intro divide_right_mono mult_left_mono) simp_all
  also have "\<dots> \<le> 121145 / 1152921504606846976"
    by (simp add: fact_numeral power_divide)
  finally have r: "3 * ?x ^ 12 / fact 12 \<le> 121145 / 1152921504606846976" .
  have hi: "(1707445239542813803 / 1152921504606846976 :: real) + 121145 / 1152921504606846976
            \<le> 426861309885733737 / 288230376151711744"
    by simp
  have l8: "853722619771406901 / 576460752303423488 \<le> exp ?x"
    using conjunct1[OF e0] exp_taylor12(1)[OF x] unfolding s by linarith
  have h8: "exp ?x \<le> 426861309885733737 / 288230376151711744"
    using conjunct2[OF e0] exp_taylor12(2)[OF x] r hi unfolding s by linarith
  have p: "exp Math_PI = exp ?x ^ 8"
    using exp_of_nat_mult[of 8 ?x] by (simp add: Math_PI_def)
  have "(3256762959939487 / 140737488355328 :: real) \<le> (853722619771406901 / 576460752303423488) ^ 8"
    by (simp add: power_divide)
  also have "\<dots> \<le> exp ?x ^ 8"
    by (rule power_mono[OF l8]) simp
  finally show "3256762959939487 / 140737488355328 \<le> exp Math_PI" unfolding p .
  have "exp ?x ^ 8 \<le> (426861309885733737 / 288230376151711744) ^ 8"
    by (rule power_mono[OF h8]) simp
  also have "\<dots> \<le> 407095369992667 / 17592186044416"
    by (simp add: power_divide)
  finally show "exp Math_PI \<le> 407095369992667 / 17592186044416" unfolding p .
qed

subsection \<open>Thresholds of the exponential\<close>

text \<open>
  \<open>Math.log\<close> is compared with \<open>\<plusminus>Math.PI\<close> through its argument: the argument is
  compared with doubles on the right side of \<open>exp (\<plusminus>Math.PI)\<close>.
\<close>

lemma exp_small:
  fixes x :: real
  assumes "0 \<le> x" and "x \<le> 1"
  shows "1 + x \<le> exp x" and "exp x \<le> 1 + 2 * x"
proof -
  show "1 + x \<le> exp x" by (rule exp_ge_add_one_self)
  have "exp x \<le> 1 + x + x\<^sup>2" by (rule exp_bound[OF assms])
  moreover have "x\<^sup>2
        \<le> x * 1" unfolding power2_eq_square using assms by (intro mult_left_mono) simp_all
  ultimately show "exp x \<le> 1 + 2 * x" by simp
qed

lemma exp_threshold_a: "25443473323663 / 1099511627776 \<le> exp (Math_PI + 1 / 2 ^ 20)"
proof -
  have "(25443473323663 / 1099511627776 :: real) \<le> 3256762959939487 / 140737488355328
        * (1 + 1 / 2 ^ 20)" by simp
  also have "\<dots> \<le> exp Math_PI * exp (1 / 2 ^ 20)"
    using exp_Math_PI(1) exp_small(1)[of "1 / 2 ^ 20"] by (intro mult_mono) simp_all
  finally show ?thesis by (simp add: exp_add)
qed

lemma exp_threshold_b: "exp (- (Math_PI + 1 / 2 ^ 21)) \<le> 12163633465893 / 281474976710656"
proof -
  have "1 / (12163633465893 / 281474976710656 :: real)
        \<le> 3256762959939487 / 140737488355328 * (1 + 1 / 2 ^ 21)" by simp
  also have "\<dots> \<le> exp Math_PI * exp (1 / 2 ^ 21)"
    using exp_Math_PI(1) exp_small(1)[of "1 / 2 ^ 21"] by (intro mult_mono) simp_all
  finally have "1 / (12163633465893 / 281474976710656 :: real)
        \<le> exp (Math_PI + 1 / 2 ^ 21)" by (simp add: exp_add)
  then have "1 / exp (Math_PI + 1 / 2 ^ 21)
        \<le> 1 / (1 / (12163633465893 / 281474976710656 :: real))"
    by (intro divide_left_mono) simp_all
  also have "\<dots> = 12163633465893 / 281474976710656" by simp
  finally show ?thesis by (simp only: exp_minus inverse_eq_divide)
qed

lemma exp_threshold_c: "exp (Math_PI + 1 / 2 ^ 38) \<le> 50886922382615 / 2199023255552"
proof -
  have "exp Math_PI * exp (1 / 2 ^ 38) \<le> 407095369992667 / 17592186044416 * (1 + 2
        * (1 / 2 ^ 38))"
    using exp_Math_PI(2) exp_small(2)[of "1 / 2 ^ 38"] by (intro mult_mono) simp_all
  also have "\<dots> \<le> 50886922382615 / 2199023255552" by simp
  finally show ?thesis by (simp add: exp_add)
qed

lemma exp_threshold_d: "778472727421509 / 18014398509481984 \<le> exp (- Math_PI)"
proof -
  have "(778472727421509 / 18014398509481984 :: real)
        \<le> 1 / (407095369992667 / 17592186044416)" by simp
  also have "\<dots> \<le> 1 / exp Math_PI"
    using exp_Math_PI(2) by (intro divide_left_mono) simp_all
  finally show ?thesis by (simp add: exp_minus inverse_eq_divide)
qed

lemma exp_threshold_e: "50886920838253 / 2199023255552 \<le> exp Math_PI"
proof -
  have "(50886920838253 / 2199023255552 :: real) \<le> 3256762959939487 / 140737488355328" by simp
  then show ?thesis using exp_Math_PI(1) by linarith
qed

lemma exp_threshold_f: "exp (- (Math_PI - 1 / 2 ^ 27)) \<le> 194618189211089 / 4503599627370496"
proof -
  have e: "exp (- (Math_PI - 1 / 2 ^ 27)) = exp (1 / 2 ^ 27) / exp Math_PI"
    using exp_diff[of "1 / 2 ^ 27" Math_PI] by simp
  have "exp (1 / 2 ^ 27) / exp Math_PI \<le> (1 + 2
        * (1 / 2 ^ 27)) / (3256762959939487 / 140737488355328)"
    using exp_Math_PI(1) exp_small(2)[of "1 / 2 ^ 27"] by (intro frac_le) simp_all
  also have "\<dots> \<le> 194618189211089 / 4503599627370496" by simp
  finally show ?thesis unfolding e .
qed

subsection \<open>The cosine of the latitude in radians\<close>

lemma cos_ge_of_abs_le:
  fixes a b :: real
  assumes "\<bar>a\<bar> \<le> b" and "b \<le> 2"
  shows "cos b \<le> cos a"
proof -
  have "cos b \<le> cos \<bar>a\<bar>"
    using assms pi_ge_two by (intro cos_monotone_0_pi_le) simp_all
  then show ?thesis by simp
qed

lemma cos_latRad_valid:
  assumes "\<bar>lat\<bar> \<le> latitude_limit"
  shows "6216173333956339 / 72057594037927936 \<le> cos (dbl (dbl (lat * Math_PI) / 180))"
proof -
  have "cos (6685243418049343 / 4503599627370496) \<le> cos (dbl (dbl (lat * Math_PI) / 180))"
    using latRad_abs_le[OF assms] unfolding latRad_limit
    by (rule cos_ge_of_abs_le) simp
  then show ?thesis using cos_latRad_limit(1) by linarith
qed

lemma cos_latRad_in:
  assumes "\<bar>lat\<bar> \<le> 850511287 / 10000000"
  shows "6216173709842493 / 72057594037927936 \<le> cos (dbl (dbl (lat * Math_PI) / 180))"
proof -
  have "cos (6685243394468551 / 4503599627370496) \<le> cos (dbl (dbl (lat * Math_PI) / 180))"
    using latRad_abs_le[OF assms] unfolding latRad_inner
    by (rule cos_ge_of_abs_le) simp
  then show ?thesis using cos_latRad_inner(1) by linarith
qed

subsection \<open>The argument of \<open>Math.log\<close>\<close>

text \<open>
  The value \<open>Math.tan(latRad) + 1 / Math.cos(latRad)\<close>, for every latitude that
  \<open>isValidBounds\<close> accepts, for every latitude within \<open>\<plusminus>85.0511287\<close>, and at the two limits.
\<close>

lemma dbl_thresholds:
  "dbl (25443473323663 / 1099511627776) = 25443473323663 / 1099511627776"
  "dbl (12163633465893 / 281474976710656) = 12163633465893 / 281474976710656"
  "dbl (50886922382615 / 2199023255552) = 50886922382615 / 2199023255552"
  "dbl (778472727421509 / 18014398509481984) = 778472727421509 / 18014398509481984"
  "dbl (50886920838253 / 2199023255552) = 50886920838253 / 2199023255552"
  "dbl (194618189211089 / 4503599627370496) = 194618189211089 / 4503599627370496"
       apply (rule dbl_repr[where m = 25443473323663 and k = "- 40"]; simp add: pow2_def)
      apply (rule dbl_repr[where m = 12163633465893 and k = "- 48"]; simp add: pow2_def)
     apply (rule dbl_repr[where m = 50886922382615 and k = "- 41"]; simp add: pow2_def)
    apply (rule dbl_repr[where m = 778472727421509 and k = "- 54"]; simp add: pow2_def)
   apply (rule dbl_repr[where m = 50886920838253 and k = "- 41"]; simp add: pow2_def)
  apply (rule dbl_repr[where m = 194618189211089 and k = "- 52"]; simp add: pow2_def)
  done

lemma log_argument_valid:
  assumes "\<bar>lat\<bar> \<le> latitude_limit"
  defines "a \<equiv> dbl (dbl (lat * Math_PI) / 180)"
  shows "12163633465893 / 281474976710656 \<le> dbl (Math_tan a + dbl (1 / Math_cos a))"
    and "dbl (Math_tan a + dbl (1 / Math_cos a)) \<le> 25443473323663 / 1099511627776"
proof -
  have c: "(0::real) < 6216173333956339 / 72057594037927936"
    "6216173333956339 / 72057594037927936 \<le> cos a"
    using cos_latRad_valid[OF assms(1)] unfolding a_def by simp_all
  have u: "1 - (6216173333956339 / 72057594037927936 :: real)\<^sup>2
        \<le> (71788968843528027 / 72057594037927936)\<^sup>2"
    "(0::real) \<le> 71788968843528027 / 72057594037927936"
    by (simp_all add: power_divide)
  have "(12163633465893 / 281474976710656 :: real)
        \<le> 6216173333956339 / 72057594037927936 / (1 + 71788968843528027 / 72057594037927936)
        - (1 / 2 ^ 50) / (6216173333956339 / 72057594037927936)"
    by simp
  also have "\<dots> \<le> Math_tan a + dbl (1 / Math_cos a)" by (rule trig_L[OF c u])
  finally show "12163633465893 / 281474976710656 \<le> dbl (Math_tan a + dbl (1 / Math_cos a))"
    using dbl_mono[of "12163633465893 / 281474976710656" "Math_tan a + dbl (1 / Math_cos a)"] unfolding dbl_thresholds by simp
  have "Math_tan a + dbl (1 / Math_cos a)
        \<le> (71788968843528027 / 72057594037927936 + 1) / (6216173333956339 / 72057594037927936)
        * (1 + 1 / 2 ^ 50)"
    by (rule trig_U[OF c u])
  also have "\<dots> \<le> 25443473323663 / 1099511627776" by simp
  finally show "dbl (Math_tan a + dbl (1 / Math_cos a)) \<le> 25443473323663 / 1099511627776"
    using dbl_mono[of "Math_tan a + dbl (1 / Math_cos a)" "25443473323663 / 1099511627776"] unfolding dbl_thresholds by simp
qed

lemma log_argument_in:
  assumes "\<bar>lat\<bar> \<le> 850511287 / 10000000"
  defines "a \<equiv> dbl (dbl (lat * Math_PI) / 180)"
  shows "194618189211089 / 4503599627370496 \<le> dbl (Math_tan a + dbl (1 / Math_cos a))"
    and "dbl (Math_tan a + dbl (1 / Math_cos a)) \<le> 50886920838253 / 2199023255552"
proof -
  have c: "(0::real) < 6216173709842493 / 72057594037927936"
    "6216173709842493 / 72057594037927936 \<le> cos a"
    using cos_latRad_in[OF assms(1)] unfolding a_def by simp_all
  have u: "1 - (6216173709842493 / 72057594037927936 :: real)\<^sup>2
        \<le> (17947242202745055 / 18014398509481984)\<^sup>2"
    "(0::real) \<le> 17947242202745055 / 18014398509481984"
    by (simp_all add: power_divide)
  have "(194618189211089 / 4503599627370496 :: real)
        \<le> 6216173709842493 / 72057594037927936 / (1 + 17947242202745055 / 18014398509481984)
        - (1 / 2 ^ 50) / (6216173709842493 / 72057594037927936)"
    by simp
  also have "\<dots> \<le> Math_tan a + dbl (1 / Math_cos a)" by (rule trig_L[OF c u])
  finally show "194618189211089 / 4503599627370496 \<le> dbl (Math_tan a + dbl (1 / Math_cos a))"
    using dbl_mono[of "194618189211089 / 4503599627370496" "Math_tan a + dbl (1 / Math_cos a)"] unfolding dbl_thresholds by simp
  have "Math_tan a + dbl (1 / Math_cos a)
        \<le> (17947242202745055 / 18014398509481984 + 1) / (6216173709842493 / 72057594037927936)
        * (1 + 1 / 2 ^ 50)"
    by (rule trig_U[OF c u])
  also have "\<dots> \<le> 50886920838253 / 2199023255552" by simp
  finally show "dbl (Math_tan a + dbl (1 / Math_cos a)) \<le> 50886920838253 / 2199023255552"
    using dbl_mono[of "Math_tan a + dbl (1 / Math_cos a)" "50886920838253 / 2199023255552"] unfolding dbl_thresholds by simp
qed

lemma sin_latRad_limit: "0 \<le> sin (6685243418049343 / 4503599627370496 :: real)"
  using pi_ge_two by (intro sin_ge_zero) simp_all

lemma log_argument_north:
  defines "a \<equiv> dbl (dbl (latitude_limit * Math_PI) / 180)"
  shows "50886922382615 / 2199023255552 \<le> dbl (Math_tan a + dbl (1 / Math_cos a))"
proof -
  have a: "a = 6685243418049343 / 4503599627370496" unfolding a_def by (rule latRad_limit)
  have c: "0 < cos a"
    "cos a \<le> 6216173333989607 / 72057594037927936"
    using cos_latRad_limit unfolding a by simp_all
  have u: "(35894484421762573 / 36028797018963968 :: real)\<^sup>2
        \<le> 1 - (6216173333989607 / 72057594037927936)\<^sup>2"
    "(0::real) \<le> 35894484421762573 / 36028797018963968"
    by (simp_all add: power_divide)
  have sn: "0 \<le> sin a" unfolding a by (rule sin_latRad_limit)
  have "(50886922382615 / 2199023255552 :: real)
        \<le> (35894484421762573 / 36028797018963968 + 1) / (6216173333989607 / 72057594037927936)
        * (1 - 1 / 2 ^ 50)"
    by simp
  also have "\<dots> \<le> Math_tan a + dbl (1 / Math_cos a)" by (rule trig_Lp[OF c u sn])
  finally show ?thesis
    using dbl_mono[of "50886922382615 / 2199023255552" "Math_tan a + dbl (1 / Math_cos a)"] unfolding dbl_thresholds by simp
qed

lemma log_argument_south:
  defines "a \<equiv> dbl (dbl (- latitude_limit * Math_PI) / 180)"
  shows "dbl (Math_tan a + dbl (1 / Math_cos a)) \<le> 778472727421509 / 18014398509481984"
proof -
  have a: "a = - (6685243418049343 / 4503599627370496)" unfolding a_def latRad_minus latRad_limit ..
  have c: "(0::real) < 6216173333956339 / 72057594037927936"
    "6216173333956339 / 72057594037927936 \<le> cos a"
    "cos a \<le> 6216173333989607 / 72057594037927936"
    using cos_latRad_limit unfolding a by simp_all
  have u: "(35894484421762573 / 36028797018963968 :: real)\<^sup>2
        \<le> 1 - (6216173333989607 / 72057594037927936)\<^sup>2"
    "(0::real) \<le> 35894484421762573 / 36028797018963968"
    by (simp_all add: power_divide)
  have sn: "sin a \<le> 0" unfolding a using sin_latRad_limit by simp
  have "Math_tan a + dbl (1 / Math_cos a)
        \<le> 6216173333989607 / 72057594037927936 / (1 + 35894484421762573 / 36028797018963968)
        + (1 / 2 ^ 50) / (6216173333956339 / 72057594037927936)"
    by (rule trig_Um[OF c u sn])
  also have "\<dots> \<le> 778472727421509 / 18014398509481984" by simp
  finally show ?thesis
    using dbl_mono[of "Math_tan a + dbl (1 / Math_cos a)" "778472727421509 / 18014398509481984"] unfolding dbl_thresholds by simp
qed

subsection \<open>Range of the row\<close>

text \<open>
  For every latitude that \<open>isValidBounds\<close> accepts the row lies in \<open>[-1, 2^z]\<close> up to zoom
  22; within \<open>\<plusminus>85.0511287\<close> it lies in \<open>[0, 2^z - 1]\<close>; at the constant 85.051129 itself it is
  \<open>-1\<close>, and at -85.051129 it is \<open>2^z\<close>.
\<close>

lemma tile_y_valid:
  assumes lat: "\<bar>lat\<bar> \<le> latitude_limit" and z: "0 \<le> z" "z \<le> 22"
  shows "- 1 \<le> tile_y (latLngToTile lat lng z)"
    and "tile_y (latLngToTile lat lng z) \<le> 2 ^ nat z"
proof -
  define s where "s = dbl (Math_tan (dbl (dbl (lat * Math_PI) / 180))
                         + dbl (1 / Math_cos (dbl (dbl (lat * Math_PI) / 180))))"
  have s: "12163633465893 / 281474976710656 \<le> s" "s \<le> 25443473323663 / 1099511627776"
    unfolding s_def by (rule log_argument_valid[OF lat])+
  have s0: "0 < s" using s(1) by simp
  have up: "Math_log s \<le> Math_PI + 1 / 2 ^ 20"
    using s(2) exp_threshold_a by (intro Math_log_le[OF s0] dbl_Math_PI_plus) simp
  have lo: "- (Math_PI + 1 / 2 ^ 21) \<le> Math_log s"
    using s(1) exp_threshold_b
    by (intro Math_log_ge[OF s0] dbl_uminus_fix dbl_Math_PI_plus) simp
  show "- 1 \<le> tile_y (latLngToTile lat lng z)"
    unfolding tile_y_latLngToTile s_def[symmetric] by (rule tail_a[OF up z(2)])
  show "tile_y (latLngToTile lat lng z) \<le> 2 ^ nat z"
    unfolding tile_y_latLngToTile s_def[symmetric] by (rule tail_b[OF lo z])
qed

lemma tile_y_in:
  assumes lat: "\<bar>lat\<bar> \<le> 850511287 / 10000000" and z: "0 \<le> z"
  shows "0 \<le> tile_y (latLngToTile lat lng z)"
    and "tile_y (latLngToTile lat lng z) \<le> 2 ^ nat z - 1"
proof -
  define s where "s = dbl (Math_tan (dbl (dbl (lat * Math_PI) / 180))
                         + dbl (1 / Math_cos (dbl (dbl (lat * Math_PI) / 180))))"
  have s: "194618189211089 / 4503599627370496 \<le> s" "s \<le> 50886920838253 / 2199023255552"
    unfolding s_def by (rule log_argument_in[OF lat])+
  have s0: "0 < s" using s(1) by simp
  have up: "Math_log s \<le> Math_PI"
    using s(2) exp_threshold_e by (intro Math_log_le[OF s0] dbl_Math_PI_plus) simp
  have lo: "- (Math_PI - 1 / 2 ^ 27) \<le> Math_log s"
    using s(1) exp_threshold_f
    by (intro Math_log_ge[OF s0] dbl_uminus_fix dbl_Math_PI_plus) simp
  show "0 \<le> tile_y (latLngToTile lat lng z)"
    unfolding tile_y_latLngToTile s_def[symmetric] by (rule tail_e[OF up])
  show "tile_y (latLngToTile lat lng z) \<le> 2 ^ nat z - 1"
    unfolding tile_y_latLngToTile s_def[symmetric] by (rule tail_f[OF lo z])
qed

lemma latitude_limit_pos: "0 \<le> latitude_limit"
  by (simp add: latitude_limit)

lemma tile_y_north_limit:
  assumes z: "0 \<le> z" "z \<le> 22"
  shows "tile_y (latLngToTile latitude_limit lng z) = - 1"
proof -
  define s where "s = dbl (Math_tan (dbl (dbl (latitude_limit * Math_PI) / 180))
                         + dbl (1 / Math_cos (dbl (dbl (latitude_limit * Math_PI) / 180))))"
  have s: "50886922382615 / 2199023255552 \<le> s" unfolding s_def by (rule log_argument_north)
  have s0: "0 < s" using s by simp
  have lo: "Math_PI + 1 / 2 ^ 38 \<le> Math_log s"
    using s exp_threshold_c by (intro Math_log_ge[OF s0] dbl_Math_PI_plus) simp
  have "tile_y (latLngToTile latitude_limit lng z) \<le> - 1"
    unfolding tile_y_latLngToTile s_def[symmetric] by (rule tail_c[OF lo])
  moreover have "- 1 \<le> tile_y (latLngToTile latitude_limit lng z)"
    using latitude_limit_pos by (intro tile_y_valid(1) z) simp
  ultimately show ?thesis by simp
qed

lemma tile_y_south_limit:
  assumes z: "0 \<le> z" "z \<le> 22"
  shows "tile_y (latLngToTile (- latitude_limit) lng z) = 2 ^ nat z"
proof -
  define s where "s = dbl (Math_tan (dbl (dbl (- latitude_limit * Math_PI) / 180))
                         + dbl (1 / Math_cos (dbl (dbl (- latitude_limit * Math_PI) / 180))))"
  have v: "\<bar>- latitude_limit\<bar> \<le> latitude_limit" using latitude_limit_pos by simp
  have s: "s \<le> 778472727421509 / 18014398509481984" unfolding s_def by (rule log_argument_south)
  have "12163633465893 / 281474976710656
        \<le> s" unfolding s_def by (rule log_argument_valid(1)[OF v])
  then have s0: "0 < s" by simp
  have up: "Math_log s \<le> - Math_PI"
    using s exp_threshold_d by (intro Math_log_le[OF s0] dbl_uminus_fix dbl_Math_PI_plus) simp
  have "2 ^ nat z \<le> tile_y (latLngToTile (- latitude_limit) lng z)"
    unfolding tile_y_latLngToTile s_def[symmetric] by (rule tail_d[OF up z(1)])
  moreover have "tile_y (latLngToTile (- latitude_limit) lng z) \<le> 2 ^ nat z"
    by (rule tile_y_valid(2)[OF v z])
  ultimately show ?thesis by simp
qed

subsection \<open>Range of the tile rectangle\<close>

text \<open>
  On an object of four numbers \<open>isValidBounds\<close> is the predicate on the box of these
  numbers. An object with a \<open>NaN\<close> coordinate passes it too; its tile range is \<open>NaN\<close> on that
  axis, and it is left out of what follows.
\<close>

lemma isValidBounds_object_numbers:
  "isValidBounds_object \<lparr>object_north = Number n, object_south = Number s,
                          object_east = Number e, object_west = Number w\<rparr>
     = isValidBounds \<lparr>north = n, south = s, east = e, west = w\<rparr>"
  by (simp add: isValidBounds_object_def isValidBounds_def)

lemma isValidBounds_object_box:
  assumes "numbers bounds = Some box"
  shows "isValidBounds_object bounds = isValidBounds box"
proof -
  from assms obtain n s e w where
    "object_north bounds = Number n" "object_south bounds = Number s"
    "object_east bounds = Number e" "object_west bounds = Number w"
    and "box = \<lparr>north = n, south = s, east = e, west = w\<rparr>"
    by (auto simp: numbers_def split: number.splits)
  then show ?thesis
    by (simp add: isValidBounds_object_def isValidBounds_def)
qed

lemma isValidBounds_object_NaN:
  "isValidBounds_object
     \<lparr>object_north = NaN, object_south = Number 0, object_east = NaN, object_west = Number 0\<rparr>"
  "numbers
     \<lparr>object_north = NaN, object_south = Number 0, object_east = NaN, object_west = Number 0\<rparr> = None"
  by (simp_all add: isValidBounds_object_def numbers_def latitude_limit)

text \<open>
  Claim C2 states that for every bounds box accepted by \<open>isValidBounds\<close> and every zoom in
  \<open>[0, 22]\<close> the four values of the tile range lie in \<open>[0, 2^z - 1]\<close>, also at east = 180 and
  at south = -85.051129. The source does not clamp: longitude 180 maps to the column \<open>2^z\<close>,
  and the constant 85.051129 lies beyond the latitude \<open>arctan (sinh \<pi>)\<close> = 85.0511287798...
  at which the Mercator ordinate is \<open>\<pi>\<close>, so latitude 85.051129 maps to the row \<open>-1\<close> and
  latitude -85.051129 to the row \<open>2^z\<close>. At zoom 0 the valid box north 85.051129,
  south -85.051129, east 180, west 0 has \<open>maxX = 1\<close>, \<open>minY = -1\<close> and \<open>maxY = 1\<close>, all outside
  \<open>[0, 0]\<close>.
\<close>

theorem getTileBounds_limits_counterexample:
  "isValidBounds_object \<lparr>object_north = Number latitude_limit, object_south = Number (- latitude_limit),
                          object_east = Number 180, object_west = Number 0\<rparr> \<and>
   numbers \<lparr>object_north = Number latitude_limit, object_south = Number (- latitude_limit),
            object_east = Number 180, object_west = Number 0\<rparr>
     = Some \<lparr>north = latitude_limit, south = - latitude_limit, east = 180, west = 0\<rparr> \<and>
   (0::int) \<le> 0 \<and> (0::int) \<le> 22 \<and>
   maxX (getTileBounds \<lparr>north = latitude_limit, south = - latitude_limit, east = 180, west = 0\<rparr> 0) = 1 \<and>
   minY (getTileBounds \<lparr>north = latitude_limit, south = - latitude_limit, east = 180, west = 0\<rparr> 0) = - 1 \<and>
   maxY (getTileBounds \<lparr>north = latitude_limit, south = - latitude_limit, east = 180, west = 0\<rparr> 0) = 1 \<and>
   \<not> maxX (getTileBounds \<lparr>north = latitude_limit, south = - latitude_limit, east = 180, west = 0\<rparr> 0)
       \<le> 2 ^ nat 0 - 1 \<and>
   \<not> 0 \<le> minY (getTileBounds \<lparr>north = latitude_limit, south = - latitude_limit, east = 180, west = 0\<rparr> 0) \<and>
   \<not> maxY (getTileBounds \<lparr>north = latitude_limit, south = - latitude_limit, east = 180, west = 0\<rparr> 0)
       \<le> 2 ^ nat 0 - 1"
proof -
  let ?o = "\<lparr>object_north = Number latitude_limit, object_south = Number (- latitude_limit),
            object_east = Number 180, object_west = Number 0\<rparr>"
  let ?b = "\<lparr>north = latitude_limit, south = - latitude_limit, east = 180, west = 0\<rparr>"
  have v: "isValidBounds_object ?o"
    by (simp add: isValidBounds_object_def latitude_limit)
  have n: "numbers ?o = Some ?b"
    by (simp add: numbers_def)
  have xw: "tile_x (latLngToTile latitude_limit 0 0) = 0"
    using tile_x_nonneg[of 0 latitude_limit 0] tile_x_strict[of 0 0 latitude_limit] by simp
  have xe: "tile_x (latLngToTile (- latitude_limit) 180 0) = 1"
    using tile_x_180[of 0 "- latitude_limit"] by simp
  have yn: "tile_y (latLngToTile latitude_limit 0 0) = - 1"
    by (rule tile_y_north_limit) simp_all
  have ys: "tile_y (latLngToTile (- latitude_limit) 180 0) = 1"
    using tile_y_south_limit[of 0 180] by simp
  have tb: "getTileBounds ?b 0 = \<lparr>minX = 0, maxX = 1, minY = - 1, maxY = 1, bounds_z = 0\<rparr>"
    by (simp add: getTileBounds_def Let_def xw xe yn ys)
  show ?thesis unfolding tb using v n by simp
qed

text \<open>
  Claim C2, amended. For every bounds object of four numbers other than \<open>NaN\<close> that
  \<open>isValidBounds\<close> accepts and every zoom \<open>z\<close> in \<open>[0, 22]\<close>, the tile range of \<open>getTileBounds\<close>
  satisfies \<open>minX \<le> maxX\<close>, \<open>minY \<le> maxY\<close>, \<open>0 \<le> minX\<close>, \<open>maxX \<le> 2^z\<close>, \<open>-1 \<le> minY\<close> and
  \<open>maxY \<le> 2^z\<close>; \<open>maxX \<le> 2^z - 1\<close> when both longitudes are at most \<open>180 - 2^-44\<close>, the
  second double below 180 (179.99999999999994); and \<open>minY\<close>, \<open>maxY\<close> lie in \<open>[0, 2^z - 1]\<close>
  when both latitudes are within \<open>\<plusminus>85.0511287\<close>.
\<close>

theorem getTileBounds_range:
  assumes o: "numbers object = Some bounds" and v: "isValidBounds_object object"
    and z0: "0 \<le> z" and z22: "z \<le> 22"
  shows "minX (getTileBounds bounds z) \<le> maxX (getTileBounds bounds z) \<and>
         minY (getTileBounds bounds z) \<le> maxY (getTileBounds bounds z) \<and>
         0 \<le> minX (getTileBounds bounds z) \<and>
         maxX (getTileBounds bounds z) \<le> 2 ^ nat z \<and>
         - 1 \<le> minY (getTileBounds bounds z) \<and>
         maxY (getTileBounds bounds z) \<le> 2 ^ nat z \<and>
         (east bounds \<le> 180 - 1 / 2 ^ 44 \<and> west bounds \<le> 180 - 1 / 2 ^ 44 \<longrightarrow>
            maxX (getTileBounds bounds z) \<le> 2 ^ nat z - 1) \<and>
         (\<bar>north bounds\<bar> \<le> 850511287 / 10000000 \<and> \<bar>south bounds\<bar> \<le> 850511287 / 10000000 \<longrightarrow>
            0 \<le> minY (getTileBounds bounds z) \<and>
            maxY (getTileBounds bounds z) \<le> 2 ^ nat z - 1)"
proof -
  have b: "isValidBounds bounds"
    using isValidBounds_object_box[OF o] v by simp
  have e: "- 180 \<le> east bounds" "east bounds \<le> 180"
    and w: "- 180 \<le> west bounds" "west bounds \<le> 180"
    and n: "\<bar>north bounds\<bar> \<le> latitude_limit" and s: "\<bar>south bounds\<bar> \<le> latitude_limit"
    using b by (auto simp: isValidBounds_def split: if_splits)
  have x0: "0 \<le> minX (getTileBounds bounds z)"
    using tile_x_nonneg[OF e(1), of "south bounds" z] tile_x_nonneg[OF w(1), of "north bounds" z]
    by (simp add: getTileBounds_def Let_def)
  have x1: "maxX (getTileBounds bounds z) \<le> 2 ^ nat z"
    using tile_x_le[OF z0 e(2), of "south bounds"] tile_x_le[OF z0 w(2), of "north bounds"]
    by (simp add: getTileBounds_def Let_def)
  have y0: "- 1 \<le> minY (getTileBounds bounds z)"
    using tile_y_valid(1)[OF n z0 z22, of "west bounds"] tile_y_valid(1)[OF s z0 z22, of "east bounds"]
    by (simp add: getTileBounds_def Let_def)
  have y1: "maxY (getTileBounds bounds z) \<le> 2 ^ nat z"
    using tile_y_valid(2)[OF n z0 z22, of "west bounds"] tile_y_valid(2)[OF s z0 z22, of "east bounds"]
    by (simp add: getTileBounds_def Let_def)
  have x2: "maxX (getTileBounds bounds z) \<le> 2 ^ nat z - 1"
    if "east bounds \<le> 180 - 1 / 2 ^ 44 \<and> west bounds \<le> 180 - 1 / 2 ^ 44"
    using tile_x_strict[OF z0, of "east bounds" "south bounds"]
          tile_x_strict[OF z0, of "west bounds" "north bounds"] that
    by (simp add: getTileBounds_def Let_def)
  have y2: "0 \<le> minY (getTileBounds bounds z) \<and> maxY (getTileBounds bounds z) \<le> 2 ^ nat z - 1"
    if "\<bar>north bounds\<bar> \<le> 850511287 / 10000000 \<and> \<bar>south bounds\<bar> \<le> 850511287 / 10000000"
    using tile_y_in[OF _ z0, of "north bounds" "west bounds"]
          tile_y_in[OF _ z0, of "south bounds" "east bounds"] that
    by (simp add: getTileBounds_def Let_def)
  show ?thesis
    using getTileBounds_ordered[of bounds z] x0 x1 y0 y1 x2 y2 by blast
qed

theorem getTileBounds_range_witness:
  "numbers \<lparr>object_north = Number 45, object_south = Number (- 45),
            object_east = Number 10, object_west = Number (- 10)\<rparr>
     = Some \<lparr>north = 45, south = - 45, east = 10, west = - 10\<rparr> \<and>
   isValidBounds_object \<lparr>object_north = Number 45, object_south = Number (- 45),
                          object_east = Number 10, object_west = Number (- 10)\<rparr> \<and>
   (0::int) \<le> 3 \<and> (3::int) \<le> 22 \<and>
   east \<lparr>north = 45, south = - 45, east = 10, west = - 10\<rparr> \<le> 180 - 1 / 2 ^ 44 \<and>
   west \<lparr>north = 45, south = - 45, east = 10, west = - 10\<rparr> \<le> 180 - 1 / 2 ^ 44 \<and>
   \<bar>north \<lparr>north = 45, south = - 45, east = 10, west = - 10\<rparr>\<bar> \<le> 850511287 / 10000000 \<and>
   \<bar>south \<lparr>north = 45, south = - 45, east = 10, west = - 10\<rparr>\<bar> \<le> 850511287 / 10000000 \<and>
   0 \<le> minX (getTileBounds \<lparr>north = 45, south = - 45, east = 10, west = - 10\<rparr> 3) \<and>
   maxX (getTileBounds \<lparr>north = 45, south = - 45, east = 10, west = - 10\<rparr> 3) \<le> 2 ^ nat 3 - 1 \<and>
   0 \<le> minY (getTileBounds \<lparr>north = 45, south = - 45, east = 10, west = - 10\<rparr> 3) \<and>
   maxY (getTileBounds \<lparr>north = 45, south = - 45, east = 10, west = - 10\<rparr> 3) \<le> 2 ^ nat 3 - 1"
proof -
  let ?o = "\<lparr>object_north = Number 45, object_south = Number (- 45),
            object_east = Number 10, object_west = Number (- 10)\<rparr>"
  let ?b = "\<lparr>north = 45, south = - 45, east = 10, west = - 10\<rparr>"
  have o: "numbers ?o = Some ?b" by (simp add: numbers_def)
  have v: "isValidBounds_object ?o" by (simp add: isValidBounds_object_def latitude_limit)
  have e: "east ?b \<le> 180 - 1 / 2 ^ 44 \<and> west ?b \<le> 180 - 1 / 2 ^ 44" by simp
  have n: "\<bar>north ?b\<bar> \<le> 850511287 / 10000000 \<and> \<bar>south ?b\<bar> \<le> 850511287 / 10000000" by simp
  show ?thesis
    using getTileBounds_range[OF o v, of 3] o v e n by simp
qed

section \<open>Properties of the tile store\<close>

subsection \<open>The cache as a JavaScript Map\<close>

lemma Map_get_Map_set_same: "Map_get (Map_set m k v) k = Some v"
  by (induction m) (auto simp: Map_get_def)

lemma Map_set_absent: "map_of m k = None \<Longrightarrow> Map_set m k v = m @ [(k, v)]"
  by (induction m) (auto split: if_splits)

lemma map_of_Map_delete_same: "map_of (Map_delete m k) k = None"
  by (simp add: Map_delete_def map_of_eq_None_iff image_iff)

lemma map_of_Map_delete_other: "k' \<noteq> k \<Longrightarrow> map_of (Map_delete m k) k' = map_of m k'"
  by (induction m) (auto simp: Map_delete_def)

lemma cache_manageCacheSize_absent:
  "map_of (cache db) k = None \<Longrightarrow> map_of (cache (manageCacheSize db)) k = None"
  by (cases "cache db")
     (auto simp: manageCacheSize_def map_of_Map_delete_same map_of_Map_delete_other
           split: if_splits)

text \<open>
  Claim C7. For every source, coordinates and byte buffer, \<open>saveTile\<close> (put) followed
  immediately by \<open>getTile\<close> (get) of the same key returns the bytes that were saved.
\<close>

theorem saveTile_getTile_roundtrip:
  "fst (getTile z x y source (saveTile z x y source data now db)) = Some data"
  by (simp add: getTile_def saveTile_def Let_def Map_get_Map_set_same)

lemma hasTile_unchanged: "snd (hasTile z x y source db) = db"
  by (simp add: hasTile_def Let_def)

lemma getTile_mru:
  assumes "fst (getTile z x y source db) = Some data"
  shows "last (map fst (cache (snd (getTile z x y source db)))) = getCacheKey z x y source"
proof (cases "Map_get (cache db) (getCacheKey z x y source)")
  case (Some d)
  then show ?thesis
    by (simp add: getTile_def Let_def Map_set_absent map_of_Map_delete_same)
next
  case None
  then have n: "map_of (cache db) (getCacheKey z x y source) = None"
    by (simp add: Map_get_def)
  from None assms obtain row where r: "stmt_getTile db z x y source = Some row"
    by (cases "stmt_getTile db z x y source") (auto simp: getTile_def Let_def)
  show ?thesis
    using None r cache_manageCacheSize_absent[OF n]
    by (simp add: getTile_def Let_def Map_set_absent)
qed

lemma stmt_insertTile_cache: "cache (stmt_insertTile z x y source t data db) = cache db"
  by (simp add: stmt_insertTile_def)

lemma saveTile_mru:
  assumes "\<not> Map_has (cache db) (getCacheKey z x y source)"
  shows "last (map fst (cache (saveTile z x y source data now db))) = getCacheKey z x y source"
proof -
  have "map_of (cache (stmt_insertTile z x y source now data db)) (getCacheKey z x y source) = None"
    using assms by (simp add: Map_has_def stmt_insertTile_cache)
  from cache_manageCacheSize_absent[OF this] show ?thesis
    by (simp add: saveTile_def Let_def Map_set_absent)
qed

lemma nat_toString_digit: "n < 10 \<Longrightarrow> nat_toString n = [digit_char n]"
  by (subst nat_toString.simps) simp

lemma getCacheKey_arcgis_1_0_0: "getCacheKey 1 0 0 ''arcgis'' = ''arcgis/1/0/0''"
  by (simp add: getCacheKey_def number_toString_def nat_toString_digit digit_char_def)

lemma getCacheKey_arcgis_1_1_0: "getCacheKey 1 1 0 ''arcgis'' = ''arcgis/1/1/0''"
  by (simp add: getCacheKey_def number_toString_def nat_toString_digit digit_char_def)

text \<open>
  Claim C6 states that the cache is strictly least-recently-used: every get, has or put
  that touches a cached key makes it the most recently used entry (the last entry of the
  map). In the source \<open>hasTile\<close> returns on a cache hit without touching the map, and
  \<open>saveTile\<close> on a key that is already cached replaces the value in place. After two puts
  of the keys \<open>arcgis/1/0/0\<close> and \<open>arcgis/1/1/0\<close>, a has of the first, or a third put
  overwriting the first, both leave \<open>arcgis/1/0/0\<close> as the oldest entry.
\<close>

theorem cache_not_strict_lru_counterexample:
  "fst (hasTile 1 0 0 ''arcgis''
         (saveTile 1 1 0 ''arcgis'' ''b'' 2
           (saveTile 1 0 0 ''arcgis'' ''a'' 1
             \<lparr>tiles_table = [], download_jobs = Map.empty, cache = [], maxCacheSize = 1000\<rparr>))) = True
   \<and> map fst (cache (snd (hasTile 1 0 0 ''arcgis''
         (saveTile 1 1 0 ''arcgis'' ''b'' 2
           (saveTile 1 0 0 ''arcgis'' ''a'' 1
             \<lparr>tiles_table = [], download_jobs = Map.empty, cache = [], maxCacheSize = 1000\<rparr>)))))
       = [getCacheKey 1 0 0 ''arcgis'', getCacheKey 1 1 0 ''arcgis'']
   \<and> cache (saveTile 1 0 0 ''arcgis'' ''c'' 3
         (saveTile 1 1 0 ''arcgis'' ''b'' 2
           (saveTile 1 0 0 ''arcgis'' ''a'' 1
             \<lparr>tiles_table = [], download_jobs = Map.empty, cache = [], maxCacheSize = 1000\<rparr>)))
       = [(getCacheKey 1 0 0 ''arcgis'', ''c''), (getCacheKey 1 1 0 ''arcgis'', ''b'')]
   \<and> getCacheKey 1 0 0 ''arcgis'' \<noteq> getCacheKey 1 1 0 ''arcgis''"
  by (simp add: getCacheKey_arcgis_1_0_0 getCacheKey_arcgis_1_1_0 hasTile_def saveTile_def stmt_insertTile_def manageCacheSize_def
        Map_has_def Let_def)

text \<open>
  Claim C6, amended. After a \<open>getTile\<close> that returns bytes for a key (from the cache or
  from the table), that key is the most recently used entry of the cache; after a
  \<open>saveTile\<close> of a key that was not cached, that key is the most recently used entry;
  \<open>hasTile\<close> never changes the store or the cache, so a cache hit on has promotes nothing.
\<close>

theorem cache_recency:
  "(fst (getTile z x y source db) = Some data \<longrightarrow>
      last (map fst (cache (snd (getTile z x y source db)))) = getCacheKey z x y source)
   \<and> (\<not> Map_has (cache db) (getCacheKey z x y source) \<longrightarrow>
      last (map fst (cache (saveTile z x y source data' now db))) = getCacheKey z x y source)
   \<and> snd (hasTile z x y source db) = db"
  using getTile_mru[of z x y source db data] saveTile_mru[of db z x y source data' now]
        hasTile_unchanged[of z x y source db]
  by blast

theorem cache_recency_witness:
  "fst (getTile 1 0 0 ''arcgis''
      \<lparr>tiles_table = [((1, 0, 0, ''arcgis''), \<lparr>row_timestamp = 1, row_data = ''a''\<rparr>),
                      ((1, 1, 0, ''arcgis''), \<lparr>row_timestamp = 2, row_data = ''b''\<rparr>)],
       download_jobs = Map.empty, cache = [(getCacheKey 1 1 0 ''arcgis'', ''b'')],
       maxCacheSize = 1000\<rparr>) = Some ''a''
   \<and> \<not> Map_has (cache
      \<lparr>tiles_table = [((1, 0, 0, ''arcgis''), \<lparr>row_timestamp = 1, row_data = ''a''\<rparr>),
                      ((1, 1, 0, ''arcgis''), \<lparr>row_timestamp = 2, row_data = ''b''\<rparr>)],
       download_jobs = Map.empty, cache = [(getCacheKey 1 1 0 ''arcgis'', ''b'')],
       maxCacheSize = 1000\<rparr>) (getCacheKey 1 0 0 ''arcgis'')
   \<and> last (map fst (cache (snd (getTile 1 0 0 ''arcgis''
      \<lparr>tiles_table = [((1, 0, 0, ''arcgis''), \<lparr>row_timestamp = 1, row_data = ''a''\<rparr>),
                      ((1, 1, 0, ''arcgis''), \<lparr>row_timestamp = 2, row_data = ''b''\<rparr>)],
       download_jobs = Map.empty, cache = [(getCacheKey 1 1 0 ''arcgis'', ''b'')],
       maxCacheSize = 1000\<rparr>)))) = getCacheKey 1 0 0 ''arcgis''
   \<and> last (map fst (cache (saveTile 1 0 0 ''arcgis'' ''c'' 3
      \<lparr>tiles_table = [((1, 0, 0, ''arcgis''), \<lparr>row_timestamp = 1, row_data = ''a''\<rparr>),
                      ((1, 1, 0, ''arcgis''), \<lparr>row_timestamp = 2, row_data = ''b''\<rparr>)],
       download_jobs = Map.empty, cache = [(getCacheKey 1 1 0 ''arcgis'', ''b'')],
       maxCacheSize = 1000\<rparr>))) = getCacheKey 1 0 0 ''arcgis''"
proof -
  let ?db = "\<lparr>tiles_table = [((1, 0, 0, ''arcgis''), \<lparr>row_timestamp = 1, row_data = ''a''\<rparr>),
                      ((1, 1, 0, ''arcgis''), \<lparr>row_timestamp = 2, row_data = ''b''\<rparr>)],
       download_jobs = Map.empty, cache = [(getCacheKey 1 1 0 ''arcgis'', ''b'')],
       maxCacheSize = 1000\<rparr>"
  have g: "fst (getTile 1 0 0 ''arcgis'' ?db) = Some ''a''"
    by (simp add: getTile_def Let_def Map_get_def stmt_getTile_def
          getCacheKey_arcgis_1_0_0 getCacheKey_arcgis_1_1_0)
  have h: "\<not> Map_has (cache ?db) (getCacheKey 1 0 0 ''arcgis'')"
    by (simp add: Map_has_def getCacheKey_arcgis_1_0_0 getCacheKey_arcgis_1_1_0)
  show ?thesis
    using g h cache_recency[of 1 0 0 "''arcgis''" ?db "''a''" "''c''" 3] by blast
qed

subsection \<open>Deleting the tiles of a job\<close>

lemma length_filter_split:
  "length (filter P xs) + length (filter Q (filter (\<lambda>r. \<not> P r) xs)) =
   length (filter (\<lambda>r. P r \<or> Q r) xs)"
  by (induction xs) auto

lemma filter_filter_not:
  "filter (\<lambda>r. \<not> Q r) (filter (\<lambda>r. \<not> P r) xs) = filter (\<lambda>r. \<not> (P r \<or> Q r)) xs"
  by (induction xs) auto

lemma inJobRectangle_step:
  assumes "z \<le> maxZoom"
  shows "inJobRectangle source bounds z maxZoom k \<longleftrightarrow>
         deleteTilesByJob_where source z z
            (minX (getTileBounds bounds z)) (maxX (getTileBounds bounds z))
            (minY (getTileBounds bounds z)) (maxY (getTileBounds bounds z)) k
         \<or> inJobRectangle source bounds (z + 1) maxZoom k"
proof -
  obtain a b c s where k: "k = (a, b, c, s)" by (cases k)
  consider "a = z" | "a < z" | "z + 1 \<le> a" by linarith
  then show ?thesis
  proof cases
    case 1
    then show ?thesis
      using assms by (auto simp: k inJobRectangle_def deleteTilesByJob_where_def)
  next
    case 2
    then show ?thesis
      by (auto simp: k inJobRectangle_def deleteTilesByJob_where_def)
  next
    case 3
    then show ?thesis
      by (auto simp: k inJobRectangle_def deleteTilesByJob_where_def)
  qed
qed

lemma inJobRectangle_empty:
  "\<not> z \<le> maxZoom \<Longrightarrow> \<not> inJobRectangle source bounds z maxZoom k"
  by (cases k) (auto simp: inJobRectangle_def)

lemma deleteTilesForJob_z_unroll:
  assumes "z \<le> maxZoom"
  shows "deleteTilesForJob_z source bounds z maxZoom totalDeleted db =
     deleteTilesForJob_z source bounds (z + 1) maxZoom
       (totalDeleted + fst (stmt_deleteTilesByJob source z z
            (minX (getTileBounds bounds z)) (maxX (getTileBounds bounds z))
            (minY (getTileBounds bounds z)) (maxY (getTileBounds bounds z)) db))
       (snd (stmt_deleteTilesByJob source z z
            (minX (getTileBounds bounds z)) (maxX (getTileBounds bounds z))
            (minY (getTileBounds bounds z)) (maxY (getTileBounds bounds z)) db))"
  using assms
  by (subst deleteTilesForJob_z.simps) (simp add: Let_def split_beta)

lemma deleteTilesForJob_z_done:
  "\<not> z \<le> maxZoom \<Longrightarrow> deleteTilesForJob_z source bounds z maxZoom totalDeleted db = (totalDeleted, db)"
  by (subst deleteTilesForJob_z.simps) simp

lemma deleteTilesForJob_z_eq:
  "deleteTilesForJob_z source bounds z maxZoom totalDeleted db =
     (totalDeleted + int (length (filter (\<lambda>r. inJobRectangle source bounds z maxZoom (fst r)) (tiles_table db))),
      db\<lparr>tiles_table := filter (\<lambda>r. \<not> inJobRectangle source bounds z maxZoom (fst r)) (tiles_table db)\<rparr>)"
proof (induction source bounds z maxZoom totalDeleted db rule: deleteTilesForJob_z.induct)
  case (1 source bounds z maxZoom totalDeleted db)
  show ?case
  proof (cases "z \<le> maxZoom")
    case True
    let ?P = "\<lambda>r. deleteTilesByJob_where source z z
            (minX (getTileBounds bounds z)) (maxX (getTileBounds bounds z))
            (minY (getTileBounds bounds z)) (maxY (getTileBounds bounds z)) (fst r)"
    let ?Q = "\<lambda>r. inJobRectangle source bounds (z + 1) maxZoom (fst r)"
    let ?st = "stmt_deleteTilesByJob source z z
            (minX (getTileBounds bounds z)) (maxX (getTileBounds bounds z))
            (minY (getTileBounds bounds z)) (maxY (getTileBounds bounds z)) db"
    have R: "inJobRectangle source bounds z maxZoom (fst r) = (?P r \<or> ?Q r)" for r :: "tile_key \<times> tile_row"
      by (rule inJobRectangle_step[OF True])
    have ih: "deleteTilesForJob_z source bounds (z + 1) maxZoom (totalDeleted + fst ?st) (snd ?st) =
       (totalDeleted + fst ?st + int (length (filter ?Q (tiles_table (snd ?st)))),
        (snd ?st)\<lparr>tiles_table := filter (\<lambda>r. \<not> ?Q r) (tiles_table (snd ?st))\<rparr>)"
      by (rule 1[OF True refl refl prod.collapse])
    have f: "fst ?st = int (length (filter ?P (tiles_table db)))"
      and s: "snd ?st = db\<lparr>tiles_table := filter (\<lambda>r. \<not> ?P r) (tiles_table db)\<rparr>"
      by (simp_all add: stmt_deleteTilesByJob_def)
    have cnt: "fst ?st + int (length (filter ?Q (tiles_table (snd ?st)))) =
               int (length (filter (\<lambda>r. ?P r \<or> ?Q r) (tiles_table db)))"
      unfolding f s using length_filter_split[of ?P "tiles_table db" ?Q] by simp
    have tbl: "(snd ?st)\<lparr>tiles_table := filter (\<lambda>r. \<not> ?Q r) (tiles_table (snd ?st))\<rparr> =
               db\<lparr>tiles_table := filter (\<lambda>r. \<not> (?P r \<or> ?Q r)) (tiles_table db)\<rparr>"
      unfolding s by (simp add: filter_filter_not)
    have lhs: "totalDeleted + fst ?st + int (length (filter ?Q (tiles_table (snd ?st)))) =
               totalDeleted + int (length (filter (\<lambda>r. ?P r \<or> ?Q r) (tiles_table db)))"
      using cnt by simp
    show ?thesis
      unfolding deleteTilesForJob_z_unroll[OF True] ih lhs tbl by (simp only: R)
  next
    case False
    have "filter (\<lambda>r. inJobRectangle source bounds z maxZoom (fst r)) (tiles_table db) = []"
      using inJobRectangle_empty[OF False] by simp
    moreover have "filter (\<lambda>r. \<not> inJobRectangle source bounds z maxZoom (fst r)) (tiles_table db) = tiles_table db"
      using inJobRectangle_empty[OF False] by simp
    ultimately show ?thesis
      unfolding deleteTilesForJob_z_done[OF False] by simp
  qed
qed

lemma clearCacheForSource_fold:
  "fold (\<lambda>key d. if P key then d\<lparr>cache := Map_delete (cache d) key\<rparr> else d) ks db =
   db\<lparr>cache := filter (\<lambda>p. \<not> (P (fst p) \<and> fst p \<in> set ks)) (cache db)\<rparr>"
proof (induction ks arbitrary: db)
  case Nil
  then show ?case by simp
next
  case (Cons k ks)
  show ?case
  proof (cases "P k")
    case True
    have "filter (\<lambda>p. \<not> (P (fst p) \<and> fst p \<in> set ks)) (filter (\<lambda>p. fst p \<noteq> k) (cache db)) =
          filter (\<lambda>p. \<not> (P (fst p) \<and> fst p \<in> set (k # ks))) (cache db)"
      using True unfolding filter_filter by (intro filter_cong) auto
    then show ?thesis
      using True by (simp add: Cons.IH Map_delete_def)
  next
    case False
    have "filter (\<lambda>p. \<not> (P (fst p) \<and> fst p \<in> set ks)) (cache db) =
          filter (\<lambda>p. \<not> (P (fst p) \<and> fst p \<in> set (k # ks))) (cache db)"
      using False by (intro filter_cong) auto
    then show ?thesis
      using False by (simp add: Cons.IH)
  qed
qed

lemma cache_clearCacheForSource:
  "cache (clearCacheForSource source db) =
     filter (\<lambda>p. \<not> startsWith (fst p) (source @ ''/'')) (cache db)"
proof -
  have "filter (\<lambda>p. \<not> (startsWith (fst p) (source @ ''/'') \<and> fst p \<in> set (map fst (cache db)))) (cache db)
      = filter (\<lambda>p. \<not> startsWith (fst p) (source @ ''/'')) (cache db)"
    by (intro filter_cong) auto
  then show ?thesis
    by (simp add: clearCacheForSource_def clearCacheForSource_fold)
qed

lemma tiles_table_clearCacheForSource:
  "tiles_table (clearCacheForSource source db) = tiles_table db"
  by (simp add: clearCacheForSource_def clearCacheForSource_fold)

lemma startsWith_getCacheKey: "startsWith (getCacheKey z x y source) (source @ ''/'')"
  by (simp add: startsWith_def getCacheKey_def)

lemma getTileBounds_zoom0:
  "getTileBounds \<lparr>north = 45, south = - 45, east = 10, west = - 10\<rparr> 0 =
     \<lparr>minX = 0, maxX = 0, minY = 0, maxY = 0, bounds_z = 0\<rparr>"
proof -
  have x: "tile_x (latLngToTile lat lng 0) = 0" if "- 180 \<le> lng" "lng \<le> 10" for lat lng
    using tile_x_nonneg[OF that(1), of lat 0] tile_x_strict[of 0 lng lat] that(2) by simp
  have y: "tile_y (latLngToTile lat lng 0) = 0" if "\<bar>lat\<bar> \<le> 45" for lat lng
    using tile_y_in[of lat 0 lng] that by simp
  show ?thesis
    by (simp add: getTileBounds_def Let_def x y)
qed

text \<open>
  The two loops do what the method is documented to do: they remove from table \<open>tiles\<close>
  exactly the rows of the given source whose zoom lies in the zoom range and whose \<open>(x, y)\<close>
  lies in the inclusive tile rectangle of that zoom, and no other row; the sum of the changes
  is the number of rows removed; and afterwards \<open>hasTile\<close> is false for every key of that
  range, whatever the cache held before.
\<close>

lemma deleteTilesForJob_loops_exact:
  assumes "deleteTilesForJob_loops source bounds minZoom maxZoom db = (n, db')"
  shows "tiles_table db' =
           filter (\<lambda>r. \<not> inJobRectangle source bounds minZoom maxZoom (fst r)) (tiles_table db)
       \<and> n = int (length (filter (\<lambda>r. inJobRectangle source bounds minZoom maxZoom (fst r)) (tiles_table db)))
       \<and> (\<forall>z x y. inJobRectangle source bounds minZoom maxZoom (z, x, y, source) \<longrightarrow>
             fst (hasTile z x y source db') = False)"
proof -
  let ?R = "\<lambda>r. inJobRectangle source bounds minZoom maxZoom (fst r)"
  let ?db1 = "db\<lparr>tiles_table := filter (\<lambda>r. \<not> ?R r) (tiles_table db)\<rparr>"
  have n: "n = int (length (filter ?R (tiles_table db)))" and db': "db' = clearCacheForSource source ?db1"
    using assms by (simp_all add: deleteTilesForJob_loops_def deleteTilesForJob_z_eq)
  have t: "tiles_table db' = filter (\<lambda>r. \<not> ?R r) (tiles_table db)"
    by (simp add: db' tiles_table_clearCacheForSource)
  have h: "fst (hasTile z x y source db') = False"
    if "inJobRectangle source bounds minZoom maxZoom (z, x, y, source)" for z x y
  proof -
    have "map_of (cache db') (getCacheKey z x y source) = None"
      by (simp add: db' cache_clearCacheForSource map_of_eq_None_iff image_iff startsWith_getCacheKey)
    moreover have "map_of (tiles_table db') (z, x, y, source) = None"
      using that by (simp add: t map_of_eq_None_iff image_iff)
    ultimately show ?thesis
      by (simp add: hasTile_def Let_def Map_has_def stmt_hasTile_def)
  qed
  show ?thesis using n t h by blast
qed

text \<open>
  On the example store the loops remove the one row of source \<open>arcgis\<close> at zoom 0, count
  it, and \<open>hasTile\<close> no longer finds it.
\<close>

lemma deleteTilesForJob_loops_example:
  "inJobRectangle ''arcgis'' \<lparr>north = 45, south = - 45, east = 10, west = - 10\<rparr> 0 0 (0, 0, 0, ''arcgis'')
   \<and> Map_has (cache example_store) (getCacheKey 0 0 0 ''arcgis'')
   \<and> tiles_table (snd (deleteTilesForJob_loops ''arcgis''
          \<lparr>north = 45, south = - 45, east = 10, west = - 10\<rparr> 0 0 example_store))
       = [((0, 0, 0, ''google''), \<lparr>row_timestamp = 2, row_data = ''b''\<rparr>),
          ((1, 0, 0, ''arcgis''), \<lparr>row_timestamp = 3, row_data = ''c''\<rparr>)]
   \<and> fst (deleteTilesForJob_loops ''arcgis''
          \<lparr>north = 45, south = - 45, east = 10, west = - 10\<rparr> 0 0 example_store) = 1
   \<and> fst (hasTile 0 0 0 ''arcgis''
        (snd (deleteTilesForJob_loops ''arcgis''
          \<lparr>north = 45, south = - 45, east = 10, west = - 10\<rparr> 0 0 example_store))) = False"
proof -
  let ?b = "\<lparr>north = 45, south = - 45, east = 10, west = - 10\<rparr>"
  have r1: "inJobRectangle ''arcgis'' ?b 0 0 (0, 0, 0, ''arcgis'')"
    by (simp add: inJobRectangle_def getTileBounds_zoom0)
  have r2: "\<not> inJobRectangle ''arcgis'' ?b 0 0 (0, 0, 0, ''google'')"
    by (simp add: inJobRectangle_def)
  have r3: "\<not> inJobRectangle ''arcgis'' ?b 0 0 (1, 0, 0, ''arcgis'')"
    by (simp add: inJobRectangle_def)
  have c: "Map_has (cache example_store) (getCacheKey 0 0 0 ''arcgis'')"
    by (simp add: Map_has_def example_store_def)
  have e: "deleteTilesForJob_loops ''arcgis'' ?b 0 0 example_store =
     (fst (deleteTilesForJob_loops ''arcgis'' ?b 0 0 example_store),
      snd (deleteTilesForJob_loops ''arcgis'' ?b 0 0 example_store))"
    by simp
  have t: "tiles_table example_store =
     [((0, 0, 0, ''arcgis''), \<lparr>row_timestamp = 1, row_data = ''a''\<rparr>),
      ((0, 0, 0, ''google''), \<lparr>row_timestamp = 2, row_data = ''b''\<rparr>),
      ((1, 0, 0, ''arcgis''), \<lparr>row_timestamp = 3, row_data = ''c''\<rparr>)]"
    by (simp add: example_store_def)
  show ?thesis
    using deleteTilesForJob_loops_exact[OF e] r1 r2 r3 c by (simp add: t)
qed

text \<open>
  Claim C5. The range delete is to remove the stored tiles of the rectangle, return their
  number, and leave \<open>hasTile\<close> false for each of them. \<open>deleteTilesForJob\<close> does none of it:
  called on the example store for source \<open>arcgis\<close>, the box \<open>45, -45, 10, -10\<close> and zoom 0, it
  raises the \<open>ReferenceError\<close> of its first line, the store is as it was, the row of tile
  \<open>arcgis/0/0/0\<close> is still in the table and \<open>hasTile\<close> is still true for it.
\<close>

theorem deleteTilesForJob_raises:
  "deleteTilesForJob ''arcgis'' \<lparr>north = 45, south = - 45, east = 10, west = - 10\<rparr> 0 0 example_store
     = (Inl ReferenceError, example_store)
   \<and> inJobRectangle ''arcgis'' \<lparr>north = 45, south = - 45, east = 10, west = - 10\<rparr> 0 0 (0, 0, 0, ''arcgis'')
   \<and> stmt_hasTile example_store 0 0 0 ''arcgis''
   \<and> fst (hasTile 0 0 0 ''arcgis''
        (snd (deleteTilesForJob ''arcgis'' \<lparr>north = 45, south = - 45, east = 10, west = - 10\<rparr> 0 0
           example_store)))"
proof -
  have r: "inJobRectangle ''arcgis'' \<lparr>north = 45, south = - 45, east = 10, west = - 10\<rparr> 0 0 (0, 0, 0, ''arcgis'')"
    by (simp add: inJobRectangle_def getTileBounds_zoom0)
  have d: "deleteTilesForJob ''arcgis'' \<lparr>north = 45, south = - 45, east = 10, west = - 10\<rparr> 0 0 example_store
     = (Inl ReferenceError, example_store)"
    by (simp add: deleteTilesForJob_def require_def)
  have s: "stmt_hasTile example_store 0 0 0 ''arcgis''"
    by (simp add: stmt_hasTile_def example_store_def)
  have h: "fst (hasTile 0 0 0 ''arcgis'' example_store)"
    by (simp add: hasTile_def Let_def Map_has_def example_store_def)
  show ?thesis
    using r s h by (simp add: d)
qed

section \<open>Properties of the status report\<close>

lemma getJobStatus_active:
  assumes "getJobStatus jobId st = Some (ActiveStatus a)"
  shows "downloader_getJobStatus jobId st = Some a"
  using assms by (simp add: getJobStatus_def split: option.splits)

lemma getJobStatus_stored:
  assumes "getJobStatus jobId st = Some (StoredStatus s)"
  obtains job where "getJob st jobId = Some job"
    and "downloader_getJobStatus jobId st = None"
    and "ss_totalTiles s = row_totalTiles job"
    and "ss_downloadedTiles s = row_downloadedTiles job"
    and "ss_status s = row_status job"
    and "ss_progress s = (if row_totalTiles job > 0
              then percent (row_downloadedTiles job) (row_totalTiles job)
              else 0)"
proof (cases "downloader_getJobStatus jobId st")
  case (Some a')
  then show ?thesis using assms by (simp add: getJobStatus_def)
next
  case None
  show ?thesis
  proof (cases "getJob st jobId")
    case N: None
    then show ?thesis using assms None by (simp add: getJobStatus_def)
  next
    case (Some job)
    have "s = \<lparr>ss_jobId = jobId,
                  ss_name = row_name job,
                  ss_source = row_source job,
                  ss_bounds = row_bounds job,
                  ss_minZoom = row_minZoom job,
                  ss_maxZoom = row_maxZoom job,
                  ss_totalTiles = row_totalTiles job,
                  ss_downloadedTiles = row_downloadedTiles job,
                  ss_progress = (if row_totalTiles job > 0
                     then round (dbl (dbl (real_of_int (row_downloadedTiles job)
                                           / real_of_int (row_totalTiles job)) * 100))
                     else 0),
                  ss_status = row_status job,
                  ss_country = row_country job,
                  ss_city = row_city job,
                  ss_createdAt = row_createdAt job,
                  ss_updatedAt = row_updatedAt job\<rparr>"
      using assms None Some by (simp add: getJobStatus_def)
    then show ?thesis using Some None that[of job] by (simp add: percent_def)
  qed
qed

lemma downloader_getJobStatus_fields:
  assumes "downloader_getJobStatus jobId st = Some a"
  obtains job stats where "Map_get (activeJobs st) jobId = Some job"
    and "Map_get (downloadStats st) jobId = Some stats"
    and "as_totalTiles a = job_totalTiles job"
    and "as_downloadedTiles a = downloadedCount stats"
    and "as_skippedTiles a = skippedCount stats"
    and "as_failedTiles a = failedCount stats"
    and "as_progress a = (if job_totalTiles job > 0
              then percent (downloadedCount stats + failedCount stats + skippedCount stats)
                     (job_totalTiles job)
              else 0)"
proof (cases "Map_get (activeJobs st) jobId")
  case None
  then show ?thesis using assms by (simp add: downloader_getJobStatus_def)
next
  case (Some job)
  show ?thesis
  proof (cases "Map_get (downloadStats st) jobId")
    case None
    then show ?thesis using assms Some by (simp add: downloader_getJobStatus_def)
  next
    case S: (Some stats)
    have "a = \<lparr>as_jobId = jobId,
                    as_source = job_source job,
                    as_totalTiles = job_totalTiles job,
                    as_downloadedTiles = downloadedCount stats,
                    as_skippedTiles = skippedCount stats,
                    as_failedTiles = failedCount stats,
                    as_progress = round (if job_totalTiles job > 0
                           then dbl (dbl (real_of_int (downloadedCount stats + failedCount stats + skippedCount stats)
                                          / real_of_int (job_totalTiles job)) * 100)
                           else 0),
                    as_status = job_status job,
                    as_queuedTiles = int (length (filter (\<lambda>t. task_jobId t = jobId) (queue st)))\<rparr>"
      using assms Some S by (simp add: downloader_getJobStatus_def Let_def)
    then show ?thesis using Some S that[of job stats] by (simp add: percent_def)
  qed
qed

text \<open>
  Claim C1 states that every status query reports the progress
  \<open>round (100 * downloaded / totalTiles)\<close>, also for an active job with skipped or failed
  tiles. The scheduler computes the progress of an active job from the sum
  \<open>downloadedCount + failedCount + skippedCount\<close>. A job of two tiles, one of them already
  stored, reports progress 50 right after its start, with 0 tiles downloaded.
\<close>

theorem progress_counts_skipped_counterexample:
  "map_option (\<lambda>v. (status_progress v, status_downloadedTiles v, status_totalTiles v))
     (getJobStatus ''job1''
       (startJob ''job1'' ''arcgis''
          [\<lparr>tile_x = 0, tile_y = 0, tile_z = 1\<rparr>, \<lparr>tile_x = 1, tile_y = 0, tile_z = 1\<rparr>] 100
          (saveTile 1 0 0 ''arcgis'' ''a'' 50
            (TileForge_new \<lparr>maxConcurrentDownloads = 4, cacheSize = 1000, rateLimit = 500\<rparr>))))
     = Some (50, 0, 2)
   \<and> round (100 * real_of_int 0 / real_of_int 2) \<noteq> (50 :: int)"
  by (simp add: TileForge_new_def saveTile_def stmt_insertTile_def manageCacheSize_def
        startJob_def queueTile_def hasTile_def handleTileSkipped_def processQueue_def
        checkJobComplete_def updateJobStatus_def stmt_updateJobStatus_def
        Map_has_def Map_get_def stmt_hasTile_def
        getCacheKey_arcgis_1_0_0 getCacheKey_arcgis_1_1_0 Let_def processQueue_loop.simps
        getJobStatus_def downloader_getJobStatus_def dbl_half dbl_numeral)

text \<open>
  Claim C1, amended. For an active job the status reports \<open>Math.round\<close> of the double
  \<open>((downloaded + failed + skipped) / totalTiles) * 100\<close>, where the three counters and the
  total are those of the same report; for a job that is not active the status is read from
  the registry and reports \<open>Math.round\<close> of the double \<open>(downloadedTiles / totalTiles) * 100\<close>;
  in both cases the progress is 0 when \<open>totalTiles\<close> is not positive. For a count \<open>n\<close> from
  0 to \<open>2 ^ 43\<close> and a positive total \<open>t\<close>, that value is \<open>round (100 * n / t)\<close>, except
  that it may be one less when \<open>100 * n / t\<close> lies exactly halfway between two integers
  (23 of 40 gives 57).
\<close>

theorem progress_reported:
  "(getJobStatus jobId st = Some (ActiveStatus a) \<longrightarrow>
      as_progress a =
        (if as_totalTiles a > 0
         then percent (as_downloadedTiles a + as_failedTiles a + as_skippedTiles a) (as_totalTiles a)
         else 0))
   \<and> (getJobStatus jobId' st = Some (StoredStatus s) \<longrightarrow>
      ss_progress s =
        (if ss_totalTiles s > 0 then percent (ss_downloadedTiles s) (ss_totalTiles s) else 0))
   \<and> (0 \<le> n \<and> n \<le> 2 ^ 43 \<and> 0 < t \<longrightarrow>
        percent n t \<le> round (100 * real_of_int n / real_of_int t)
      \<and> round (100 * real_of_int n / real_of_int t) - 1 \<le> percent n t
      \<and> ((200 * n + t) mod (2 * t) \<noteq> 0 \<longrightarrow>
            percent n t = round (100 * real_of_int n / real_of_int t)))"
proof (intro conjI impI)
  assume "getJobStatus jobId st = Some (ActiveStatus a)"
  from getJobStatus_active[OF this]
  obtain job stats where
    "Map_get (activeJobs st) jobId = Some job" "Map_get (downloadStats st) jobId = Some stats"
    and f: "as_totalTiles a = job_totalTiles job" "as_downloadedTiles a = downloadedCount stats"
       "as_skippedTiles a = skippedCount stats" "as_failedTiles a = failedCount stats"
    and p: "as_progress a = (if job_totalTiles job > 0
              then percent (downloadedCount stats + failedCount stats + skippedCount stats)
                     (job_totalTiles job)
              else 0)"
    by (rule downloader_getJobStatus_fields)
  show "as_progress a =
        (if as_totalTiles a > 0
         then percent (as_downloadedTiles a + as_failedTiles a + as_skippedTiles a) (as_totalTiles a)
         else 0)"
    unfolding p f ..
next
  assume "getJobStatus jobId' st = Some (StoredStatus s)"
  then obtain job where
    "getJob st jobId' = Some job" "downloader_getJobStatus jobId' st = None"
    and f: "ss_totalTiles s = row_totalTiles job" "ss_downloadedTiles s = row_downloadedTiles job"
    and "ss_status s = row_status job"
    and p: "ss_progress s = (if row_totalTiles job > 0
              then percent (row_downloadedTiles job) (row_totalTiles job)
              else 0)"
    by (rule getJobStatus_stored)
  show "ss_progress s =
        (if ss_totalTiles s > 0 then percent (ss_downloadedTiles s) (ss_totalTiles s) else 0)"
    unfolding p f ..
next
  assume h: "0 \<le> n \<and> n \<le> 2 ^ 43 \<and> 0 < t"
  then have n0: "0 \<le> n" and n43: "n \<le> 2 ^ 43" and t0: "0 < t" by simp_all
  show "percent n t \<le> round (100 * real_of_int n / real_of_int t)"
    by (rule percent_near(1)[OF n0 n43 t0])
  show "round (100 * real_of_int n / real_of_int t) - 1 \<le> percent n t"
    by (rule percent_near(2)[OF n0 n43 t0])
  show "percent n t = round (100 * real_of_int n / real_of_int t)"
    if "(200 * n + t) mod (2 * t) \<noteq> 0"
    by (rule percent_near(3)[OF n0 n43 t0 that])
qed

theorem progress_reported_witness:
  "getJobStatus ''job1''
     (startJob ''job1'' ''arcgis''
        [\<lparr>tile_x = 0, tile_y = 0, tile_z = 1\<rparr>, \<lparr>tile_x = 1, tile_y = 0, tile_z = 1\<rparr>] 100
        (projr (createDownloadJob ''job0'' ''Old'' ''arcgis''
                  \<lparr>north = 45, south = - 45, east = 10, west = - 10\<rparr> 1 1 4 10
          (saveTile 1 0 0 ''arcgis'' ''a'' 50
            (TileForge_new \<lparr>maxConcurrentDownloads = 4, cacheSize = 1000, rateLimit = 500\<rparr>)))))
     = Some (ActiveStatus
         \<lparr>as_jobId = ''job1'', as_source = ''arcgis'', as_totalTiles = 2, as_downloadedTiles = 0,
          as_skippedTiles = 1, as_failedTiles = 0, as_progress = 50, as_status = ''running'',
          as_queuedTiles = 0\<rparr>)
   \<and> getJobStatus ''job0''
     (startJob ''job1'' ''arcgis''
        [\<lparr>tile_x = 0, tile_y = 0, tile_z = 1\<rparr>, \<lparr>tile_x = 1, tile_y = 0, tile_z = 1\<rparr>] 100
        (projr (createDownloadJob ''job0'' ''Old'' ''arcgis''
                  \<lparr>north = 45, south = - 45, east = 10, west = - 10\<rparr> 1 1 4 10
          (saveTile 1 0 0 ''arcgis'' ''a'' 50
            (TileForge_new \<lparr>maxConcurrentDownloads = 4, cacheSize = 1000, rateLimit = 500\<rparr>)))))
     = Some (StoredStatus
         \<lparr>ss_jobId = ''job0'', ss_name = ''Old'', ss_source = ''arcgis'',
          ss_bounds = \<lparr>north = 45, south = - 45, east = 10, west = - 10\<rparr>,
          ss_minZoom = 1, ss_maxZoom = 1, ss_totalTiles = 4, ss_downloadedTiles = 0,
          ss_progress = 0, ss_status = ''pending'', ss_country = None, ss_city = None,
          ss_createdAt = 10, ss_updatedAt = 10\<rparr>)
   \<and> (50 :: int) = percent (0 + 0 + 1) 2
   \<and> (0 :: int) = percent 0 4
   \<and> (0 :: int) \<le> 23 \<and> (23 :: int) \<le> 2 ^ 43 \<and> (0 :: int) < 40
   \<and> (200 * 23 + 40) mod (2 * 40) = (0 :: int)
   \<and> percent 23 40 = 57
   \<and> round (100 * real_of_int 23 / real_of_int 40) = (58 :: int)
   \<and> (0 :: int) \<le> 1 \<and> (1 :: int) \<le> 2 ^ 43 \<and> (0 :: int) < 3
   \<and> (200 * 1 + 3) mod (2 * 3) \<noteq> (0 :: int)
   \<and> percent 1 3 = round (100 * real_of_int 1 / real_of_int 3)"
proof -
  let ?st = "startJob ''job1'' ''arcgis''
        [\<lparr>tile_x = 0, tile_y = 0, tile_z = 1\<rparr>, \<lparr>tile_x = 1, tile_y = 0, tile_z = 1\<rparr>] 100
        (projr (createDownloadJob ''job0'' ''Old'' ''arcgis''
                  \<lparr>north = 45, south = - 45, east = 10, west = - 10\<rparr> 1 1 4 10
          (saveTile 1 0 0 ''arcgis'' ''a'' 50
            (TileForge_new \<lparr>maxConcurrentDownloads = 4, cacheSize = 1000, rateLimit = 500\<rparr>))))"
  let ?a = "\<lparr>as_jobId = ''job1'', as_source = ''arcgis'', as_totalTiles = 2, as_downloadedTiles = 0,
          as_skippedTiles = 1, as_failedTiles = 0, as_progress = 50, as_status = ''running'',
          as_queuedTiles = 0\<rparr>"
  let ?s = "\<lparr>ss_jobId = ''job0'', ss_name = ''Old'', ss_source = ''arcgis'',
          ss_bounds = \<lparr>north = 45, south = - 45, east = 10, west = - 10\<rparr>,
          ss_minZoom = 1, ss_maxZoom = 1, ss_totalTiles = 4, ss_downloadedTiles = 0,
          ss_progress = 0, ss_status = ''pending'', ss_country = None, ss_city = None,
          ss_createdAt = 10, ss_updatedAt = 10\<rparr>"
  have a: "getJobStatus ''job1'' ?st = Some (ActiveStatus ?a)"
    by (simp add: TileForge_new_def saveTile_def stmt_insertTile_def manageCacheSize_def
        createDownloadJob_def
        startJob_def queueTile_def hasTile_def handleTileSkipped_def processQueue_def
        checkJobComplete_def updateJobStatus_def stmt_updateJobStatus_def
        Map_has_def Map_get_def stmt_hasTile_def
        getCacheKey_arcgis_1_0_0 getCacheKey_arcgis_1_1_0 Let_def processQueue_loop.simps
        getJobStatus_def downloader_getJobStatus_def dbl_half dbl_numeral)
  have s: "getJobStatus ''job0'' ?st = Some (StoredStatus ?s)"
    by (simp add: TileForge_new_def saveTile_def stmt_insertTile_def manageCacheSize_def
        createDownloadJob_def
        startJob_def queueTile_def hasTile_def handleTileSkipped_def processQueue_def
        checkJobComplete_def updateJobStatus_def stmt_updateJobStatus_def
        Map_has_def Map_get_def stmt_hasTile_def getJob_def
        getCacheKey_arcgis_1_0_0 getCacheKey_arcgis_1_1_0 Let_def processQueue_loop.simps
        getJobStatus_def downloader_getJobStatus_def)
  have r: "round (100 * real_of_int 23 / real_of_int 40) = (58 :: int)"
    by (simp add: round_def)
  show ?thesis
    using a s r percent_23_40
      progress_reported[where jobId = "''job1''" and jobId' = "''job0''" and st = ?st and a = ?a
        and s = ?s and n = 1 and t = 3]
    by (simp add: percent_0)
qed

section \<open>Properties of the facade\<close>





section \<open>Properties of the rate limit\<close>

text \<open>
  Claim C9 states that requests are never issued less than \<open>rateLimit\<close> milliseconds
  apart. With the default interval of 500 ms, three fetches started in the same turn of
  \<open>processQueue\<close> at time 1000 behave as follows: the first finds the gate open, stamps 1000
  and is issued; the second and the third both read \<open>lastRequestTime = 1000\<close>, both sleep
  500 ms, and both are issued at 1500, since the stamp is written only after the sleep.
\<close>

theorem rateLimit_overlapping_fetches:
  "map_option issued
     (gate_run [(1000, Call 1), (1000, Call 2), (1000, Call 3), (1500, Wake 2), (1500, Wake 3)]
         (fetch_trace_new \<lparr>maxConcurrentDownloads = 4, cacheSize = 1000, rateLimit = 500\<rparr> 1000))
   = Some [(1, 1000), (2, 1500), (3, 1500)]"
  by (simp add: fetch_trace_new_def TileForge_new_def gate_step_def rateLimit_delay_def rateLimit_stamp_def
     tile_downloader.defs tile_database.defs Let_def)

section \<open>Properties of the download scheduler\<close>

subsection \<open>Maps\<close>

lemma Map_get_Map_set: "Map_get (Map_set m k v) k' = (if k' = k then Some v else Map_get m k')"
  by (induction m) (auto simp: Map_get_def)

lemma Map_get_Map_delete: "Map_get (Map_delete m k) k' = (if k' = k then None else Map_get m k')"
  by (induction m) (auto simp: Map_get_def Map_delete_def)

subsection \<open>Fields that the operations leave alone\<close>

lemma updateJobStatus_fields:
  "activeJobs (updateJobStatus k s n st) = activeJobs st"
  "downloadStats (updateJobStatus k s n st) = downloadStats st"
  "queue (updateJobStatus k s n st) = queue st"
  "inflight (updateJobStatus k s n st) = inflight st"
  "logged (updateJobStatus k s n st) = logged st"
  "activeDownloads (updateJobStatus k s n st) = activeDownloads st"
  "maxConcurrent (updateJobStatus k s n st) = maxConcurrent st"
  "tiles_table (updateJobStatus k s n st) = tiles_table st"
  "cache (updateJobStatus k s n st) = cache st"
  by (simp_all add: updateJobStatus_def stmt_updateJobStatus_def split: option.splits)

lemma updateJobStatus_row:
  "download_jobs (updateJobStatus k s n st) j =
     (if j = k then map_option (\<lambda>row. row\<lparr>row_status := s, row_updatedAt := n\<rparr>) (download_jobs st k)
      else download_jobs st j)"
  by (simp add: updateJobStatus_def stmt_updateJobStatus_def split: option.splits)

lemma updateJobProgress_fields:
  "activeJobs (updateJobProgress k d n st) = activeJobs st"
  "downloadStats (updateJobProgress k d n st) = downloadStats st"
  "queue (updateJobProgress k d n st) = queue st"
  "inflight (updateJobProgress k d n st) = inflight st"
  "logged (updateJobProgress k d n st) = logged st"
  "activeDownloads (updateJobProgress k d n st) = activeDownloads st"
  "maxConcurrent (updateJobProgress k d n st) = maxConcurrent st"
  "tiles_table (updateJobProgress k d n st) = tiles_table st"
  "cache (updateJobProgress k d n st) = cache st"
  by (simp_all add: updateJobProgress_def stmt_updateJobProgress_def split: option.splits)

lemma updateJobProgress_row:
  "download_jobs (updateJobProgress k d n st) j =
     (if j = k then map_option (\<lambda>row. row\<lparr>row_downloadedTiles := d, row_updatedAt := n\<rparr>) (download_jobs st k)
      else download_jobs st j)"
  by (simp add: updateJobProgress_def stmt_updateJobProgress_def split: option.splits)

lemma saveTile_fields:
  "activeJobs (saveTile z x y src data n st) = activeJobs st"
  "downloadStats (saveTile z x y src data n st) = downloadStats st"
  "queue (saveTile z x y src data n st) = queue st"
  "inflight (saveTile z x y src data n st) = inflight st"
  "logged (saveTile z x y src data n st) = logged st"
  "activeDownloads (saveTile z x y src data n st) = activeDownloads st"
  "maxConcurrent (saveTile z x y src data n st) = maxConcurrent st"
  "download_jobs (saveTile z x y src data n st) = download_jobs st"
  by (simp_all add: saveTile_def stmt_insertTile_def manageCacheSize_def Let_def split: list.splits)

lemma hasTile_state: "snd (hasTile z x y src st) = st"
  by (simp add: hasTile_def Let_def)

lemma hasTile_depends:
  "tiles_table st' = tiles_table st \<Longrightarrow> cache st' = cache st \<Longrightarrow>
   fst (hasTile z x y src st') = fst (hasTile z x y src st)"
  by (simp add: hasTile_def Let_def stmt_hasTile_def)

lemma handleTileDownloaded_fields:
  "queue (handleTileDownloaded k n st) = queue st"
  "inflight (handleTileDownloaded k n st) = inflight st"
  "logged (handleTileDownloaded k n st) = logged st"
  "activeDownloads (handleTileDownloaded k n st) = activeDownloads st"
  "maxConcurrent (handleTileDownloaded k n st) = maxConcurrent st"
  "tiles_table (handleTileDownloaded k n st) = tiles_table st"
  "cache (handleTileDownloaded k n st) = cache st"
  by (simp_all add: handleTileDownloaded_def Let_def updateJobProgress_fields split: option.splits)

lemma handleTileDownloaded_other:
  assumes "j \<noteq> k"
  shows "Map_get (activeJobs (handleTileDownloaded k n st)) j = Map_get (activeJobs st) j"
    and "Map_get (downloadStats (handleTileDownloaded k n st)) j = Map_get (downloadStats st) j"
    and "download_jobs (handleTileDownloaded k n st) j = download_jobs st j"
  using assms
  by (simp_all add: handleTileDownloaded_def Let_def updateJobProgress_fields updateJobProgress_row
        Map_get_Map_set split: option.splits)

lemma handleTileDownloaded_same:
  assumes "Map_get (activeJobs st) j = Some job" and "Map_get (downloadStats st) j = Some stats"
  shows "Map_get (activeJobs (handleTileDownloaded j n st)) j =
           Some (job\<lparr>job_downloadedTiles := job_downloadedTiles job + 1\<rparr>)"
    and "Map_get (downloadStats (handleTileDownloaded j n st)) j =
           Some (stats\<lparr>downloadedCount := downloadedCount stats + 1\<rparr>)"
    and "download_jobs (handleTileDownloaded j n st) j =
           (if (downloadedCount stats + 1) mod 10 = 0
            then map_option (\<lambda>row. row\<lparr>row_downloadedTiles := downloadedCount stats + 1, row_updatedAt := n\<rparr>)
                   (download_jobs st j)
            else download_jobs st j)"
  using assms
  by (simp_all add: handleTileDownloaded_def Let_def updateJobProgress_fields updateJobProgress_row
        Map_get_Map_set)

lemma handleTileFailed_fields:
  "queue (handleTileFailed k st) = queue st"
  "inflight (handleTileFailed k st) = inflight st"
  "logged (handleTileFailed k st) = logged st"
  "activeDownloads (handleTileFailed k st) = activeDownloads st"
  "maxConcurrent (handleTileFailed k st) = maxConcurrent st"
  "tiles_table (handleTileFailed k st) = tiles_table st"
  "cache (handleTileFailed k st) = cache st"
  "download_jobs (handleTileFailed k st) = download_jobs st"
  by (simp_all add: handleTileFailed_def split: option.splits)

lemma handleTileFailed_other:
  assumes "j \<noteq> k"
  shows "Map_get (activeJobs (handleTileFailed k st)) j = Map_get (activeJobs st) j"
    and "Map_get (downloadStats (handleTileFailed k st)) j = Map_get (downloadStats st) j"
  using assms
  by (simp_all add: handleTileFailed_def Map_get_Map_set split: option.splits)

lemma handleTileFailed_same:
  assumes "Map_get (activeJobs st) j = Some job" and "Map_get (downloadStats st) j = Some stats"
  shows "Map_get (activeJobs (handleTileFailed j st)) j =
           Some (job\<lparr>job_failedTiles := job_failedTiles job + 1\<rparr>)"
    and "Map_get (downloadStats (handleTileFailed j st)) j =
           Some (stats\<lparr>failedCount := failedCount stats + 1\<rparr>)"
  using assms
  by (simp_all add: handleTileFailed_def Map_get_Map_set)

lemma handleTileSkipped_fields:
  "activeJobs (handleTileSkipped k st) = activeJobs st"
  "queue (handleTileSkipped k st) = queue st"
  "inflight (handleTileSkipped k st) = inflight st"
  "logged (handleTileSkipped k st) = logged st"
  "activeDownloads (handleTileSkipped k st) = activeDownloads st"
  "maxConcurrent (handleTileSkipped k st) = maxConcurrent st"
  "tiles_table (handleTileSkipped k st) = tiles_table st"
  "cache (handleTileSkipped k st) = cache st"
  "download_jobs (handleTileSkipped k st) = download_jobs st"
  by (simp_all add: handleTileSkipped_def split: option.splits)

lemma handleTileSkipped_stats:
  "Map_get (downloadStats (handleTileSkipped k st)) j =
     (if j = k then map_option (\<lambda>stats. stats\<lparr>skippedCount := skippedCount stats + 1\<rparr>)
                      (Map_get (downloadStats st) k)
      else Map_get (downloadStats st) j)"
  by (simp add: handleTileSkipped_def Map_get_Map_set split: option.splits)

subsection \<open>Queueing the tiles of a job\<close>

lemma queueTile_fields:
  "activeJobs (queueTile k src z x y st) = activeJobs st"
  "inflight (queueTile k src z x y st) = inflight st"
  "logged (queueTile k src z x y st) = logged st"
  "activeDownloads (queueTile k src z x y st) = activeDownloads st"
  "maxConcurrent (queueTile k src z x y st) = maxConcurrent st"
  "tiles_table (queueTile k src z x y st) = tiles_table st"
  "cache (queueTile k src z x y st) = cache st"
  "download_jobs (queueTile k src z x y st) = download_jobs st"
  by (simp_all add: queueTile_def hasTile_def Let_def handleTileSkipped_fields)

lemma queueTile_queue:
  "queue (queueTile k src z x y st) =
     (if fst (hasTile z x y src st) then queue st
      else queue st @ [\<lparr>task_jobId = k, task_source = src, task_z = z, task_x = x, task_y = y\<rparr>])"
  by (simp add: queueTile_def hasTile_def Let_def handleTileSkipped_fields)

lemma queueTile_stats:
  "Map_get (downloadStats (queueTile k src z x y st)) j =
     (if j = k \<and> fst (hasTile z x y src st)
      then map_option (\<lambda>stats. stats\<lparr>skippedCount := skippedCount stats + 1\<rparr>)
             (Map_get (downloadStats st) k)
      else Map_get (downloadStats st) j)"
  by (simp add: queueTile_def hasTile_def Let_def handleTileSkipped_stats)

lemma queueTiles_fields:
  "activeJobs (fold (\<lambda>tile. queueTile k src (tile_z tile) (tile_x tile) (tile_y tile)) ts st) = activeJobs st"
  "inflight (fold (\<lambda>tile. queueTile k src (tile_z tile) (tile_x tile) (tile_y tile)) ts st) = inflight st"
  "logged (fold (\<lambda>tile. queueTile k src (tile_z tile) (tile_x tile) (tile_y tile)) ts st) = logged st"
  "activeDownloads (fold (\<lambda>tile. queueTile k src (tile_z tile) (tile_x tile) (tile_y tile)) ts st) = activeDownloads st"
  "maxConcurrent (fold (\<lambda>tile. queueTile k src (tile_z tile) (tile_x tile) (tile_y tile)) ts st) = maxConcurrent st"
  "tiles_table (fold (\<lambda>tile. queueTile k src (tile_z tile) (tile_x tile) (tile_y tile)) ts st) = tiles_table st"
  "cache (fold (\<lambda>tile. queueTile k src (tile_z tile) (tile_x tile) (tile_y tile)) ts st) = cache st"
  "download_jobs (fold (\<lambda>tile. queueTile k src (tile_z tile) (tile_x tile) (tile_y tile)) ts st) = download_jobs st"
  by (induction ts arbitrary: st; simp add: queueTile_fields)+

lemma present_in_cong:
  "tiles_table st' = tiles_table st \<Longrightarrow> cache st' = cache st \<Longrightarrow> present_in src st' = present_in src st"
  by (intro ext) (simp add: present_in_def hasTile_def Let_def stmt_hasTile_def)

lemma queueTiles_queue:
  "queue (fold (\<lambda>tile. queueTile k src (tile_z tile) (tile_x tile) (tile_y tile)) ts st) =
     queue st @ map (\<lambda>t. \<lparr>task_jobId = k, task_source = src, task_z = tile_z t, task_x = tile_x t,
                          task_y = tile_y t\<rparr>)
                    (filter (\<lambda>t. \<not> present_in src st t) ts)"
proof (induction ts arbitrary: st)
  case Nil
  then show ?case by simp
next
  case (Cons t ts)
  let ?st1 = "queueTile k src (tile_z t) (tile_x t) (tile_y t) st"
  have p: "present_in src ?st1 = present_in src st"
    by (rule present_in_cong) (simp_all add: queueTile_fields)
  show ?case
    by (simp add: Cons.IH p queueTile_queue) (simp add: present_in_def)
qed

lemma queueTiles_stats_other:
  "j \<noteq> k \<Longrightarrow>
   Map_get (downloadStats (fold (\<lambda>tile. queueTile k src (tile_z tile) (tile_x tile) (tile_y tile)) ts st)) j =
   Map_get (downloadStats st) j"
  by (induction ts arbitrary: st) (simp_all add: queueTile_stats)

lemma queueTiles_stats_same:
  assumes "Map_get (downloadStats st) k = Some stats"
  shows "Map_get (downloadStats (fold (\<lambda>tile. queueTile k src (tile_z tile) (tile_x tile) (tile_y tile)) ts st)) k =
     Some (stats\<lparr>skippedCount := skippedCount stats + int (length (filter (present_in src st) ts))\<rparr>)"
  using assms
proof (induction ts arbitrary: st stats)
  case Nil
  then show ?case by simp
next
  case (Cons t ts)
  let ?st1 = "queueTile k src (tile_z t) (tile_x t) (tile_y t) st"
  have p: "present_in src ?st1 = present_in src st"
    by (rule present_in_cong) (simp_all add: queueTile_fields)
  show ?case
  proof (cases "present_in src st t")
    case True
    then have s1: "Map_get (downloadStats ?st1) k = Some (stats\<lparr>skippedCount := skippedCount stats + 1\<rparr>)"
      using Cons.prems by (simp add: queueTile_stats present_in_def)
    show ?thesis
      using True by (simp add: Cons.IH[OF s1] p)
  next
    case False
    then have s1: "Map_get (downloadStats ?st1) k = Some stats"
      using Cons.prems by (simp add: queueTile_stats present_in_def)
    show ?thesis
      using False by (simp add: Cons.IH[OF s1] p)
  qed
qed

subsection \<open>Completion\<close>

lemma completeJob_fields:
  "queue (completeJob k n st) = queue st"
  "inflight (completeJob k n st) = inflight st"
  "activeDownloads (completeJob k n st) = activeDownloads st"
  "maxConcurrent (completeJob k n st) = maxConcurrent st"
  "tiles_table (completeJob k n st) = tiles_table st"
  "cache (completeJob k n st) = cache st"
  by (simp_all add: completeJob_def Let_def updateJobProgress_fields updateJobStatus_fields
        split: option.splits)

lemma completeJob_other:
  assumes "j \<noteq> k"
  shows "Map_get (activeJobs (completeJob k n st)) j = Map_get (activeJobs st) j"
    and "Map_get (downloadStats (completeJob k n st)) j = Map_get (downloadStats st) j"
    and "download_jobs (completeJob k n st) j = download_jobs st j"
    and "loggedFor j (completeJob k n st) = loggedFor j st"
  using assms
  by (simp_all add: completeJob_def Let_def updateJobProgress_fields updateJobStatus_fields
        updateJobProgress_row updateJobStatus_row Map_get_Map_delete loggedFor_def
        split: option.splits)

lemma completeJob_same:
  assumes "Map_get (activeJobs st) j = Some job" and "Map_get (downloadStats st) j = Some stats"
  shows "Map_get (activeJobs (completeJob j n st)) j = None"
    and "Map_get (downloadStats (completeJob j n st)) j = None"
    and "download_jobs (completeJob j n st) j =
           map_option (\<lambda>row. row\<lparr>row_downloadedTiles := downloadedCount stats,
                                 row_status := (if failedCount stats > 0 then ''completed_with_errors''
                                                else ''completed''),
                                 row_updatedAt := n\<rparr>) (download_jobs st j)"
    and "loggedFor j (completeJob j n st) =
           loggedFor j st @ [\<lparr>log_jobId = j, log_downloaded = downloadedCount stats,
                               log_skipped = skippedCount stats, log_failed = failedCount stats\<rparr>]"
  using assms
  by (simp_all add: completeJob_def Let_def updateJobProgress_fields updateJobStatus_fields
        updateJobProgress_row updateJobStatus_row Map_get_Map_delete loggedFor_def
        option.map_comp comp_def)

lemma checkJobComplete_cases:
  "checkJobComplete k n st = st \<or> checkJobComplete k n st = completeJob k n st"
  by (simp add: checkJobComplete_def Let_def split: option.splits)

subsection \<open>The loop of processQueue\<close>

lemma processQueue_loop_unroll:
  "activeDownloads st < maxConcurrent st \<Longrightarrow> queue st \<noteq> [] \<Longrightarrow>
   processQueue_loop st =
     processQueue_loop (st\<lparr>queue := tl (queue st), activeDownloads := activeDownloads st + 1,
                           inflight := inflight st @ [(hd (queue st), Fetching)]\<rparr>)"
  by (subst processQueue_loop.simps) simp

lemma processQueue_loop_done:
  assumes "\<not> (activeDownloads st < maxConcurrent st \<and> queue st \<noteq> [])"
  shows "processQueue_loop st = st"
  using assms by (subst processQueue_loop.simps) auto

lemma processQueue_loop_fields:
  "activeJobs (processQueue_loop st) = activeJobs st"
  "downloadStats (processQueue_loop st) = downloadStats st"
  "logged (processQueue_loop st) = logged st"
  "download_jobs (processQueue_loop st) = download_jobs st"
  "maxConcurrent (processQueue_loop st) = maxConcurrent st"
  "tiles_table (processQueue_loop st) = tiles_table st"
  "cache (processQueue_loop st) = cache st"
proof (induction st rule: processQueue_loop.induct)
  case (1 st)
  {
    assume c: "activeDownloads st < maxConcurrent st \<and> length (queue st) > 0"
    then have u: "processQueue_loop st =
       processQueue_loop (st\<lparr>queue := tl (queue st), activeDownloads := activeDownloads st + 1,
                           inflight := inflight st @ [(hd (queue st), Fetching)]\<rparr>)"
      by (intro processQueue_loop_unroll) auto
    note 1[OF c] u
  }
  note step = this
  {
    assume "\<not> (activeDownloads st < maxConcurrent st \<and> length (queue st) > 0)"
    then have "processQueue_loop st = st"
      by (intro processQueue_loop_done) auto
  }
  note stop = this
  show "activeJobs (processQueue_loop st) = activeJobs st"
    using step(1,8) stop by (cases "activeDownloads st < maxConcurrent st \<and> length (queue st) > 0") simp_all
  show "downloadStats (processQueue_loop st) = downloadStats st"
    using step(2,8) stop by (cases "activeDownloads st < maxConcurrent st \<and> length (queue st) > 0") simp_all
  show "logged (processQueue_loop st) = logged st"
    using step(3,8) stop by (cases "activeDownloads st < maxConcurrent st \<and> length (queue st) > 0") simp_all
  show "download_jobs (processQueue_loop st) = download_jobs st"
    using step(4,8) stop by (cases "activeDownloads st < maxConcurrent st \<and> length (queue st) > 0") simp_all
  show "maxConcurrent (processQueue_loop st) = maxConcurrent st"
    using step(5,8) stop by (cases "activeDownloads st < maxConcurrent st \<and> length (queue st) > 0") simp_all
  show "tiles_table (processQueue_loop st) = tiles_table st"
    using step(6,8) stop by (cases "activeDownloads st < maxConcurrent st \<and> length (queue st) > 0") simp_all
  show "cache (processQueue_loop st) = cache st"
    using step(7,8) stop by (cases "activeDownloads st < maxConcurrent st \<and> length (queue st) > 0") simp_all
qed

lemma processQueue_loop_counts:
  "queuedFor j (processQueue_loop st) + fetchingFor j (processQueue_loop st) =
   queuedFor j st + fetchingFor j st"
proof (induction st rule: processQueue_loop.induct)
  case (1 st)
  show ?case
  proof (cases "activeDownloads st < maxConcurrent st \<and> length (queue st) > 0")
    case True
    then obtain t ts where q: "queue st = t # ts" by (cases "queue st") auto
    let ?st1 = "st\<lparr>queue := tl (queue st), activeDownloads := activeDownloads st + 1,
                           inflight := inflight st @ [(hd (queue st), Fetching)]\<rparr>"
    have u: "processQueue_loop st = processQueue_loop ?st1"
      using True by (intro processQueue_loop_unroll) auto
    have "queuedFor j ?st1 + fetchingFor j ?st1 = queuedFor j st + fetchingFor j st"
      by (simp add: queuedFor_def fetchingFor_def q)
    then show ?thesis
      using 1[OF True] u by simp
  next
    case False
    then show ?thesis by (simp add: processQueue_loop_done)
  qed
qed

lemma processQueue_loop_slots:
  "slots_ok st \<Longrightarrow> slots_ok (processQueue_loop st)"
proof (induction st rule: processQueue_loop.induct)
  case (1 st)
  show ?case
  proof (cases "activeDownloads st < maxConcurrent st \<and> length (queue st) > 0")
    case True
    let ?st1 = "st\<lparr>queue := tl (queue st), activeDownloads := activeDownloads st + 1,
                           inflight := inflight st @ [(hd (queue st), Fetching)]\<rparr>"
    have u: "processQueue_loop st = processQueue_loop ?st1"
      using True by (intro processQueue_loop_unroll) auto
    have "slots_ok ?st1" using "1.prems" by (simp add: slots_ok_def)
    then show ?thesis using 1(1)[OF True] u by simp
  next
    case False
    then show ?thesis using "1.prems" by (simp add: processQueue_loop_done)
  qed
qed

lemma processQueue_loop_drained: "queue_drained (processQueue_loop st)"
proof (induction st rule: processQueue_loop.induct)
  case (1 st)
  show ?case
  proof (cases "activeDownloads st < maxConcurrent st \<and> length (queue st) > 0")
    case True
    let ?st1 = "st\<lparr>queue := tl (queue st), activeDownloads := activeDownloads st + 1,
                           inflight := inflight st @ [(hd (queue st), Fetching)]\<rparr>"
    have u: "processQueue_loop st = processQueue_loop ?st1"
      using True by (intro processQueue_loop_unroll) auto
    show ?thesis using 1[OF True] u by simp
  next
    case False
    then have "processQueue_loop st = st" by (simp add: processQueue_loop_done)
    then show ?thesis using False by (auto simp: queue_drained_def)
  qed
qed

subsection \<open>The accounting of one job\<close>

lemma job_runningE:
  assumes "job_running j T K F L0 r0 st"
  obtains job stats row where
    "Map_get (activeJobs st) j = Some job" "Map_get (downloadStats st) j = Some stats"
    "download_jobs st j = Some row"
    "job_totalTiles job = T" "skippedCount stats = K" "failedCount stats = F"
    "0 \<le> downloadedCount stats"
    "downloadedCount stats + F + int (queuedFor j st) + int (fetchingFor j st) = T - K"
    "row_downloadedTiles row = (if downloadedCount stats < 10 then r0 else 10 * (downloadedCount stats div 10))"
    "loggedFor j st = L0"
  using assms by (auto simp: job_running_def split: option.splits)

lemma job_runningI:
  assumes "Map_get (activeJobs st) j = Some job" "Map_get (downloadStats st) j = Some stats"
    "download_jobs st j = Some row"
    "job_totalTiles job = T" "skippedCount stats = K" "failedCount stats = F"
    "0 \<le> downloadedCount stats"
    "downloadedCount stats + F + int (queuedFor j st) + int (fetchingFor j st) = T - K"
    "row_downloadedTiles row = (if downloadedCount stats < 10 then r0 else 10 * (downloadedCount stats div 10))"
    "loggedFor j st = L0"
  shows "job_running j T K F L0 r0 st"
  using assms by (simp add: job_running_def)

lemma job_running_cong:
  assumes "Map_get (activeJobs st') j = Map_get (activeJobs st) j"
    and "Map_get (downloadStats st') j = Map_get (downloadStats st) j"
    and "download_jobs st' j = download_jobs st j"
    and "loggedFor j st' = loggedFor j st"
    and "queuedFor j st' + fetchingFor j st' = queuedFor j st + fetchingFor j st"
  shows "job_running j T K F L0 r0 st' = job_running j T K F L0 r0 st"
proof -
  have "int (queuedFor j st') + int (fetchingFor j st') = int (queuedFor j st) + int (fetchingFor j st)"
    using assms(5) by linarith
  then have e: "d + F + int (queuedFor j st') + int (fetchingFor j st') = T - K \<longleftrightarrow>
                d + F + int (queuedFor j st) + int (fetchingFor j st) = T - K" for d
    by linarith
  show ?thesis
    unfolding job_running_def assms(1-4) by (simp add: e split: option.splits)
qed

lemma job_completed_cong:
  assumes "Map_get (activeJobs st') j = Map_get (activeJobs st) j"
    and "Map_get (downloadStats st') j = Map_get (downloadStats st) j"
    and "download_jobs st' j = download_jobs st j"
    and "loggedFor j st' = loggedFor j st"
    and "queuedFor j st' = queuedFor j st"
    and "fetchingFor j st' = fetchingFor j st"
  shows "job_completed j T K F L0 st' = job_completed j T K F L0 st"
  unfolding job_completed_def assms ..

lemma completeJob_keeps_other:
  assumes "j \<noteq> k"
  shows "job_running j T K F L0 r0 (completeJob k n st) = job_running j T K F L0 r0 st"
    and "job_completed j T K F L0 (completeJob k n st) = job_completed j T K F L0 st"
  by (rule job_running_cong job_completed_cong;
      simp add: completeJob_other[OF assms] queuedFor_def fetchingFor_def completeJob_fields)+

lemma completeJob_completes:
  assumes r: "job_running j T K F L0 r0 st"
    and c: "downloadedCount stats + failedCount stats + skippedCount stats \<ge> T"
    and s: "Map_get (downloadStats st) j = Some stats"
  shows "job_completed j T K F L0 (completeJob j n st)"
proof -
  from r obtain job stats' row where
    a: "Map_get (activeJobs st) j = Some job" and s': "Map_get (downloadStats st) j = Some stats'"
    and row: "download_jobs st j = Some row"
    and f: "skippedCount stats' = K" "failedCount stats' = F" "0 \<le> downloadedCount stats'"
    and sum: "downloadedCount stats' + F + int (queuedFor j st) + int (fetchingFor j st) = T - K"
    and lg: "loggedFor j st = L0"
    by (auto elim: job_runningE)
  have [simp]: "stats' = stats" using s s' by simp
  have d: "downloadedCount stats = T - K - F" and q: "queuedFor j st = 0" and fe: "fetchingFor j st = 0"
    using c f sum by simp_all
  show ?thesis
    unfolding job_completed_def
    using completeJob_same[OF a s, of n] row f d q fe lg
    by (simp add: queuedFor_def fetchingFor_def completeJob_fields)
qed

lemma checkJobComplete_fields:
  "queue (checkJobComplete k n st) = queue st"
  "inflight (checkJobComplete k n st) = inflight st"
  "activeDownloads (checkJobComplete k n st) = activeDownloads st"
  "maxConcurrent (checkJobComplete k n st) = maxConcurrent st"
  "tiles_table (checkJobComplete k n st) = tiles_table st"
  "cache (checkJobComplete k n st) = cache st"
  using checkJobComplete_cases[of k n st] by (auto simp: completeJob_fields)

lemma checkJobComplete_pool:
  "slots_ok (checkJobComplete k n st) = slots_ok st"
  "queue_drained (checkJobComplete k n st) = queue_drained st"
  by (simp_all add: slots_ok_def queue_drained_def checkJobComplete_fields)

lemma checkJobComplete_other:
  assumes "j \<noteq> k"
  shows "job_running j T K F L0 r0 (checkJobComplete k n st) = job_running j T K F L0 r0 st"
    and "job_completed j T K F L0 (checkJobComplete k n st) = job_completed j T K F L0 st"
  using checkJobComplete_cases[of k n st] by (auto simp: completeJob_keeps_other[OF assms])

lemma checkJobComplete_completed:
  assumes "job_completed j T K F L0 st"
  shows "checkJobComplete j n st = st"
  using assms by (simp add: checkJobComplete_def job_completed_def)

lemma checkJobComplete_running:
  assumes r: "job_running j T K F L0 r0 st"
  shows "job_running j T K F L0 r0 (checkJobComplete j n st)
         \<or> job_completed j T K F L0 (checkJobComplete j n st)"
proof -
  from r obtain job stats where
    a: "Map_get (activeJobs st) j = Some job" and s: "Map_get (downloadStats st) j = Some stats"
    and t: "job_totalTiles job = T"
    by (auto elim: job_runningE)
  show ?thesis
  proof (cases "downloadedCount stats + failedCount stats + skippedCount stats \<ge> T \<and> activeDownloads st = 0")
    case True
    then have "checkJobComplete j n st = completeJob j n st"
      using a s t by (simp add: checkJobComplete_def Let_def)
    then show ?thesis using completeJob_completes[OF r _ s, of n] True by simp
  next
    case False
    then have "checkJobComplete j n st = st"
      using a s t by (auto simp: checkJobComplete_def Let_def)
    then show ?thesis using r by simp
  qed
qed

lemma checkJobComplete_idle:
  assumes r: "job_running j T K F L0 r0 st"
    and sl: "slots_ok st" and dr: "queue_drained st" and mc: "0 < maxConcurrent st"
    and idle: "inflight st = []"
  shows "job_completed j T K F L0 (checkJobComplete j n st)"
proof -
  from r obtain job stats where
    a: "Map_get (activeJobs st) j = Some job" and s: "Map_get (downloadStats st) j = Some stats"
    and t: "job_totalTiles job = T"
    and f: "skippedCount stats = K" "failedCount stats = F"
    and sum: "downloadedCount stats + F + int (queuedFor j st) + int (fetchingFor j st) = T - K"
    by (auto elim: job_runningE)
  have ad: "activeDownloads st = 0" using sl idle by (simp add: slots_ok_def)
  then have "queue st = []" using dr mc by (simp add: queue_drained_def)
  then have "queuedFor j st = 0" "fetchingFor j st = 0"
    using idle by (simp_all add: queuedFor_def fetchingFor_def)
  then have c: "downloadedCount stats + failedCount stats + skippedCount stats \<ge> T"
    using sum f by simp
  then have "checkJobComplete j n st = completeJob j n st"
    using a s t ad by (simp add: checkJobComplete_def Let_def)
  then show ?thesis using completeJob_completes[OF r c s, of n] by simp
qed

lemma check_all:
  assumes "slots_ok st" and "queue_drained st" and "0 < maxConcurrent st"
    and "job_running j T K F L0 r0 st \<or> job_completed j T K F L0 st"
  shows "slots_ok (fold (\<lambda>k. checkJobComplete k n) ks st)
       \<and> queue_drained (fold (\<lambda>k. checkJobComplete k n) ks st)
       \<and> maxConcurrent (fold (\<lambda>k. checkJobComplete k n) ks st) = maxConcurrent st
       \<and> inflight (fold (\<lambda>k. checkJobComplete k n) ks st) = inflight st
       \<and> (job_running j T K F L0 r0 (fold (\<lambda>k. checkJobComplete k n) ks st)
           \<or> job_completed j T K F L0 (fold (\<lambda>k. checkJobComplete k n) ks st))
       \<and> (job_completed j T K F L0 st \<longrightarrow> job_completed j T K F L0 (fold (\<lambda>k. checkJobComplete k n) ks st))
       \<and> (j \<in> set ks \<and> inflight st = [] \<longrightarrow>
            job_completed j T K F L0 (fold (\<lambda>k. checkJobComplete k n) ks st))"
  using assms
proof (induction ks arbitrary: st)
  case Nil
  then show ?case by simp
next
  case (Cons k ks)
  let ?st1 = "checkJobComplete k n st"
  have p: "slots_ok ?st1" "queue_drained ?st1" "0 < maxConcurrent ?st1"
    using Cons.prems by (simp_all add: checkJobComplete_pool checkJobComplete_fields)
  have J1: "job_running j T K F L0 r0 ?st1 \<or> job_completed j T K F L0 ?st1"
  proof (cases "k = j")
    case True
    show ?thesis
      using Cons.prems(4)
    proof
      assume "job_running j T K F L0 r0 st"
      then show ?thesis using checkJobComplete_running[of j T K F L0 r0 st n] True by simp
    next
      assume "job_completed j T K F L0 st"
      then show ?thesis using checkJobComplete_completed[of j T K F L0 st n] True by simp
    qed
  next
    case False
    then have "j \<noteq> k" by simp
    then show ?thesis using Cons.prems(4) by (simp add: checkJobComplete_other)
  qed
  have C1: "job_completed j T K F L0 ?st1" if "job_completed j T K F L0 st"
  proof (cases "k = j")
    case True
    then show ?thesis using that checkJobComplete_completed[of j T K F L0 st n] by simp
  next
    case False
    then have "j \<noteq> k" by simp
    then show ?thesis using that by (simp add: checkJobComplete_other)
  qed
  have I1: "job_completed j T K F L0 ?st1" if "k = j" "inflight st = []"
    using Cons.prems(4)
  proof
    assume "job_running j T K F L0 r0 st"
    then show ?thesis
      using checkJobComplete_idle[OF _ Cons.prems(1,2,3) that(2), of j T K F L0 r0 n] that(1) by simp
  next
    assume "job_completed j T K F L0 st"
    then show ?thesis by (rule C1)
  qed
  note IH = Cons.IH[OF p J1]
  have fl: "inflight ?st1 = inflight st" "maxConcurrent ?st1 = maxConcurrent st"
    by (simp_all add: checkJobComplete_fields)
  show ?case
    using IH C1 I1 fl by auto
qed

lemma processQueue_inv:
  assumes sl: "slots_ok st" and mc: "0 < maxConcurrent st"
    and J: "job_running j T K F L0 r0 st \<or> job_completed j T K F L0 st"
  shows "job_inv j T K F L0 r0 (processQueue n st)"
proof -
  let ?st1 = "processQueue_loop st"
  have sl1: "slots_ok ?st1" by (rule processQueue_loop_slots[OF sl])
  have dr1: "queue_drained ?st1" by (rule processQueue_loop_drained)
  have mc1: "0 < maxConcurrent ?st1" using mc by (simp add: processQueue_loop_fields)
  have cnt: "queuedFor j ?st1 + fetchingFor j ?st1 = queuedFor j st + fetchingFor j st"
    by (rule processQueue_loop_counts)
  have J1: "job_running j T K F L0 r0 ?st1 \<or> job_completed j T K F L0 ?st1"
    using J
  proof
    assume "job_running j T K F L0 r0 st"
    moreover have "job_running j T K F L0 r0 ?st1 = job_running j T K F L0 r0 st"
      by (rule job_running_cong) (simp_all add: processQueue_loop_fields loggedFor_def cnt)
    ultimately show ?thesis by simp
  next
    assume c: "job_completed j T K F L0 st"
    then have "queuedFor j st = 0" "fetchingFor j st = 0" by (simp_all add: job_completed_def)
    then have z: "queuedFor j ?st1 = 0" "fetchingFor j ?st1 = 0" using cnt by simp_all
    have "job_completed j T K F L0 ?st1 = job_completed j T K F L0 st"
      using z c by (simp add: job_completed_def processQueue_loop_fields loggedFor_def)
    then show ?thesis using c by simp
  qed
  note all = check_all[OF sl1 dr1 mc1 J1, of n "map fst (activeJobs ?st1)"]
  have idle: "job_completed j T K F L0 (processQueue n st)" if "inflight (processQueue n st) = []"
  proof -
    have i1: "inflight ?st1 = []" using that all by (simp add: processQueue_def Let_def)
    show ?thesis
      using J1
    proof
      assume r: "job_running j T K F L0 r0 ?st1"
      then have "j \<in> set (map fst (activeJobs ?st1))"
        by (auto elim!: job_runningE simp: Map_get_def dest!: map_of_SomeD intro: rev_image_eqI)
      then show ?thesis using all i1 by (simp add: processQueue_def Let_def)
    next
      assume "job_completed j T K F L0 ?st1"
      then show ?thesis using all by (simp add: processQueue_def Let_def)
    qed
  qed
  show ?thesis
    unfolding job_inv_def using all idle mc1 by (simp add: processQueue_def Let_def)
qed

subsection \<open>Starting a job\<close>

lemma startJob_unfold:
  "startJob j src ts n st =
     processQueue n
       (fold (\<lambda>tile. queueTile j src (tile_z tile) (tile_x tile) (tile_y tile)) ts
          (updateJobStatus j ''running'' n
             (st\<lparr>activeJobs := Map_set (activeJobs st) j
                     \<lparr>job_id = j, job_source = src, job_tiles = ts,
                      job_totalTiles = int (length ts), job_downloadedTiles = 0,
                      job_failedTiles = 0, job_status = ''running''\<rparr>,
                  downloadStats := Map_set (downloadStats st) j
                     \<lparr>startTime = n, downloadedCount = 0, failedCount = 0, skippedCount = 0\<rparr>\<rparr>)))"
  by (simp add: startJob_def Let_def)

lemma length_filter_not:
  "int (length (filter (\<lambda>t. \<not> P t) xs)) = int (length xs) - int (length (filter P xs))"
  using sum_length_filter_compl[of P xs] by simp

lemma startJob_inv:
  assumes sl: "slots_ok st" and mc: "0 < maxConcurrent st"
    and q0: "queuedFor j st = 0" and f0: "fetchingFor j st = 0"
    and row: "download_jobs st j = Some row0"
  shows "job_inv j (int (length ts)) (int (length (filter (present_in src st) ts))) 0
           (loggedFor j st) (row_downloadedTiles row0) (startJob j src ts n st)"
proof -
  let ?job = "\<lparr>job_id = j, job_source = src, job_tiles = ts,
                 job_totalTiles = int (length ts), job_downloadedTiles = 0,
                 job_failedTiles = 0, job_status = ''running''\<rparr>"
  let ?stats = "\<lparr>startTime = n, downloadedCount = 0, failedCount = 0, skippedCount = 0\<rparr>"
  let ?st2 = "st\<lparr>activeJobs := Map_set (activeJobs st) j ?job,
                  downloadStats := Map_set (downloadStats st) j ?stats\<rparr>"
  let ?st3 = "updateJobStatus j ''running'' n ?st2"
  let ?st4 = "fold (\<lambda>tile. queueTile j src (tile_z tile) (tile_x tile) (tile_y tile)) ts ?st3"
  have p: "present_in src ?st3 = present_in src st"
    by (rule present_in_cong) (simp_all add: updateJobStatus_fields)
  have s3: "Map_get (downloadStats ?st3) j = Some ?stats"
    by (simp add: updateJobStatus_fields Map_get_Map_set)
  have A: "Map_get (activeJobs ?st4) j = Some ?job"
    by (simp add: queueTiles_fields updateJobStatus_fields Map_get_Map_set)
  have S: "Map_get (downloadStats ?st4) j =
             Some (?stats\<lparr>skippedCount := int (length (filter (present_in src st) ts))\<rparr>)"
    using queueTiles_stats_same[OF s3, of src ts] by (simp add: p)
  have R: "download_jobs ?st4 j = Some (row0\<lparr>row_status := ''running'', row_updatedAt := n\<rparr>)"
    using row by (simp add: queueTiles_fields updateJobStatus_row)
  have Q: "int (queuedFor j ?st4) = int (length ts) - int (length (filter (present_in src st) ts))"
    using q0 by (simp add: queuedFor_def queueTiles_queue updateJobStatus_fields p filter_map comp_def
                      length_filter_not)
  have Fe: "fetchingFor j ?st4 = 0"
    using f0 by (simp add: fetchingFor_def queueTiles_fields updateJobStatus_fields)
  have L: "loggedFor j ?st4 = loggedFor j st"
    by (simp add: loggedFor_def queueTiles_fields updateJobStatus_fields)
  have run: "job_running j (int (length ts)) (int (length (filter (present_in src st) ts))) 0
           (loggedFor j st) (row_downloadedTiles row0) ?st4"
    by (rule job_runningI[OF A S R]) (simp_all add: Q Fe L)
  have sl4: "slots_ok ?st4"
    using sl by (simp add: slots_ok_def queueTiles_fields updateJobStatus_fields)
  have mc4: "0 < maxConcurrent ?st4"
    using mc by (simp add: queueTiles_fields updateJobStatus_fields)
  show ?thesis
    unfolding startJob_unfold by (rule processQueue_inv[OF sl4 mc4]) (simp add: run)
qed

subsection \<open>A fetch gets its outcome\<close>

lemma settleFirst_length:
  "settleFirst t fl = Some fl' \<Longrightarrow> length fl' = length fl \<and> fl' \<noteq> []"
  by (induction fl arbitrary: fl') (auto split: if_splits)

lemma settleFirst_fetching:
  "settleFirst t fl = Some fl' \<Longrightarrow>
   length (filter (\<lambda>p. task_jobId (fst p) = j \<and> snd p = Fetching) fl) =
   length (filter (\<lambda>p. task_jobId (fst p) = j \<and> snd p = Fetching) fl')
     + (if task_jobId t = j then 1 else 0)"
  by (induction fl arbitrary: fl') (auto split: if_splits)

lemma step_div:
  fixes d :: int
  assumes "(d + 1) mod 10 \<noteq> 0"
  shows "(d + 1) div 10 = d div 10"
  using assms by presburger

lemma step_mod:
  fixes d :: int
  assumes "0 \<le> d" "(d + 1) mod 10 = 0"
  shows "10 \<le> d + 1" "10 * ((d + 1) div 10) = d + 1"
  using assms by presburger+

lemma tenth_snapshot:
  fixes d :: int
  assumes "0 \<le> d" and "r = (if d < 10 then r0 else 10 * (d div 10))"
  shows "(if (d + 1) mod 10 = 0 then d + 1 else r) =
         (if d + 1 < 10 then r0 else 10 * ((d + 1) div 10))"
proof (cases "(d + 1) mod 10 = 0")
  case True
  then show ?thesis using step_mod[OF assms(1) True] by simp
next
  case False
  have "d + 1 \<noteq> 10" using False by auto
  then have "d + 1 < 10 \<longleftrightarrow> d < 10" by linarith
  then show ?thesis using False assms(2) step_div[OF False] by simp
qed

lemma settle_response_inv:
  assumes inv: "job_inv j T K F L0 r0 st"
    and fl: "settleFirst t (inflight st) = Some fl"
  shows "job_inv j T K F L0 r0
           (handleTileDownloaded (task_jobId t) n
             (saveTile (task_z t) (task_x t) (task_y t) (task_source t) data n (st\<lparr>inflight := fl\<rparr>)))"
    (is "job_inv j T K F L0 r0 ?st3")
proof -
  let ?st2 = "saveTile (task_z t) (task_x t) (task_y t) (task_source t) data n (st\<lparr>inflight := fl\<rparr>)"
  from inv have sl: "slots_ok st" and dr: "queue_drained st" and mc: "0 < maxConcurrent st"
    and J: "job_running j T K F L0 r0 st \<or> job_completed j T K F L0 st"
    by (simp_all add: job_inv_def)
  note len = settleFirst_length[OF fl]
  have fe: "fetchingFor j st = fetchingFor j ?st3 + (if task_jobId t = j then 1 else 0)"
    using settleFirst_fetching[OF fl, of j]
    by (simp add: fetchingFor_def handleTileDownloaded_fields saveTile_fields)
  have qu: "queuedFor j ?st3 = queuedFor j st"
    by (simp add: queuedFor_def handleTileDownloaded_fields saveTile_fields)
  have lg: "loggedFor j ?st3 = loggedFor j st"
    by (simp add: loggedFor_def handleTileDownloaded_fields saveTile_fields)
  have sl3: "slots_ok ?st3"
    using sl len by (simp add: slots_ok_def handleTileDownloaded_fields saveTile_fields)
  have dr3: "queue_drained ?st3"
    using dr by (simp add: queue_drained_def handleTileDownloaded_fields saveTile_fields)
  have mc3: "0 < maxConcurrent ?st3"
    using mc by (simp add: handleTileDownloaded_fields saveTile_fields)
  have busy: "inflight ?st3 \<noteq> []"
    using len by (simp add: handleTileDownloaded_fields saveTile_fields)
  have J3: "job_running j T K F L0 r0 ?st3 \<or> job_completed j T K F L0 ?st3"
  proof (cases "task_jobId t = j")
    case False
    then have o: "j \<noteq> task_jobId t" by simp
    have eqs: "Map_get (activeJobs ?st3) j = Map_get (activeJobs st) j"
      "Map_get (downloadStats ?st3) j = Map_get (downloadStats st) j"
      "download_jobs ?st3 j = download_jobs st j"
      by (simp_all add: handleTileDownloaded_other[OF o] saveTile_fields)
    have fe': "fetchingFor j ?st3 = fetchingFor j st" using fe False by simp
    have "job_running j T K F L0 r0 ?st3 = job_running j T K F L0 r0 st"
      by (rule job_running_cong) (simp_all add: eqs lg qu fe')
    moreover have "job_completed j T K F L0 ?st3 = job_completed j T K F L0 st"
      by (rule job_completed_cong) (simp_all add: eqs lg qu fe')
    ultimately show ?thesis using J by simp
  next
    case True
    from J show ?thesis
    proof
      assume "job_completed j T K F L0 st"
      then have "fetchingFor j st = 0" by (simp add: job_completed_def)
      then show ?thesis using fe True by simp
    next
      assume r: "job_running j T K F L0 r0 st"
      then obtain job stats row where
        a: "Map_get (activeJobs st) j = Some job" and s: "Map_get (downloadStats st) j = Some stats"
        and ro: "download_jobs st j = Some row"
        and f: "job_totalTiles job = T" "skippedCount stats = K" "failedCount stats = F"
               "0 \<le> downloadedCount stats"
        and sum: "downloadedCount stats + F + int (queuedFor j st) + int (fetchingFor j st) = T - K"
        and rd: "row_downloadedTiles row =
                   (if downloadedCount stats < 10 then r0 else 10 * (downloadedCount stats div 10))"
        and l0: "loggedFor j st = L0"
        by (rule job_runningE)
      have a2: "Map_get (activeJobs ?st2) j = Some job" and s2: "Map_get (downloadStats ?st2) j = Some stats"
        and r2: "download_jobs ?st2 j = Some row"
        using a s ro by (simp_all add: saveTile_fields)
      note h = handleTileDownloaded_same[OF a2 s2, of n]
      let ?row' = "if (downloadedCount stats + 1) mod 10 = 0
                   then row\<lparr>row_downloadedTiles := downloadedCount stats + 1, row_updatedAt := n\<rparr>
                   else row"
      have A3: "Map_get (activeJobs ?st3) j = Some (job\<lparr>job_downloadedTiles := job_downloadedTiles job + 1\<rparr>)"
        using h(1) True by simp
      have S3: "Map_get (downloadStats ?st3) j = Some (stats\<lparr>downloadedCount := downloadedCount stats + 1\<rparr>)"
        using h(2) True by simp
      have R3: "download_jobs ?st3 j = Some ?row'"
        using h(3) True r2 by simp
      have rd': "row_downloadedTiles ?row' =
          (if downloadedCount stats + 1 < 10 then r0 else 10 * ((downloadedCount stats + 1) div 10))"
        using tenth_snapshot[OF f(4) rd] by (simp split: if_splits)
      have sum': "downloadedCount stats + 1 + F + int (queuedFor j ?st3) + int (fetchingFor j ?st3) = T - K"
        using sum fe True qu by simp
      have "job_running j T K F L0 r0 ?st3"
        by (rule job_runningI[OF A3 S3 R3]) (use f rd' sum' lg l0 in simp_all)
      then show ?thesis by simp
    qed
  qed
  show ?thesis
    unfolding job_inv_def using sl3 dr3 mc3 J3 busy by simp
qed

lemma settle_failure_inv:
  assumes inv: "job_inv j T K F L0 r0 st"
    and fl: "settleFirst t (inflight st) = Some fl"
  shows "job_inv j T K (F + (if task_jobId t = j then 1 else 0)) L0 r0
           (handleTileFailed (task_jobId t) (st\<lparr>inflight := fl\<rparr>))"
    (is "job_inv j T K ?F' L0 r0 ?st3")
proof -
  let ?st2 = "st\<lparr>inflight := fl\<rparr>"
  from inv have sl: "slots_ok st" and dr: "queue_drained st" and mc: "0 < maxConcurrent st"
    and J: "job_running j T K F L0 r0 st \<or> job_completed j T K F L0 st"
    by (simp_all add: job_inv_def)
  note len = settleFirst_length[OF fl]
  have fe: "fetchingFor j st = fetchingFor j ?st3 + (if task_jobId t = j then 1 else 0)"
    using settleFirst_fetching[OF fl, of j]
    by (simp add: fetchingFor_def handleTileFailed_fields)
  have qu: "queuedFor j ?st3 = queuedFor j st"
    by (simp add: queuedFor_def handleTileFailed_fields)
  have lg: "loggedFor j ?st3 = loggedFor j st"
    by (simp add: loggedFor_def handleTileFailed_fields)
  have sl3: "slots_ok ?st3"
    using sl len by (simp add: slots_ok_def handleTileFailed_fields)
  have dr3: "queue_drained ?st3"
    using dr by (simp add: queue_drained_def handleTileFailed_fields)
  have mc3: "0 < maxConcurrent ?st3"
    using mc by (simp add: handleTileFailed_fields)
  have busy: "inflight ?st3 \<noteq> []"
    using len by (simp add: handleTileFailed_fields)
  have J3: "job_running j T K ?F' L0 r0 ?st3 \<or> job_completed j T K ?F' L0 ?st3"
  proof (cases "task_jobId t = j")
    case False
    then have o: "j \<noteq> task_jobId t" by simp
    have eqs: "Map_get (activeJobs ?st3) j = Map_get (activeJobs st) j"
      "Map_get (downloadStats ?st3) j = Map_get (downloadStats st) j"
      "download_jobs ?st3 j = download_jobs st j"
      by (simp_all add: handleTileFailed_other[OF o] handleTileFailed_fields)
    have fe': "fetchingFor j ?st3 = fetchingFor j st" using fe False by simp
    have "job_running j T K F L0 r0 ?st3 = job_running j T K F L0 r0 st"
      by (rule job_running_cong) (simp_all add: eqs lg qu fe')
    moreover have "job_completed j T K F L0 ?st3 = job_completed j T K F L0 st"
      by (rule job_completed_cong) (simp_all add: eqs lg qu fe')
    ultimately show ?thesis using J False by simp
  next
    case True
    from J show ?thesis
    proof
      assume "job_completed j T K F L0 st"
      then have "fetchingFor j st = 0" by (simp add: job_completed_def)
      then show ?thesis using fe True by simp
    next
      assume r: "job_running j T K F L0 r0 st"
      then obtain job stats row where
        a: "Map_get (activeJobs st) j = Some job" and s: "Map_get (downloadStats st) j = Some stats"
        and ro: "download_jobs st j = Some row"
        and f: "job_totalTiles job = T" "skippedCount stats = K" "failedCount stats = F"
               "0 \<le> downloadedCount stats"
        and sum: "downloadedCount stats + F + int (queuedFor j st) + int (fetchingFor j st) = T - K"
        and rd: "row_downloadedTiles row =
                   (if downloadedCount stats < 10 then r0 else 10 * (downloadedCount stats div 10))"
        and l0: "loggedFor j st = L0"
        by (rule job_runningE)
      have a2: "Map_get (activeJobs ?st2) j = Some job" and s2: "Map_get (downloadStats ?st2) j = Some stats"
        using a s by simp_all
      note h = handleTileFailed_same[OF a2 s2]
      have A3: "Map_get (activeJobs ?st3) j = Some (job\<lparr>job_failedTiles := job_failedTiles job + 1\<rparr>)"
        using h(1) True by simp
      have S3: "Map_get (downloadStats ?st3) j = Some (stats\<lparr>failedCount := failedCount stats + 1\<rparr>)"
        using h(2) True by simp
      have R3: "download_jobs ?st3 j = Some row"
        using ro by (simp add: handleTileFailed_fields)
      have sum': "downloadedCount stats + (F + 1) + int (queuedFor j ?st3) + int (fetchingFor j ?st3) = T - K"
        using sum fe True qu by simp
      have "job_running j T K (F + 1) L0 r0 ?st3"
        by (rule job_runningI[OF A3 S3 R3]) (use f rd sum' lg l0 in simp_all)
      then show ?thesis using True by simp
    qed
  qed
  show ?thesis
    unfolding job_inv_def using sl3 dr3 mc3 J3 busy by simp
qed

subsection \<open>A slot is released\<close>

lemma filter_remove1_not:
  "\<not> P x \<Longrightarrow> filter P (remove1 x xs) = filter P xs"
  by (induction xs) auto

lemma release_inv:
  assumes inv: "job_inv j T K F L0 r0 st"
    and mem: "(t, Settled) \<in> set (inflight st)"
  shows "job_inv j T K F L0 r0
           (processQueue n (st\<lparr>inflight := remove1 (t, Settled) (inflight st),
                               activeDownloads := activeDownloads st - 1\<rparr>))"
proof -
  let ?st1 = "st\<lparr>inflight := remove1 (t, Settled) (inflight st),
                  activeDownloads := activeDownloads st - 1\<rparr>"
  from inv have sl: "slots_ok st" and mc: "0 < maxConcurrent st"
    and J: "job_running j T K F L0 r0 st \<or> job_completed j T K F L0 st"
    by (simp_all add: job_inv_def)
  obtain m where m: "length (inflight st) = Suc m"
    using mem by (cases "inflight st") auto
  have "length (remove1 (t, Settled) (inflight st)) = m"
    using mem m by (simp add: length_remove1)
  then have sl1: "slots_ok ?st1" using sl m by (simp add: slots_ok_def)
  have mc1: "0 < maxConcurrent ?st1" using mc by simp
  have fe: "fetchingFor j ?st1 = fetchingFor j st"
    by (simp add: fetchingFor_def filter_remove1_not)
  have qu: "queuedFor j ?st1 = queuedFor j st"
    by (simp add: queuedFor_def)
  have "job_running j T K F L0 r0 ?st1 = job_running j T K F L0 r0 st"
    by (rule job_running_cong) (simp_all add: loggedFor_def fe qu)
  moreover have "job_completed j T K F L0 ?st1 = job_completed j T K F L0 st"
    by (rule job_completed_cong) (simp_all add: loggedFor_def fe qu)
  ultimately have J1: "job_running j T K F L0 r0 ?st1 \<or> job_completed j T K F L0 ?st1"
    using J by simp
  show ?thesis by (rule processQueue_inv[OF sl1 mc1 J1])
qed

subsection \<open>Another job is started or cancelled\<close>

lemma startJob_other_inv:
  assumes inv: "job_inv j T K F L0 r0 st" and o: "k \<noteq> j"
  shows "job_inv j T K F L0 r0 (startJob k src ts n st)"
proof -
  let ?job = "\<lparr>job_id = k, job_source = src, job_tiles = ts,
                 job_totalTiles = int (length ts), job_downloadedTiles = 0,
                 job_failedTiles = 0, job_status = ''running''\<rparr>"
  let ?stats = "\<lparr>startTime = n, downloadedCount = 0, failedCount = 0, skippedCount = 0\<rparr>"
  let ?st2 = "st\<lparr>activeJobs := Map_set (activeJobs st) k ?job,
                  downloadStats := Map_set (downloadStats st) k ?stats\<rparr>"
  let ?st3 = "updateJobStatus k ''running'' n ?st2"
  let ?st4 = "fold (\<lambda>tile. queueTile k src (tile_z tile) (tile_x tile) (tile_y tile)) ts ?st3"
  from inv have sl: "slots_ok st" and mc: "0 < maxConcurrent st"
    and J: "job_running j T K F L0 r0 st \<or> job_completed j T K F L0 st"
    by (simp_all add: job_inv_def)
  have o': "j \<noteq> k" using o by simp
  have A: "Map_get (activeJobs ?st4) j = Map_get (activeJobs st) j"
    using o by (simp add: queueTiles_fields updateJobStatus_fields Map_get_Map_set)
  have S: "Map_get (downloadStats ?st4) j = Map_get (downloadStats st) j"
    using o by (simp add: queueTiles_stats_other[OF o'] updateJobStatus_fields Map_get_Map_set)
  have R: "download_jobs ?st4 j = download_jobs st j"
    using o by (simp add: queueTiles_fields updateJobStatus_row)
  have Q: "queuedFor j ?st4 = queuedFor j st"
    using o by (simp add: queuedFor_def queueTiles_queue updateJobStatus_fields filter_map comp_def)
  have Fe: "fetchingFor j ?st4 = fetchingFor j st"
    by (simp add: fetchingFor_def queueTiles_fields updateJobStatus_fields)
  have L: "loggedFor j ?st4 = loggedFor j st"
    by (simp add: loggedFor_def queueTiles_fields updateJobStatus_fields)
  have "job_running j T K F L0 r0 ?st4 = job_running j T K F L0 r0 st"
    by (rule job_running_cong[OF A S R L]) (simp only: Q Fe)
  moreover have "job_completed j T K F L0 ?st4 = job_completed j T K F L0 st"
    by (rule job_completed_cong[OF A S R L Q Fe])
  ultimately have J4: "job_running j T K F L0 r0 ?st4 \<or> job_completed j T K F L0 ?st4"
    using J by simp
  have sl4: "slots_ok ?st4"
    using sl by (simp add: slots_ok_def queueTiles_fields updateJobStatus_fields)
  have mc4: "0 < maxConcurrent ?st4"
    using mc by (simp add: queueTiles_fields updateJobStatus_fields)
  show ?thesis
    unfolding startJob_unfold by (rule processQueue_inv[OF sl4 mc4 J4])
qed

lemma cancelJob_other_inv:
  assumes inv: "job_inv j T K F L0 r0 st" and o: "k \<noteq> j"
  shows "job_inv j T K F L0 r0 (snd (cancelJob k n st))"
proof (cases "Map_get (activeJobs st) k")
  case None
  then show ?thesis using inv by (simp add: cancelJob_def)
next
  case (Some job)
  let ?st1 = "st\<lparr>queue := filter (\<lambda>task. task_jobId task \<noteq> k) (queue st)\<rparr>"
  let ?st2 = "updateJobStatus k ''cancelled'' n ?st1"
  let ?st3 = "?st2\<lparr>activeJobs := Map_delete (activeJobs ?st2) k,
                    downloadStats := Map_delete (downloadStats ?st2) k\<rparr>"
  have c: "snd (cancelJob k n st) = ?st3"
    using Some by (simp add: cancelJob_def Let_def)
  from inv have sl: "slots_ok st" and dr: "queue_drained st" and mc: "0 < maxConcurrent st"
    and J: "job_running j T K F L0 r0 st \<or> job_completed j T K F L0 st"
    and idle: "inflight st = [] \<longrightarrow> job_completed j T K F L0 st"
    by (simp_all add: job_inv_def)
  have A: "Map_get (activeJobs ?st3) j = Map_get (activeJobs st) j"
    using o by (simp add: updateJobStatus_fields Map_get_Map_delete)
  have S: "Map_get (downloadStats ?st3) j = Map_get (downloadStats st) j"
    using o by (simp add: updateJobStatus_fields Map_get_Map_delete)
  have R: "download_jobs ?st3 j = download_jobs st j"
    using o by (simp add: updateJobStatus_row)
  have Q: "queuedFor j ?st3 = queuedFor j st"
  proof -
    have "filter (\<lambda>t. task_jobId t = j) (filter (\<lambda>task. task_jobId task \<noteq> k) (queue st)) =
          filter (\<lambda>t. task_jobId t = j) (queue st)"
      using o unfolding filter_filter by (intro filter_cong) auto
    then show ?thesis by (simp add: queuedFor_def updateJobStatus_fields)
  qed
  have Fe: "fetchingFor j ?st3 = fetchingFor j st"
    by (simp add: fetchingFor_def updateJobStatus_fields)
  have L: "loggedFor j ?st3 = loggedFor j st"
    by (simp add: loggedFor_def updateJobStatus_fields)
  have r: "job_running j T K F L0 r0 ?st3 = job_running j T K F L0 r0 st"
    by (rule job_running_cong[OF A S R L]) (simp only: Q Fe)
  have cpl: "job_completed j T K F L0 ?st3 = job_completed j T K F L0 st"
    by (rule job_completed_cong[OF A S R L Q Fe])
  have sl3: "slots_ok ?st3"
    using sl by (simp add: slots_ok_def updateJobStatus_fields)
  have dr3: "queue_drained ?st3"
    using dr by (auto simp: queue_drained_def updateJobStatus_fields)
  have mc3: "0 < maxConcurrent ?st3"
    using mc by (simp add: updateJobStatus_fields)
  have fl3: "inflight ?st3 = inflight st"
    by (simp add: updateJobStatus_fields)
  show ?thesis
    unfolding c job_inv_def using sl3 dr3 mc3 J idle r cpl fl3 by simp
qed

subsection \<open>Executions\<close>

lemma step_inv:
  assumes inv: "job_inv j T K F L0 r0 st"
    and st: "step n ev st = Some st'"
    and ev: "\<not> restarts j ev"
  shows "job_inv j T K (F + (if failureOf j ev then 1 else 0)) L0 r0 st'"
proof (cases ev)
  case (FetchSettled t outcome)
  then obtain fl where fl: "settleFirst t (inflight st) = Some fl"
    using st by (auto simp: downloadTile_settle_def split: option.splits)
  show ?thesis
  proof (cases outcome)
    case (Response data)
    then have "st' = handleTileDownloaded (task_jobId t) n
             (saveTile (task_z t) (task_x t) (task_y t) (task_source t) data n (st\<lparr>inflight := fl\<rparr>))"
      using st FetchSettled fl by (simp add: downloadTile_settle_def Let_def)
    then show ?thesis
      using settle_response_inv[OF inv fl, where data = data and n = n] FetchSettled Response by simp
  next
    case Failure
    then have "st' = handleTileFailed (task_jobId t) (st\<lparr>inflight := fl\<rparr>)"
      using st FetchSettled fl by (simp add: downloadTile_settle_def Let_def)
    then show ?thesis
      using settle_failure_inv[OF inv fl] FetchSettled Failure by simp
  qed
next
  case (SlotReleased t)
  then have mem: "(t, Settled) \<in> set (inflight st)"
    and "st' = processQueue n (st\<lparr>inflight := remove1 (t, Settled) (inflight st),
                               activeDownloads := activeDownloads st - 1\<rparr>)"
    using st by (auto simp: downloadTile_then_def split: if_splits)
  then show ?thesis
    using release_inv[OF inv mem, of n] SlotReleased by simp
next
  case (StartJob k src ts)
  then have "k \<noteq> j" and "st' = startJob k src ts n st"
    using st ev by auto
  then show ?thesis
    using startJob_other_inv[OF inv, of k src ts n] StartJob by simp
next
  case (CancelJob k)
  then have "k \<noteq> j" and "st' = snd (cancelJob k n st)"
    using st ev by auto
  then show ?thesis
    using cancelJob_other_inv[OF inv, of k n] CancelJob by simp
qed

lemma run_inv:
  assumes "job_inv j T K F L0 r0 st"
    and "run evs st = Some st'"
    and "\<forall>e \<in> set evs. \<not> restarts j (snd e)"
  shows "job_inv j T K (F + failuresOf j evs) L0 r0 st'"
  using assms
proof (induction evs arbitrary: st F)
  case Nil
  then show ?case by (simp add: failuresOf_def)
next
  case (Cons e evs)
  obtain n ev where e: "e = (n, ev)" by (cases e)
  from Cons.prems(2) obtain st1 where s1: "step n ev st = Some st1" and r1: "run evs st1 = Some st'"
    by (auto simp: e split: option.splits)
  have ne: "\<not> restarts j ev" using Cons.prems(3) by (simp add: e)
  note i1 = step_inv[OF Cons.prems(1) s1 ne]
  have "job_inv j T K (F + (if failureOf j ev then 1 else 0) + failuresOf j evs) L0 r0 st'"
    using Cons.IH[OF i1 r1] Cons.prems(3) by simp
  moreover have "F + (if failureOf j ev then 1 else 0) + failuresOf j evs = F + failuresOf j (e # evs)"
    by (simp add: failuresOf_def e)
  ultimately show ?case by simp
qed

lemma job_inv_not_active:
  assumes "job_inv j T K F L0 r0 st" and "Map_get (activeJobs st) j = None"
  shows "job_completed j T K F L0 st"
  using assms by (auto simp: job_inv_def elim: job_runningE)

lemma job_inv_active:
  assumes "job_inv j T K F L0 r0 st" and "Map_get (downloadStats st) j = Some stats"
  shows "job_running j T K F L0 r0 st"
  using assms by (auto simp: job_inv_def job_completed_def)

subsection \<open>Every job can be brought to its end\<close>

lemma pending_processQueue_loop: "pending (processQueue_loop st) \<le> pending st"
proof (induction st rule: processQueue_loop.induct)
  case (1 st)
  show ?case
  proof (cases "activeDownloads st < maxConcurrent st \<and> length (queue st) > 0")
    case True
    let ?st' = "st\<lparr>queue := tl (queue st), activeDownloads := activeDownloads st + 1,
                    inflight := inflight st @ [(hd (queue st), Fetching)]\<rparr>"
    have u: "processQueue_loop st = processQueue_loop ?st'"
      using True by (intro processQueue_loop_unroll) auto
    have "pending ?st' \<le> pending st"
      using True by (cases "queue st") (simp_all add: pending_def)
    with 1[OF True] show ?thesis unfolding u by simp
  next
    case False
    then have "processQueue_loop st = st"
      by (intro processQueue_loop_done) auto
    then show ?thesis by simp
  qed
qed

lemma pending_check_all:
  "pending (fold (\<lambda>jobId. checkJobComplete jobId n) ks st) = pending st"
  by (induction ks arbitrary: st) (simp_all add: pending_def checkJobComplete_fields)

lemma pending_processQueue: "pending (processQueue n st) \<le> pending st"
  by (simp add: processQueue_def Let_def pending_check_all pending_processQueue_loop)

lemma run_can_drain:
  "\<exists>evs st'. run evs st = Some st' \<and> inflight st' = []
      \<and> (\<forall>e \<in> set evs. \<forall>j. \<not> restarts j (snd e) \<and> \<not> failureOf j (snd e))"
proof (induction "pending st" arbitrary: st rule: less_induct)
  case less
  show ?case
  proof (cases "inflight st")
    case Nil
    have "run [] st = Some st" by simp
    with Nil show ?thesis by (intro exI[of _ "[]"] exI[of _ st]) simp
  next
    case (Cons p ps)
    obtain t ph where p: "p = (t, ph)" by (cases p)
    show ?thesis
    proof (cases ph)
      case Fetching
      let ?st1 = "handleTileDownloaded (task_jobId t) 0
                    (saveTile (task_z t) (task_x t) (task_y t) (task_source t) [] 0
                       (st\<lparr>inflight := (t, Settled) # ps\<rparr>))"
      have s: "step 0 (FetchSettled t (Response [])) st = Some ?st1"
        by (simp add: downloadTile_settle_def Cons p Fetching)
      have "pending ?st1 < pending st"
        by (simp add: pending_def handleTileDownloaded_fields saveTile_fields Cons p Fetching)
      from less[OF this] obtain evs st' where r: "run evs ?st1 = Some st'" and i: "inflight st' = []"
        and e: "\<forall>e \<in> set evs. \<forall>j. \<not> restarts j (snd e) \<and> \<not> failureOf j (snd e)"
        by blast
      have "run ((0, FetchSettled t (Response [])) # evs) st = Some st'"
        using s r by simp
      moreover have "\<forall>e \<in> set ((0, FetchSettled t (Response [])) # evs).
                       \<forall>j. \<not> restarts j (snd e) \<and> \<not> failureOf j (snd e)"
        using e by simp
      ultimately show ?thesis using i by blast
    next
      case Settled
      let ?st0 = "st\<lparr>inflight := remove1 (t, Settled) (inflight st),
                      activeDownloads := activeDownloads st - 1\<rparr>"
      let ?st1 = "processQueue 0 ?st0"
      have s: "step 0 (SlotReleased t) st = Some ?st1"
        by (simp add: downloadTile_then_def Cons p Settled)
      have "pending ?st0 < pending st"
        by (simp add: pending_def Cons p Settled)
      then have "pending ?st1 < pending st"
        using pending_processQueue[of 0 ?st0] by simp
      from less[OF this] obtain evs st' where r: "run evs ?st1 = Some st'" and i: "inflight st' = []"
        and e: "\<forall>e \<in> set evs. \<forall>j. \<not> restarts j (snd e) \<and> \<not> failureOf j (snd e)"
        by blast
      have "run ((0, SlotReleased t) # evs) st = Some st'"
        using s r by simp
      moreover have "\<forall>e \<in> set ((0, SlotReleased t) # evs).
                       \<forall>j. \<not> restarts j (snd e) \<and> \<not> failureOf j (snd e)"
        using e by simp
      ultimately show ?thesis using i by blast
    qed
  qed
qed

lemma startJob_can_complete:
  assumes "slots_ok st0" and "0 < maxConcurrent st0"
    and "queuedFor jobId st0 = 0" and "fetchingFor jobId st0 = 0"
    and "download_jobs st0 jobId = Some row0"
  shows "\<exists>evs st. run evs (startJob jobId source tiles now st0) = Some st
           \<and> (\<forall>e \<in> set evs. \<not> restarts jobId (snd e))
           \<and> failuresOf jobId evs = 0
           \<and> job_completed jobId (int (length tiles))
                (int (length (filter (present_in source st0) tiles))) 0 (loggedFor jobId st0) st"
proof -
  let ?T = "int (length tiles)"
  let ?K = "int (length (filter (present_in source st0) tiles))"
  let ?s = "startJob jobId source tiles now st0"
  from run_can_drain[of ?s] obtain evs st where r: "run evs ?s = Some st" and i: "inflight st = []"
    and e: "\<forall>e \<in> set evs. \<forall>j. \<not> restarts j (snd e) \<and> \<not> failureOf j (snd e)"
    by blast
  have nr: "\<forall>e \<in> set evs. \<not> restarts jobId (snd e)" using e by blast
  have "filter (\<lambda>e. failureOf jobId (snd e)) evs = []"
    using e by (simp add: filter_empty_conv)
  then have F: "failuresOf jobId evs = 0" by (simp add: failuresOf_def)
  have i0: "job_inv jobId ?T ?K 0 (loggedFor jobId st0) (row_downloadedTiles row0) ?s"
    by (rule startJob_inv[OF assms])
  have "job_inv jobId ?T ?K (0 + failuresOf jobId evs) (loggedFor jobId st0) (row_downloadedTiles row0) st"
    by (rule run_inv[OF i0 r nr])
  then have "job_completed jobId ?T ?K 0 (loggedFor jobId st0) st"
    using i by (simp add: F job_inv_def)
  with r nr F show ?thesis by blast
qed

subsection \<open>The example, evaluated\<close>

lemmas example_eval =
  example_forge_def example_tiles_def example_task_def
  TileForge_new_def createDownloadJob_def saveTile_def stmt_insertTile_def manageCacheSize_def
  startJob_def queueTile_def hasTile_def stmt_hasTile_def handleTileSkipped_def
  handleTileDownloaded_def handleTileFailed_def
  processQueue_def processQueue_loop.simps checkJobComplete_def completeJob_def
  updateJobStatus_def stmt_updateJobStatus_def updateJobProgress_def stmt_updateJobProgress_def
  downloadTile_settle_def downloadTile_then_def
  Map_has_def Map_get_def Map_delete_def
  getCacheKey_arcgis_1_0_0 getCacheKey_arcgis_1_1_0 Let_def

lemma example_forge_ready:
  "slots_ok example_forge" "0 < maxConcurrent example_forge"
  "queuedFor ''job1'' example_forge = 0" "fetchingFor ''job1'' example_forge = 0"
  "map_option row_downloadedTiles (download_jobs example_forge ''job1'') = Some 0"
  "loggedFor ''job1'' example_forge = []"
  by (simp_all add: example_eval slots_ok_def queuedFor_def fetchingFor_def loggedFor_def)

lemma example_present:
  "filter (present_in ''arcgis'' example_forge) example_tiles = [\<lparr>tile_x = 0, tile_y = 0, tile_z = 1\<rparr>]"
  by (simp add: present_in_def example_eval)

lemma example_run_complete:
  "map_option inflight
     (run [(200, FetchSettled example_task (Response ''b'')), (201, SlotReleased example_task)]
        (startJob ''job1'' ''arcgis'' example_tiles 100 example_forge)) = Some []"
  by (simp add: example_eval)

lemma example_run_active:
  "map_option (\<lambda>st. Map_get (downloadStats st) ''job1'')
     (run [(200, FetchSettled example_task (Response ''b''))]
        (startJob ''job1'' ''arcgis'' example_tiles 100 example_forge))
   = Some (Some \<lparr>startTime = 100, downloadedCount = 1, failedCount = 0, skippedCount = 1\<rparr>)"
  by (simp add: example_eval)

subsection \<open>Skip accounting and cancellation\<close>

lemma present_in_stored:
  assumes "\<forall>t \<in> set tiles.
             Map_has (cache st) (getCacheKey (tile_z t) (tile_x t) (tile_y t) source) \<longrightarrow> stored source st t"
  shows "filter (present_in source st) tiles = filter (stored source st) tiles"
proof (rule filter_cong[OF refl])
  fix t assume "t \<in> set tiles"
  with assms show "present_in source st t = stored source st t"
    by (auto simp: present_in_def hasTile_def Let_def stored_def)
qed

lemma example_stored:
  "filter (stored ''arcgis'' example_forge) example_tiles = [\<lparr>tile_x = 0, tile_y = 0, tile_z = 1\<rparr>]"
  by (simp add: stored_def example_eval)

lemma running_forge_pending:
  "queue running_forge = []"
  "inflight running_forge = [(example_task0, Fetching), (example_task, Fetching)]"
  "tiles_table running_forge = []"
  by (simp_all add: running_forge_def fresh_forge_def example_task0_def example_eval)

lemma running_forge_restarted:
  "map_option (\<lambda>st. (loggedFor ''job1'' st, map_option row_status (download_jobs st ''job1''),
                      map_option row_downloadedTiles (download_jobs st ''job1''), inflight st))
     (run four_fetches (startJob ''job1'' ''arcgis'' example_tiles 150 running_forge))
   = Some ([\<lparr>log_jobId = ''job1'', log_downloaded = 4, log_skipped = 0, log_failed = 0\<rparr>],
           Some ''completed'', Some 4, [])"
  by (simp add: running_forge_def fresh_forge_def example_task0_def four_fetches_def loggedFor_def
        example_eval)

text \<open>
  Claim C3 states that every job started with \<open>T\<close> tiles of which \<open>K\<close> are in the store, all
  of whose fetches succeed, completes with downloaded \<open>T - K\<close>. \<open>startJob\<close> does not look
  whether the job id is already active, and \<open>extendJob\<close> calls it for any registered job:
  started again on its two tiles while its first two fetches are pending (none of the tiles
  is stored yet), \<open>job1\<close> has four fetches, all succeed, and it completes with downloaded 4,
  skipped 0, failed 0 and status \<open>completed\<close>, where \<open>T - K = 2\<close>.
\<close>

theorem skip_accounting_restart_counterexample:
  "int (length example_tiles) = 2
   \<and> filter (stored ''arcgis'' running_forge) example_tiles = []
   \<and> failuresOf ''job1'' four_fetches = 0
   \<and> map_option (loggedFor ''job1'')
        (run four_fetches (startJob ''job1'' ''arcgis'' example_tiles 150 running_forge))
       = Some [\<lparr>log_jobId = ''job1'', log_downloaded = 4, log_skipped = 0, log_failed = 0\<rparr>]
   \<and> map_option (\<lambda>st. map_option row_status (download_jobs st ''job1''))
        (run four_fetches (startJob ''job1'' ''arcgis'' example_tiles 150 running_forge))
       = Some (Some ''completed'')
   \<and> map_option (\<lambda>st. map_option row_downloadedTiles (download_jobs st ''job1''))
        (run four_fetches (startJob ''job1'' ''arcgis'' example_tiles 150 running_forge))
       = Some (Some 4)"
proof -
  have t: "int (length example_tiles) = 2"
    by (simp add: example_tiles_def)
  have k: "filter (stored ''arcgis'' running_forge) example_tiles = []"
    by (simp add: stored_def stmt_hasTile_def running_forge_pending example_tiles_def)
  have f: "failuresOf ''job1'' four_fetches = 0"
    by (simp add: failuresOf_def four_fetches_def)
  from running_forge_restarted obtain st where
    r: "run four_fetches (startJob ''job1'' ''arcgis'' example_tiles 150 running_forge) = Some st"
    and l: "loggedFor ''job1'' st =
              [\<lparr>log_jobId = ''job1'', log_downloaded = 4, log_skipped = 0, log_failed = 0\<rparr>]"
    and s: "map_option row_status (download_jobs st ''job1'') = Some ''completed''"
    and d: "map_option row_downloadedTiles (download_jobs st ''job1'') = Some 4"
    by auto
  show ?thesis
    using t k f l s d by (simp add: r)
qed

text \<open>
  Claim C3, amended. A job is started with a list of \<open>T\<close> tiles of which \<open>K\<close> are in the
  store (a row in table \<open>tiles\<close>), on a scheduler that holds no task of this job and whose
  cache holds no tile of the list that has no row; the job is not started again or cancelled
  afterwards, and \<open>F\<close> of its fetches fail. Then, in every state an execution reaches: when
  no fetch is pending the job has been completed; and once the job has been completed,
  \<open>completeJob\<close> has logged for it exactly the counters downloaded \<open>T - K - F\<close>, skipped
  \<open>K\<close>, failed \<open>F\<close>, and the registry holds \<open>downloadedTiles = T - K - F\<close> and the status
  \<open>completed\<close> when \<open>F = 0\<close>, \<open>completed_with_errors\<close> when \<open>F > 0\<close>. With \<open>F = 0\<close> this is
  downloaded \<open>T - K\<close>, skipped \<open>K\<close>, failed \<open>0\<close>, status \<open>completed\<close>. By
  \<open>startJob_can_complete\<close> an execution without failures that ends the job exists from every
  such start.
\<close>

theorem skip_accounting:
  assumes "slots_ok st0" and "0 < maxConcurrent st0"
    and "queuedFor jobId st0 = 0" and "fetchingFor jobId st0 = 0"
    and "download_jobs st0 jobId = Some row0"
    and "\<forall>t \<in> set tiles.
           Map_has (cache st0) (getCacheKey (tile_z t) (tile_x t) (tile_y t) source) \<longrightarrow> stored source st0 t"
    and "run evs (startJob jobId source tiles now st0) = Some st"
    and "\<forall>e \<in> set evs. \<not> restarts jobId (snd e)"
  shows "(inflight st = [] \<longrightarrow> Map_get (activeJobs st) jobId = None)
       \<and> (Map_get (activeJobs st) jobId = None \<longrightarrow>
            loggedFor jobId st = loggedFor jobId st0 @
              [\<lparr>log_jobId = jobId,
                log_downloaded = int (length tiles) - int (length (filter (stored source st0) tiles))
                                   - failuresOf jobId evs,
                log_skipped = int (length (filter (stored source st0) tiles)),
                log_failed = failuresOf jobId evs\<rparr>]
          \<and> map_option row_downloadedTiles (download_jobs st jobId) =
              Some (int (length tiles) - int (length (filter (stored source st0) tiles))
                      - failuresOf jobId evs)
          \<and> map_option row_status (download_jobs st jobId) =
              Some (if failuresOf jobId evs > 0 then ''completed_with_errors'' else ''completed''))"
proof -
  let ?T = "int (length tiles)"
  let ?K = "int (length (filter (stored source st0) tiles))"
  have K: "int (length (filter (present_in source st0) tiles)) = ?K"
    using present_in_stored[OF assms(6)] by simp
  have i0: "job_inv jobId ?T ?K 0 (loggedFor jobId st0) (row_downloadedTiles row0)
              (startJob jobId source tiles now st0)"
    using startJob_inv[OF assms(1-5), of tiles source now] unfolding K .
  have i: "job_inv jobId ?T ?K (failuresOf jobId evs) (loggedFor jobId st0) (row_downloadedTiles row0) st"
    using run_inv[OF i0 assms(7,8)] by simp
  have a: "Map_get (activeJobs st) jobId = None" if "inflight st = []"
    using i that by (simp add: job_inv_def job_completed_def)
  have b: "job_completed jobId ?T ?K (failuresOf jobId evs) (loggedFor jobId st0) st"
    if "Map_get (activeJobs st) jobId = None"
    by (rule job_inv_not_active[OF i that])
  show ?thesis
    using a b by (auto simp: job_completed_def split: option.splits)
qed

theorem skip_accounting_witness:
  "slots_ok example_forge \<and> 0 < maxConcurrent example_forge
   \<and> queuedFor ''job1'' example_forge = 0 \<and> fetchingFor ''job1'' example_forge = 0
   \<and> download_jobs example_forge ''job1'' \<noteq> None
   \<and> cache example_forge = [(''arcgis/1/0/0'', ''a'')]
   \<and> Map_has (cache example_forge) (getCacheKey 1 0 0 ''arcgis'')
   \<and> stored ''arcgis'' example_forge \<lparr>tile_x = 0, tile_y = 0, tile_z = 1\<rparr>
   \<and> \<not> Map_has (cache example_forge) (getCacheKey 1 1 0 ''arcgis'')
   \<and> filter (stored ''arcgis'' example_forge) example_tiles = [\<lparr>tile_x = 0, tile_y = 0, tile_z = 1\<rparr>]
   \<and> run [(200, FetchSettled example_task (Response ''b'')), (201, SlotReleased example_task)]
        (startJob ''job1'' ''arcgis'' example_tiles 100 example_forge) \<noteq> None
   \<and> \<not> restarts ''job1'' (FetchSettled example_task (Response ''b''))
   \<and> \<not> restarts ''job1'' (SlotReleased example_task)
   \<and> inflight (the (run [(200, FetchSettled example_task (Response ''b'')), (201, SlotReleased example_task)]
        (startJob ''job1'' ''arcgis'' example_tiles 100 example_forge))) = []
   \<and> Map_get (activeJobs (the (run [(200, FetchSettled example_task (Response ''b'')), (201, SlotReleased example_task)]
        (startJob ''job1'' ''arcgis'' example_tiles 100 example_forge)))) ''job1'' = None
   \<and> loggedFor ''job1'' (the (run [(200, FetchSettled example_task (Response ''b'')), (201, SlotReleased example_task)]
        (startJob ''job1'' ''arcgis'' example_tiles 100 example_forge)))
       = [\<lparr>log_jobId = ''job1'', log_downloaded = 1, log_skipped = 1, log_failed = 0\<rparr>]
   \<and> map_option row_downloadedTiles (download_jobs (the (run [(200, FetchSettled example_task (Response ''b'')), (201, SlotReleased example_task)]
        (startJob ''job1'' ''arcgis'' example_tiles 100 example_forge))) ''job1'') = Some 1
   \<and> map_option row_status (download_jobs (the (run [(200, FetchSettled example_task (Response ''b'')), (201, SlotReleased example_task)]
        (startJob ''job1'' ''arcgis'' example_tiles 100 example_forge))) ''job1'') = Some ''completed''"
proof -
  let ?evs = "[(200, FetchSettled example_task (Response ''b'')), (201, SlotReleased example_task)]"
  let ?run = "run ?evs (startJob ''job1'' ''arcgis'' example_tiles 100 example_forge)"
  from example_run_complete obtain st where st: "?run = Some st" and idle: "inflight st = []"
    by auto
  from example_forge_ready(5) obtain row0 where row0: "download_jobs example_forge ''job1'' = Some row0"
    by auto
  have c: "cache example_forge = [(''arcgis/1/0/0'', ''a'')]"
    by (simp add: example_eval)
  have cb: "\<forall>t \<in> set example_tiles.
         Map_has (cache example_forge) (getCacheKey (tile_z t) (tile_x t) (tile_y t) ''arcgis'')
         \<longrightarrow> stored ''arcgis'' example_forge t"
    by (simp add: stored_def example_eval)
  have ev: "\<forall>e \<in> set ?evs. \<not> restarts ''job1'' (snd e)" by simp
  have F: "failuresOf ''job1'' ?evs = 0" by (simp add: failuresOf_def)
  have T: "int (length example_tiles) = 2" by (simp add: example_tiles_def)
  have K: "int (length (filter (stored ''arcgis'' example_forge) example_tiles)) = 1"
    by (simp add: example_stored)
  note th = skip_accounting[OF example_forge_ready(1-4) row0 cb st ev]
  have h: "Map_has (cache example_forge) (getCacheKey 1 0 0 ''arcgis'')"
    "stored ''arcgis'' example_forge \<lparr>tile_x = 0, tile_y = 0, tile_z = 1\<rparr>"
    "\<not> Map_has (cache example_forge) (getCacheKey 1 1 0 ''arcgis'')"
    by (simp_all add: stored_def example_eval)
  show ?thesis
    using th idle st row0 c h example_stored example_forge_ready(1-4,6) by (simp add: F T K)
qed

text \<open>
  Claim C10. A job is started as in C3, its registry record holding \<open>downloadedTiles = r\<close>
  with \<open>0 \<le> r\<close> (0 as \<open>createDownloadJob\<close> writes it, the count of the previous run when
  the job is extended), and is still active, with live counter \<open>downloadedCount\<close>. Then
  \<open>cancelJob\<close> succeeds; in the registry it changes only the fields \<open>status\<close> (to
  \<open>cancelled\<close>) and \<open>updatedAt\<close> of the record of this job; the tile table is unchanged;
  the record holds the last snapshot, \<open>10 * (downloadedCount div 10)\<close> once ten tiles have
  been downloaded and \<open>r\<close> before, and this is what the status query reports after the
  cancellation: at most 9 fewer tiles than were downloaded, and for \<open>r = 0\<close> exactly
  \<open>downloadedCount mod 10\<close> fewer.
\<close>

theorem cancel_keeps_snapshot:
  assumes "slots_ok st0" and "0 < maxConcurrent st0"
    and "queuedFor jobId st0 = 0" and "fetchingFor jobId st0 = 0"
    and "download_jobs st0 jobId = Some row0" and "0 \<le> row_downloadedTiles row0"
    and "run evs (startJob jobId source tiles now st0) = Some st"
    and "\<forall>e \<in> set evs. \<not> restarts jobId (snd e)"
    and "Map_get (downloadStats st) jobId = Some stats"
  shows "fst (cancelJob jobId now' st)
       \<and> download_jobs st jobId \<noteq> None
       \<and> download_jobs (snd (cancelJob jobId now' st)) =
           (download_jobs st)(jobId \<mapsto>
              (the (download_jobs st jobId))\<lparr>row_status := ''cancelled'', row_updatedAt := now'\<rparr>)
       \<and> tiles_table (snd (cancelJob jobId now' st)) = tiles_table st
       \<and> map_option status_downloadedTiles (getJobStatus jobId (snd (cancelJob jobId now' st))) =
           Some (if downloadedCount stats < 10 then row_downloadedTiles row0
                 else 10 * (downloadedCount stats div 10))
       \<and> downloadedCount stats
           - (if downloadedCount stats < 10 then row_downloadedTiles row0
              else 10 * (downloadedCount stats div 10)) \<le> 9
       \<and> (row_downloadedTiles row0 = 0 \<longrightarrow>
            map_option status_downloadedTiles (getJobStatus jobId (snd (cancelJob jobId now' st))) =
              Some (downloadedCount stats - downloadedCount stats mod 10))"
proof -
  let ?T = "int (length tiles)"
  let ?K = "int (length (filter (present_in source st0) tiles))"
  let ?st' = "snd (cancelJob jobId now' st)"
  let ?r = "if downloadedCount stats < 10 then row_downloadedTiles row0
            else 10 * (downloadedCount stats div 10)"
  have i0: "job_inv jobId ?T ?K 0 (loggedFor jobId st0) (row_downloadedTiles row0)
              (startJob jobId source tiles now st0)"
    by (rule startJob_inv[OF assms(1-5)])
  have i: "job_inv jobId ?T ?K (failuresOf jobId evs) (loggedFor jobId st0) (row_downloadedTiles row0) st"
    using run_inv[OF i0 assms(7,8)] by simp
  from job_inv_active[OF i assms(9)] obtain job stats' row where
    a: "Map_get (activeJobs st) jobId = Some job" and s: "Map_get (downloadStats st) jobId = Some stats'"
    and ro: "download_jobs st jobId = Some row"
    and d0: "0 \<le> downloadedCount stats'"
    and rd: "row_downloadedTiles row =
               (if downloadedCount stats' < 10 then row_downloadedTiles row0
                else 10 * (downloadedCount stats' div 10))"
    by (auto elim: job_runningE)
  have e: "stats' = stats" using s assms(9) by simp
  have rd': "row_downloadedTiles row = ?r"
    using rd unfolding e .
  have d0': "0 \<le> downloadedCount stats"
    using d0 unfolding e .
  have c: "cancelJob jobId now' st =
     (True, (updateJobStatus jobId ''cancelled'' now'
               (st\<lparr>queue := filter (\<lambda>task. task_jobId task \<noteq> jobId) (queue st)\<rparr>))
            \<lparr>activeJobs := Map_delete (activeJobs st) jobId,
              downloadStats := Map_delete (downloadStats st) jobId\<rparr>)"
    using a by (simp add: cancelJob_def Let_def updateJobStatus_fields)
  have reg: "download_jobs ?st' =
      (download_jobs st)(jobId \<mapsto> row\<lparr>row_status := ''cancelled'', row_updatedAt := now'\<rparr>)"
    using ro by (simp add: c updateJobStatus_def stmt_updateJobStatus_def)
  have tt: "tiles_table ?st' = tiles_table st"
    by (simp add: c updateJobStatus_fields)
  have na: "downloader_getJobStatus jobId ?st' = None"
    by (simp add: downloader_getJobStatus_def c Map_get_Map_delete)
  have gs: "map_option status_downloadedTiles (getJobStatus jobId ?st') = Some ?r"
    using rd' by (simp add: getJobStatus_def na getJob_def reg)
  have m: "downloadedCount stats - ?r \<le> 9"
  proof (cases "downloadedCount stats < 10")
    case True
    then show ?thesis using assms(6) by simp
  next
    case False
    have "downloadedCount stats - 10 * (downloadedCount stats div 10) = downloadedCount stats mod 10"
      by (simp add: minus_mult_div_eq_mod)
    moreover have "downloadedCount stats mod 10 \<le> 9" by simp
    ultimately show ?thesis using False by simp
  qed
  have z: "?r = downloadedCount stats - downloadedCount stats mod 10"
    if "row_downloadedTiles row0 = 0"
  proof (cases "downloadedCount stats < 10")
    case True
    then have "downloadedCount stats mod 10 = downloadedCount stats"
      using d0' by simp
    then show ?thesis using True that by simp
  next
    case False
    have "10 * (downloadedCount stats div 10) = downloadedCount stats - downloadedCount stats mod 10"
      by (simp add: minus_mod_eq_mult_div)
    then show ?thesis using False by simp
  qed
  have fstc: "fst (cancelJob jobId now' st)" by (simp add: c)
  have ne: "download_jobs st jobId \<noteq> None" by (simp add: ro)
  have reg': "download_jobs ?st' =
      (download_jobs st)(jobId \<mapsto>
         (the (download_jobs st jobId))\<lparr>row_status := ''cancelled'', row_updatedAt := now'\<rparr>)"
    by (simp add: reg ro)
  have gz: "row_downloadedTiles row0 = 0 \<longrightarrow>
      map_option status_downloadedTiles (getJobStatus jobId ?st') =
        Some (downloadedCount stats - downloadedCount stats mod 10)"
  proof
    assume "row_downloadedTiles row0 = 0"
    then show "map_option status_downloadedTiles (getJobStatus jobId ?st') =
        Some (downloadedCount stats - downloadedCount stats mod 10)"
      unfolding gs using z by (simp only:)
  qed
  show ?thesis
    by (intro conjI) (rule fstc ne reg' tt gs m gz)+
qed

theorem cancel_keeps_snapshot_witness:
  "slots_ok example_forge \<and> 0 < maxConcurrent example_forge
   \<and> queuedFor ''job1'' example_forge = 0 \<and> fetchingFor ''job1'' example_forge = 0
   \<and> map_option row_downloadedTiles (download_jobs example_forge ''job1'') = Some 0
   \<and> run [(200, FetchSettled example_task (Response ''b''))]
        (startJob ''job1'' ''arcgis'' example_tiles 100 example_forge) \<noteq> None
   \<and> \<not> restarts ''job1'' (FetchSettled example_task (Response ''b''))
   \<and> Map_get (downloadStats (the (run [(200, FetchSettled example_task (Response ''b''))]
        (startJob ''job1'' ''arcgis'' example_tiles 100 example_forge)))) ''job1''
       = Some \<lparr>startTime = 100, downloadedCount = 1, failedCount = 0, skippedCount = 1\<rparr>
   \<and> fst (cancelJob ''job1'' 300 (the (run [(200, FetchSettled example_task (Response ''b''))]
        (startJob ''job1'' ''arcgis'' example_tiles 100 example_forge))))
   \<and> map_option status_downloadedTiles
        (getJobStatus ''job1'' (snd (cancelJob ''job1'' 300 (the (run [(200, FetchSettled example_task (Response ''b''))]
        (startJob ''job1'' ''arcgis'' example_tiles 100 example_forge)))))) = Some 0
   \<and> map_option row_status
        (download_jobs (snd (cancelJob ''job1'' 300 (the (run [(200, FetchSettled example_task (Response ''b''))]
        (startJob ''job1'' ''arcgis'' example_tiles 100 example_forge))))) ''job1'') = Some ''cancelled''"
proof -
  let ?evs = "[(200, FetchSettled example_task (Response ''b''))]"
  let ?run = "run ?evs (startJob ''job1'' ''arcgis'' example_tiles 100 example_forge)"
  let ?stats = "\<lparr>startTime = 100, downloadedCount = 1, failedCount = 0, skippedCount = 1\<rparr>"
  from example_run_active obtain st where st: "?run = Some st"
    and stats: "Map_get (downloadStats st) ''job1'' = Some ?stats"
    by auto
  from example_forge_ready(5) obtain row0 where row0: "download_jobs example_forge ''job1'' = Some row0"
    and r0: "row_downloadedTiles row0 = 0"
    by auto
  have r0': "0 \<le> row_downloadedTiles row0" using r0 by simp
  have ev: "\<forall>e \<in> set ?evs. \<not> restarts ''job1'' (snd e)" by simp
  note th = cancel_keeps_snapshot[OF example_forge_ready(1-4) row0 r0' st ev stats, of 300]
  show ?thesis
    using th st stats r0 example_forge_ready(1-5) by (auto simp: fun_upd_same)
qed

end
